(* ===== verification/Http_Prelude.thy ===== *)
theory Http_Prelude
  imports Main "HOL-Library.Sublist" "HOL-Library.Word"
begin

text \<open>
  Shared vocabulary of the development: bytes and the control characters of the protocol, the
  decimal conversions that the server performs through \<open>printf\<close> and \<open>strto*\<close>, the fact
  collections the components feed, generic lemmas on lists and on sums over thread tables, and
  the locales that turn "every step keeps the invariant" into "every reachable state has it", and
  "every step goes down" into "every run ends".
\<close>

section \<open>Bytes and strings\<close>

text \<open>A C \<open>char\<close> is a byte; a buffer is a list of bytes.\<close>

type_synonym byte = char
type_synonym bytes = "char list"

abbreviation NUL :: byte where "NUL \<equiv> CHR 0x00"
abbreviation CR :: byte where "CR \<equiv> CHR 0x0D"
abbreviation LF :: byte where "LF \<equiv> CHR 0x0A"
abbreviation crlf :: bytes where "crlf \<equiv> [CR, LF]"

named_theorems io_defs \<open>definitions of the operating-system model\<close>
named_theorems io_facts \<open>what one system call does to its stream\<close>
named_theorems resource_facts \<open>what an operation does to the descriptors and locks it holds\<close>
named_theorems step_defs \<open>definitions unfolded by the proofs about transition systems\<close>

text \<open>The C string that starts at offset \<open>off\<close> of a buffer: it ends before the first NUL byte.\<close>

definition cstr :: "bytes \<Rightarrow> nat \<Rightarrow> bytes" where
  "cstr buf off = takeWhile (\<lambda>c. c \<noteq> NUL) (drop off buf)"

lemma length_cstr_le: "length (cstr buf off) \<le> length buf - off"
  using length_takeWhile_le [of "\<lambda>c. c \<noteq> NUL" "drop off buf"] by (simp add: cstr_def)

lemma cstr_no_NUL: "NUL \<notin> set (cstr buf off)"
  by (auto simp: cstr_def dest: set_takeWhileD)

lemma cstr_id: "NUL \<notin> set buf \<Longrightarrow> cstr buf 0 = buf"
  by (auto simp: cstr_def takeWhile_eq_all_conv)

lemma drop_takeWhile_all:
  "n \<le> length (takeWhile P xs) \<Longrightarrow> takeWhile P (drop n xs) = drop n (takeWhile P xs)"
  by (induction xs arbitrary: n) (auto simp: drop_Cons' split: if_splits)

lemma cstr_drop: "n \<le> length (cstr buf off) \<Longrightarrow> cstr buf (off + n) = drop n (cstr buf off)"
  unfolding cstr_def by (metis add.commute drop_drop drop_takeWhile_all)

section \<open>Decimal numerals\<close>

definition is_digit :: "byte \<Rightarrow> bool" where
  "is_digit c \<longleftrightarrow> 48 \<le> (of_char c :: nat) \<and> (of_char c :: nat) \<le> 57"

definition digit_val :: "byte \<Rightarrow> nat" where
  "digit_val c = of_char c - 48"

text \<open>What \<open>%d\<close>, \<open>%ju\<close> and \<open>PRIu64\<close> print for a non-negative value.\<close>

fun dec_of_nat :: "nat \<Rightarrow> bytes" where
  "dec_of_nat n =
     (if n < 10 then [char_of (48 + n)] else dec_of_nat (n div 10) @ [char_of (48 + n mod 10)])"

declare dec_of_nat.simps [simp del]

text \<open>What \<open>%jd\<close> prints.\<close>

definition dec_of_int :: "int \<Rightarrow> bytes" where
  "dec_of_int i = (if i < 0 then CHR ''-'' # dec_of_nat (nat (- i)) else dec_of_nat (nat i))"

definition dec_val :: "bytes \<Rightarrow> nat" where
  "dec_val ds = foldl (\<lambda>a c. 10 * a + digit_val c) 0 ds"

lemma of_char_digit [simp]: "d < 10 \<Longrightarrow> of_char (char_of (48 + d) :: char) = (48 + d :: nat)"
  by (simp add: of_char_of)

lemma is_digit_char_of [simp]: "d < (10 :: nat) \<Longrightarrow> is_digit (char_of (48 + d))"
  by (simp add: is_digit_def)

lemma digit_val_char_of [simp]: "d < (10 :: nat) \<Longrightarrow> digit_val (char_of (48 + d)) = d"
  by (simp add: digit_val_def)

lemma dec_of_nat_nonempty [simp]: "dec_of_nat n \<noteq> []"
  by (subst dec_of_nat.simps) simp

lemma dec_of_nat_digits: "c \<in> set (dec_of_nat n) \<Longrightarrow> is_digit c"
proof (induction n rule: dec_of_nat.induct)
  case (1 n)
  then show ?case
    by (cases "n < 10") (auto simp: dec_of_nat.simps [of n])
qed

lemma dec_val_snoc [simp]: "dec_val (ds @ [c]) = 10 * dec_val ds + digit_val c"
  by (simp add: dec_val_def)

lemma dec_val_dec_of_nat [simp]: "dec_val (dec_of_nat n) = n"
proof (induction n rule: dec_of_nat.induct)
  case (1 n)
  show ?case
  proof (cases "n < 10")
    case True
    then show ?thesis by (simp add: dec_of_nat.simps [of n] dec_val_def)
  next
    case False
    with 1 show ?thesis by (simp add: dec_of_nat.simps [of n])
  qed
qed

lemma dec_of_nat_inj: "dec_of_nat m = dec_of_nat n \<Longrightarrow> m = n"
  by (metis dec_val_dec_of_nat)

lemma length_dec_of_nat: "n < 10 ^ k \<Longrightarrow> 0 < k \<Longrightarrow> length (dec_of_nat n) \<le> k"
proof (induction n arbitrary: k rule: dec_of_nat.induct)
  case (1 n)
  show ?case
  proof (cases "n < 10")
    case True
    with 1 show ?thesis by (simp add: dec_of_nat.simps [of n])
  next
    case False
    with 1(2,3) obtain j where k: "k = Suc j" and j: "0 < j"
      by (cases k; cases "k - 1") auto
    with 1(2) have "n div 10 < 10 ^ j" by (simp add: less_mult_imp_div_less)
    with 1(1) False j have "length (dec_of_nat (n div 10)) \<le> j" by simp
    with False k show ?thesis by (simp add: dec_of_nat.simps [of n])
  qed
qed

lemma digit_not_special: "is_digit c \<Longrightarrow> c \<noteq> CHR ''-'' \<and> c \<noteq> CHR ''.'' \<and> c \<noteq> CHR ''/'' \<and> c \<noteq> NUL"
  by (auto simp: is_digit_def)

section \<open>Generic lemmas\<close>

text \<open>A table of threads, one of which moves: a weighted count changes by the weights of its old
  and new location.\<close>

lemma sum_fun_upd:
  fixes f :: "'l \<Rightarrow> 'm :: comm_monoid_add"
  assumes "finite T" and "t \<in> T"
  shows "(\<Sum>x\<in>T. f ((p(t := c)) x)) + f (p t) = (\<Sum>x\<in>T. f (p x)) + f c"
proof -
  have "(\<Sum>x\<in>T. f ((p(t := c)) x)) = f c + (\<Sum>x\<in>T - {t}. f (p x))"
    using assms by (auto simp: sum.remove [of T t] intro: sum.cong)
  moreover have "(\<Sum>x\<in>T. f (p x)) = f (p t) + (\<Sum>x\<in>T - {t}. f (p x))"
    using assms by (simp add: sum.remove)
  ultimately show ?thesis by (simp add: ac_simps)
qed

text \<open>The threads \<open>0..N-1\<close> at their locations \<open>p\<close>, counted with a weight per location.\<close>

definition tally :: "nat \<Rightarrow> ('l \<Rightarrow> nat) \<Rightarrow> (nat \<Rightarrow> 'l) \<Rightarrow> nat" where
  "tally N w p = (\<Sum>t\<in>{..<N}. w (p t))"

lemma tally_upd: "t < N \<Longrightarrow> tally N w (p(t := c)) + w (p t) = tally N w p + w c"
  unfolding tally_def by (rule sum_fun_upd) auto

lemma tally_ge: "t < N \<Longrightarrow> w (p t) \<le> tally N w p"
  unfolding tally_def by (rule member_le_sum [where f = "\<lambda>x. w (p x)"]) auto

lemma tally_two:
  assumes "t < N" and "t' < N" and "t \<noteq> t'"
  shows "w (p t) + w (p t') \<le> tally N w p"
proof -
  have "w (p t') \<le> (\<Sum>x\<in>{..<N} - {t}. w (p x))"
    using assms by (intro member_le_sum [where f = "\<lambda>x. w (p x)"]) auto
  then show ?thesis using assms by (simp add: tally_def sum.remove [of "{..<N}" t])
qed

lemma tally_zero: "tally N w p = 0 \<longleftrightarrow> (\<forall>t < N. w (p t) = 0)"
  by (auto simp: tally_def)

lemma tally_less: "t < N \<Longrightarrow> w c < w (p t) \<Longrightarrow> tally N w (p(t := c)) < tally N w p"
  using tally_upd [of t N w p c] by linarith

lemma tally_le_N: "(\<And>c. w c \<le> 1) \<Longrightarrow> tally N w p \<le> N"
  unfolding tally_def using sum_bounded_above [of "{..<N}" "\<lambda>t. w (p t)" 1] by simp

lemma tally_eq_N:
  assumes "tally N w p = N" and "\<And>c. w c \<le> 1" and "t < N"
  shows "w (p t) = 1"
proof (rule ccontr)
  assume "w (p t) \<noteq> 1"
  with assms(2) [of "p t"] have z: "w (p t) = 0" by simp
  have "tally N w p = (\<Sum>x\<in>{..<N} - {t}. w (p x))"
    using assms(3) z by (simp add: tally_def sum.remove [of "{..<N}" t])
  also have "\<dots> \<le> card ({..<N} - {t})"
    using sum_bounded_above [of "{..<N} - {t}" "\<lambda>t. w (p t)" 1] assms(2) by simp
  also have "\<dots> < N" using assms(3) by simp
  finally show False using assms(1) by simp
qed

lemma advance_less: "tot < n \<Longrightarrow> xs \<noteq> [] \<Longrightarrow> n - (tot + length xs) < n - tot"
  by (cases xs) auto

lemma take_drop_rest [simp]: "take k (drop t xs) @ drop (t + k) xs = drop t xs"
  by (metis add.commute append_take_drop_id drop_drop)

lemma list_ex_sublist:
  "list_ex (\<lambda>i. take (length ys) (drop i xs) = ys) [0..<Suc (length xs - length ys)]
     \<longleftrightarrow> sublist ys xs"
proof
  assume "list_ex (\<lambda>i. take (length ys) (drop i xs) = ys) [0..<Suc (length xs - length ys)]"
  then obtain i where "take (length ys) (drop i xs) = ys" unfolding list_ex_iff by blast
  then have "xs = take i xs @ ys @ drop (length ys) (drop i xs)"
    by (metis append_take_drop_id)
  then show "sublist ys xs" by (auto simp: sublist_def)
next
  assume "sublist ys xs"
  then obtain us vs where xs: "xs = us @ ys @ vs" by (auto simp: sublist_def)
  then show "list_ex (\<lambda>i. take (length ys) (drop i xs) = ys) [0..<Suc (length xs - length ys)]"
    by (auto simp: list_ex_iff intro!: bexI [of _ "length us"])
qed

section \<open>Transition systems and their invariants\<close>

text \<open>
  The contract every concurrent component of the server is proved against: an initial condition,
  a step relation and an invariant that the steps keep.
\<close>

locale invariant_system =
  fixes init :: "'s \<Rightarrow> bool"
    and step :: "'s \<Rightarrow> 's \<Rightarrow> bool"
    and inv :: "'s \<Rightarrow> bool"
  assumes init_inv: "init s \<Longrightarrow> inv s"
    and step_inv: "step s t \<Longrightarrow> inv s \<Longrightarrow> inv t"
begin

lemma steps_inv: "step\<^sup>*\<^sup>* s t \<Longrightarrow> inv s \<Longrightarrow> inv t"
  by (induction rule: rtranclp_induct) (auto intro: step_inv)

lemma reach_inv: "init s \<Longrightarrow> step\<^sup>*\<^sup>* s t \<Longrightarrow> inv t"
  by (blast intro: steps_inv init_inv)

end

text \<open>
  A system that comes to rest: each step goes down in a well-founded order, and where the system is
  not at rest a step of a wanted kind is possible. Then no run goes on for ever, and wanted steps
  alone lead to rest.
\<close>

locale settling_system = invariant_system init step inv
  for init :: "'s \<Rightarrow> bool" and step :: "'s \<Rightarrow> 's \<Rightarrow> bool" and inv :: "'s \<Rightarrow> bool" +
  fixes descent :: "('s \<times> 's) set"
    and wanted :: "'s \<Rightarrow> 's \<Rightarrow> bool"
    and rest :: "'s \<Rightarrow> bool"
  assumes wf_descent: "wf descent"
    and descends: "step s t \<Longrightarrow> inv s \<Longrightarrow> (t, s) \<in> descent"
    and enabled: "inv s \<Longrightarrow> \<not> rest s \<Longrightarrow> \<exists>t. step s t \<and> wanted s t"
begin

lemma no_endless_run: "inv s \<Longrightarrow> \<nexists>run. run 0 = s \<and> (\<forall>i. step (run i) (run (Suc i)))"
proof
  assume s: "inv s" and "\<exists>run. run 0 = s \<and> (\<forall>i. step (run i) (run (Suc i)))"
  then obtain run where run: "run 0 = s" "step (run i) (run (Suc i))" for i by blast
  have "inv (run i)" for i using s run by (induction i) (auto intro: step_inv)
  with run(2) have "(run (Suc i), run i) \<in> descent" for i by (blast intro: descends)
  with wf_descent show False unfolding wf_iff_no_infinite_down_chain by blast
qed

lemma comes_to_rest: "inv s \<Longrightarrow> \<exists>t. (\<lambda>s t. step s t \<and> wanted s t)\<^sup>*\<^sup>* s t \<and> rest t"
proof (induction s rule: wf_induct_rule [OF wf_descent])
  case (1 s)
  show ?case
  proof (cases "rest s")
    case False
    with enabled 1(2) obtain t where t: "step s t" "wanted s t" by blast
    with 1 descends step_inv obtain t' where "(\<lambda>s t. step s t \<and> wanted s t)\<^sup>*\<^sup>* t t'" "rest t'" by blast
    moreover have "(\<lambda>s t. step s t \<and> wanted s t) s t" using t by simp
    ultimately show ?thesis by (blast intro: converse_rtranclp_into_rtranclp)
  qed blast
qed

end

end
