(* ===== verification/Sysio.thy ===== *)
theory Sysio
  imports Http_Prelude
begin

text \<open>
  The operating system as the server sees it through \<open>read\<close> and \<open>write\<close>. A descriptor that is
  read from is an input stream: the bytes still to come (end of file after the last one) and a
  schedule that says, call by call, how much the kernel hands over or with which \<open>errno\<close> the call
  fails. A descriptor that is written to is an output stream: the bytes accepted so far and such
  a schedule. When a schedule has run out, calls transfer as much as they are asked to. A call
  that succeeds on a non-empty request transfers at least one byte, except a read at end of file,
  as POSIX says for blocking descriptors. Schedules are finite: a call is interrupted, cut short
  or failed only finitely often, in any pattern.
\<close>

datatype errno =
    EINTR | EAGAIN | EWOULDBLOCK | EACCES | EISDIR | ENOENT | EEXIST | ENOTDIR
  | EPIPE | ECONNRESET | EIO | ENOSPC | ERANGE | EINVAL | ENOMEM | EOTHER nat

text \<open>\<open>Xfer k\<close>: the call moves at most \<open>k + 1\<close> bytes. \<open>Fail e\<close>: it returns -1 and sets \<open>errno\<close>
  to \<open>e\<close>.\<close>

datatype io_ev = Xfer nat | Fail errno

record istream =
  idata :: bytes
  isched :: "io_ev list"

record ostream =
  odata :: bytes
  osched :: "io_ev list"

definition sys_read :: "istream \<Rightarrow> nat \<Rightarrow> (errno + bytes) \<times> istream" where
  "sys_read s n =
     (case isched s of
        [] \<Rightarrow> (Inr (take n (idata s)), s\<lparr>idata := drop n (idata s)\<rparr>)
      | Fail e # es \<Rightarrow> (Inl e, s\<lparr>isched := es\<rparr>)
      | Xfer k # es \<Rightarrow>
          (let m = min n (Suc k)
           in (Inr (take m (idata s)), s\<lparr>idata := drop m (idata s), isched := es\<rparr>)))"

definition sys_write :: "ostream \<Rightarrow> bytes \<Rightarrow> (errno + nat) \<times> ostream" where
  "sys_write s bs =
     (case osched s of
        [] \<Rightarrow> (Inr (length bs), s\<lparr>odata := odata s @ bs\<rparr>)
      | Fail e # es \<Rightarrow> (Inl e, s\<lparr>osched := es\<rparr>)
      | Xfer k # es \<Rightarrow>
          (let m = min (length bs) (Suc k)
           in (Inr m, s\<lparr>odata := odata s @ take m bs, osched := es\<rparr>)))"

lemmas [io_defs] = sys_read_def sys_write_def

text \<open>The errors a schedule still holds, apart from interruptions.\<close>

definition hard_faults :: "io_ev list \<Rightarrow> errno set" where
  "hard_faults es = {e. Fail e \<in> set es \<and> e \<noteq> EINTR}"

lemma hard_faults_simps [simp]:
  "hard_faults [] = {}"
  "hard_faults (Xfer k # es) = hard_faults es"
  "hard_faults (Fail e # es) = (if e = EINTR then hard_faults es else insert e (hard_faults es))"
  by (auto simp: hard_faults_def)

section \<open>What one call does\<close>

lemma sys_read_Inr [io_facts]:
  "sys_read s n = (Inr bs, s') \<Longrightarrow>
     idata s = bs @ idata s' \<and> length bs \<le> n
     \<and> (0 < n \<longrightarrow> bs = [] \<longrightarrow> idata s' = [])
     \<and> hard_faults (isched s') = hard_faults (isched s)"
  by (auto simp: io_defs Let_def min_def split: list.splits io_ev.splits if_splits)

lemma sys_read_Inl [io_facts]:
  "sys_read s n = (Inl e, s') \<Longrightarrow>
     idata s' = idata s \<and> length (isched s') < length (isched s)
     \<and> (e \<noteq> EINTR \<longrightarrow> e \<in> hard_faults (isched s))
     \<and> (e = EINTR \<longrightarrow> hard_faults (isched s') = hard_faults (isched s))"
  by (auto simp: io_defs Let_def split: list.splits io_ev.splits)

lemma sys_write_Inr [io_facts]:
  "sys_write s bs = (Inr n, s') \<Longrightarrow>
     n \<le> length bs \<and> odata s' = odata s @ take n bs \<and> (bs \<noteq> [] \<longrightarrow> 0 < n)
     \<and> length (osched s') \<le> length (osched s)
     \<and> hard_faults (osched s') = hard_faults (osched s)"
  by (auto simp: io_defs Let_def split: list.splits io_ev.splits)

lemma sys_write_Inl [io_facts]:
  "sys_write s bs = (Inl e, s') \<Longrightarrow>
     odata s' = odata s \<and> length (osched s') < length (osched s)
     \<and> (e \<noteq> EINTR \<longrightarrow> e \<in> hard_faults (osched s))
     \<and> (e = EINTR \<longrightarrow> hard_faults (osched s') = hard_faults (osched s))"
  by (auto simp: io_defs Let_def split: list.splits io_ev.splits)

end
