(* ===== verification/Util_IO.thy ===== *)
theory Util_IO
  imports Sysio
begin

text \<open>
  The transfer loops of \<open>src/util.c\<close>: \<open>write_all\<close>, \<open>pass_bytes\<close> and \<open>read_until\<close>. The C
  functions return a byte count or -1 with \<open>errno\<close> set; here the result is \<open>Inr count\<close> or
  \<open>Inl errno\<close>. A buffer and its length are one list of bytes. Every loop is total: each turn
  uses up a schedule entry or moves a byte.
\<close>

section \<open>The loops\<close>

text \<open>\<open>BUFFER_SIZE\<close> of \<open>util.c\<close>.\<close>

definition PASS_BUFFER_SIZE :: nat where
  "PASS_BUFFER_SIZE = 4096"

function write_all_from :: "ostream \<Rightarrow> bytes \<Rightarrow> nat \<Rightarrow> (errno + nat) \<times> ostream" where
  "write_all_from out buf tot =
     (if tot < length buf then
        (case sys_write out (drop tot buf) of
           (Inl e, out') \<Rightarrow> if e = EINTR then write_all_from out' buf tot else (Inl e, out')
         | (Inr n, out') \<Rightarrow> write_all_from out' buf (tot + n))
      else (Inr tot, out))"
  by pat_completeness auto
termination
  by (relation "measure (\<lambda>(out, buf, tot). length (osched out) + (length buf - tot))")
    (auto dest!: io_facts [OF sym])

declare write_all_from.simps [simp del]

definition write_all :: "ostream \<Rightarrow> bytes \<Rightarrow> (errno + nat) \<times> ostream" where
  "write_all out buf = write_all_from out buf 0"

text \<open>The inner \<open>do ... while (n < 0 && errno == EINTR)\<close> of \<open>pass_bytes\<close> and \<open>read_until\<close>.\<close>

function read_retry :: "istream \<Rightarrow> nat \<Rightarrow> (errno + bytes) \<times> istream" where
  "read_retry s n =
     (case sys_read s n of
        (Inl e, s') \<Rightarrow> if e = EINTR then read_retry s' n else (Inl e, s')
      | (Inr bs, s') \<Rightarrow> (Inr bs, s'))"
  by pat_completeness auto
termination
  by (relation "measure (\<lambda>(s, n). length (isched s))") (auto dest!: io_facts [OF sym])

declare read_retry.simps [simp del]

lemma read_retry_Inr:
  "read_retry s n = (Inr bs, s') \<Longrightarrow>
     idata s = bs @ idata s' \<and> length bs \<le> n
     \<and> (0 < n \<longrightarrow> bs = [] \<longrightarrow> idata s' = [])
     \<and> hard_faults (isched s') = hard_faults (isched s)"
proof (induction s n rule: read_retry.induct)
  case (1 s n)
  obtain r s1 where rd: "sys_read s n = (r, s1)" by fastforce
  show ?case
  proof (cases r)
    case (Inl e)
    with 1(2) rd have e: "e = EINTR" and "read_retry s1 n = (Inr bs, s')"
      by (auto simp: read_retry.simps [of s n] split: if_splits)
    moreover from sys_read_Inl [OF rd [unfolded Inl]] e
    have "idata s = idata s1" "hard_faults (isched s) = hard_faults (isched s1)" by simp_all
    ultimately show ?thesis using 1(1) [OF rd [symmetric] Inl] by metis
  next
    case (Inr cs)
    with 1(2) rd have "cs = bs" "s1 = s'" by (auto simp: read_retry.simps [of s n])
    with sys_read_Inr [OF rd [unfolded Inr]] show ?thesis by simp
  qed
qed

lemma read_retry_Inl:
  "read_retry s n = (Inl e, s') \<Longrightarrow>
     e \<noteq> EINTR \<and> idata s' = idata s \<and> e \<in> hard_faults (isched s)"
proof (induction s n rule: read_retry.induct)
  case (1 s n)
  then show ?case
    by (auto simp: read_retry.simps [of s n] split: prod.splits sum.splits if_splits
        dest!: io_facts)
qed

function pass_bytes_from ::
  "istream \<Rightarrow> ostream \<Rightarrow> nat \<Rightarrow> nat \<Rightarrow> (errno + nat) \<times> istream \<times> ostream" where
  "pass_bytes_from src dst nbytes tot =
     (if tot < nbytes then
        (let want = min (nbytes - tot) PASS_BUFFER_SIZE
         in case read_retry src want of
              (Inl e, src') \<Rightarrow> (Inl e, src', dst)
            | (Inr buf, src') \<Rightarrow>
                if buf = [] then (Inr tot, src', dst)
                else (case write_all dst buf of
                        (Inl e, dst') \<Rightarrow> (Inl e, src', dst')
                      | (Inr _, dst') \<Rightarrow> pass_bytes_from src' dst' nbytes (tot + length buf)))
      else (Inr tot, src, dst))"
  by pat_completeness auto
termination
  by (relation "measure (\<lambda>(src, dst, nbytes, tot). nbytes - tot)") (auto simp: advance_less)

declare pass_bytes_from.simps [simp del]

definition pass_bytes :: "istream \<Rightarrow> ostream \<Rightarrow> nat \<Rightarrow> (errno + nat) \<times> istream \<times> ostream" where
  "pass_bytes src dst nbytes = pass_bytes_from src dst nbytes 0"

text \<open>The \<open>memcmp\<close> scan of \<open>read_until\<close> for the needle in what has been read so far.\<close>

definition needle_found :: "bytes \<Rightarrow> bytes \<Rightarrow> bool" where
  "needle_found needle buf \<longleftrightarrow>
     needle \<noteq> [] \<and> length needle \<le> length buf
     \<and> list_ex (\<lambda>i. take (length needle) (drop i buf) = needle)
         [0..<Suc (length buf - length needle)]"

function read_until_from ::
  "istream \<Rightarrow> bytes \<Rightarrow> nat \<Rightarrow> bytes \<Rightarrow> (errno + nat) \<times> bytes \<times> istream" where
  "read_until_from s buf nbytes needle =
     (if length buf < nbytes then
        (case read_retry s (nbytes - length buf) of
           (Inl e, s') \<Rightarrow> (Inl e, buf, s')
         | (Inr bs, s') \<Rightarrow>
             if bs = [] then (Inr (length buf), buf, s')
             else if needle_found needle (buf @ bs)
             then (Inr (length (buf @ bs)), buf @ bs, s')
             else read_until_from s' (buf @ bs) nbytes needle)
      else (Inr (length buf), buf, s))"
  by pat_completeness auto
termination
  by (relation "measure (\<lambda>(s, buf, nbytes, needle). nbytes - length buf)")
    (auto simp: advance_less)

declare read_until_from.simps [simp del]

definition read_until :: "istream \<Rightarrow> nat \<Rightarrow> bytes \<Rightarrow> (errno + nat) \<times> bytes \<times> istream" where
  "read_until s nbytes needle = read_until_from s [] nbytes needle"

section \<open>The contract of a byte sink\<close>

text \<open>
  What the rest of the server relies on when it writes a block: either all of it has been
  accepted, or the call failed with a real error and a proper prefix of the block has been
  accepted. Interruptions are never reported.
\<close>

locale byte_sink =
  fixes put :: "'s \<Rightarrow> bytes \<Rightarrow> (errno + nat) \<times> 's"
    and sent :: "'s \<Rightarrow> bytes"
    and faults :: "'s \<Rightarrow> errno set"
  assumes put_ok: "put s bs = (Inr n, s') \<Longrightarrow>
      n = length bs \<and> sent s' = sent s @ bs \<and> faults s' = faults s"
    and put_err: "put s bs = (Inl e, s') \<Longrightarrow>
      e \<noteq> EINTR \<and> e \<in> faults s \<and> (\<exists>m < length bs. sent s' = sent s @ take m bs)"
begin

lemma put_no_fault: "faults s = {} \<Longrightarrow> \<exists>s'. put s bs = (Inr (length bs), s')"
proof (cases "put s bs")
  case (Pair r s')
  assume "faults s = {}"
  with Pair show ?thesis using put_ok [of s bs _ s'] put_err [of s bs _ s'] by (cases r) auto
qed

lemma put_prefix: "put s bs = (r, s') \<Longrightarrow> \<exists>m. sent s' = sent s @ take m bs"
  using put_ok [of s bs _ s'] put_err [of s bs _ s']
  by (cases r) (auto intro: exI [of _ "length bs"])

lemma put_cases:
  assumes "put s bs = (r, s')"
  obtains (ok) "r = Inr (length bs)" "sent s' = sent s @ bs" "faults s' = faults s"
  | (err) e m where "r = Inl e" "e \<noteq> EINTR" "e \<in> faults s" "m < length bs"
      "sent s' = sent s @ take m bs"
  using assms put_ok [of s bs _ s'] put_err [of s bs _ s'] by (cases r) auto

end

lemma write_all_from_Inr:
  "write_all_from out buf tot = (Inr n, out') \<Longrightarrow> tot \<le> length buf \<Longrightarrow>
     n = length buf \<and> odata out' = odata out @ drop tot buf
     \<and> hard_faults (osched out') = hard_faults (osched out)"
proof (induction out buf tot rule: write_all_from.induct)
  case (1 out buf tot)
  show ?case
  proof (cases "tot < length buf")
    case False
    with 1(3,4) show ?thesis by (simp add: write_all_from.simps [of out buf tot])
  next
    case True
    obtain r out1 where w: "sys_write out (drop tot buf) = (r, out1)" by fastforce
    show ?thesis
    proof (cases r)
      case (Inl e)
      with 1(3) w True have "e = EINTR" and "write_all_from out1 buf tot = (Inr n, out')"
        by (auto simp: write_all_from.simps [of out buf tot] split: if_splits)
      with 1(1) [OF True w [symmetric] Inl] 1(4) w Inl show ?thesis
        by (auto dest!: sys_write_Inl)
    next
      case (Inr k)
      with 1(3) w True have "write_all_from out1 buf (tot + k) = (Inr n, out')"
        by (simp add: write_all_from.simps [of out buf tot])
      moreover from w Inr have "k \<le> length buf - tot" "odata out1 = odata out @ take k (drop tot buf)"
        and "hard_faults (osched out1) = hard_faults (osched out)"
        by (auto dest!: sys_write_Inr)
      ultimately show ?thesis
        using 1(2) [OF True w [symmetric] Inr] True by simp
    qed
  qed
qed

lemma write_all_from_Inl:
  "write_all_from out buf tot = (Inl e, out') \<Longrightarrow>
     e \<noteq> EINTR \<and> e \<in> hard_faults (osched out)
     \<and> (\<exists>m < length buf - tot. odata out' = odata out @ take m (drop tot buf))"
proof (induction out buf tot rule: write_all_from.induct)
  case (1 out buf tot)
  from 1(3) have True: "tot < length buf"
    by (rule contrapos_pp) (simp add: write_all_from.simps [of out buf tot])
  obtain r out1 where w: "sys_write out (drop tot buf) = (r, out1)" by fastforce
  show ?case
  proof (cases r)
    case (Inl e1)
    show ?thesis
    proof (cases "e1 = EINTR")
      case True': True
      with 1(3) w True Inl have "write_all_from out1 buf tot = (Inl e, out')"
        by (simp add: write_all_from.simps [of out buf tot])
      with 1(1) [OF True w [symmetric] Inl True'] w Inl True' show ?thesis
        by (auto dest!: sys_write_Inl)
    next
      case False
      with 1(3) w True Inl have "e1 = e" "out1 = out'"
        by (auto simp: write_all_from.simps [of out buf tot])
      with w Inl False True show ?thesis
        by (auto dest!: sys_write_Inl intro!: exI [of _ 0])
    qed
  next
    case (Inr k)
    with 1(3) w True have "write_all_from out1 buf (tot + k) = (Inl e, out')"
      by (simp add: write_all_from.simps [of out buf tot])
    from 1(2) [OF True w [symmetric] Inr this] obtain m where m: "m < length buf - (tot + k)"
      "odata out' = odata out1 @ take m (drop (tot + k) buf)"
      "e \<noteq> EINTR" "e \<in> hard_faults (osched out1)" by blast
    moreover from w Inr have "odata out1 = odata out @ take k (drop tot buf)"
      and "hard_faults (osched out1) = hard_faults (osched out)"
      by (auto dest!: sys_write_Inr)
    ultimately show ?thesis
      by (auto simp: take_add add.commute intro!: exI [of _ "k + m"])
  qed
qed

interpretation sink: byte_sink write_all odata "\<lambda>s. hard_faults (osched s)"
proof unfold_locales
  fix s bs n s'
  assume "write_all s bs = (Inr n, s')"
  then show "n = length bs \<and> odata s' = odata s @ bs
      \<and> hard_faults (osched s') = hard_faults (osched s)"
    using write_all_from_Inr [of s bs 0 n s'] by (simp add: write_all_def)
next
  fix s bs e s'
  assume "write_all s bs = (Inl e, s')"
  then show "e \<noteq> EINTR \<and> e \<in> hard_faults (osched s)
      \<and> (\<exists>m < length bs. odata s' = odata s @ take m bs)"
    using write_all_from_Inl [of s bs 0 e s'] by (simp add: write_all_def)
qed

section \<open>Correctness of the loops\<close>

lemma pass_bytes_from_Inr:
  "pass_bytes_from src dst nbytes tot = (Inr n, src', dst') \<Longrightarrow> tot \<le> nbytes \<Longrightarrow>
     n = tot + min (nbytes - tot) (length (idata src))
     \<and> odata dst' = odata dst @ take (n - tot) (idata src)
     \<and> idata src' = drop (n - tot) (idata src)"
proof (induction src dst nbytes tot rule: pass_bytes_from.induct)
  case (1 src dst nbytes tot)
  show ?case
  proof (cases "tot < nbytes")
    case False
    with 1(2,3) show ?thesis by (simp add: pass_bytes_from.simps [of src dst nbytes tot])
  next
    case True
    define want where "want = min (nbytes - tot) PASS_BUFFER_SIZE"
    from True have want: "0 < want" "want \<le> nbytes - tot"
      by (auto simp: want_def PASS_BUFFER_SIZE_def)
    obtain r src1 where rd: "read_retry src want = (r, src1)" by fastforce
    with 1(2) True obtain buf where r: "r = Inr buf"
      by (cases r) (auto simp: pass_bytes_from.simps [of src dst nbytes tot] Let_def want_def)
    note got = read_retry_Inr [OF rd [unfolded r]]
    show ?thesis
    proof (cases "buf = []")
      case True': True
      with 1(2) True rd r got want show ?thesis
        by (auto simp: pass_bytes_from.simps [of src dst nbytes tot] Let_def want_def)
    next
      case False
      obtain w dst1 where wr: "write_all dst buf = (w, dst1)" by fastforce
      with 1(2) True rd r False obtain k where w: "w = Inr k"
        by (cases w) (auto simp: pass_bytes_from.simps [of src dst nbytes tot] Let_def want_def)
      from wr w have d: "odata dst1 = odata dst @ buf" by (auto dest: sink.put_ok)
      from 1(2) True rd r False wr w
      have "pass_bytes_from src1 dst1 nbytes (tot + length buf) = (Inr n, src', dst')"
        by (simp add: pass_bytes_from.simps [of src dst nbytes tot] Let_def want_def)
      with 1(1) [OF True want_def rd [symmetric] r False wr [symmetric] w] got want d True
      have IH: "n = tot + length buf + min (nbytes - (tot + length buf)) (length (idata src1))"
        "odata dst' = odata dst @ buf @ take (n - (tot + length buf)) (idata src1)"
        "idata src' = drop (n - (tot + length buf)) (idata src1)" by auto
      from got have src: "idata src = buf @ idata src1" and le: "length buf \<le> want" by auto
      from IH(1) have "n - tot - length buf = n - (tot + length buf)" "length buf \<le> n - tot"
        by linarith+
      with IH src le want show ?thesis by simp
    qed
  qed
qed

lemma pass_bytes_from_Inl:
  "pass_bytes_from src dst nbytes tot = (Inl e, src', dst') \<Longrightarrow> tot \<le> nbytes \<Longrightarrow>
     e \<noteq> EINTR \<and> e \<in> hard_faults (isched src) \<union> hard_faults (osched dst)
     \<and> (\<exists>m k. m \<le> k \<and> k \<le> nbytes - tot \<and> odata dst' = odata dst @ take m (idata src)
          \<and> idata src' = drop k (idata src))"
proof (induction src dst nbytes tot rule: pass_bytes_from.induct)
  case (1 src dst nbytes tot)
  from 1(2) have True: "tot < nbytes"
    by (rule contrapos_pp) (simp add: pass_bytes_from.simps [of src dst nbytes tot])
  define want where "want = min (nbytes - tot) PASS_BUFFER_SIZE"
  obtain r src1 where rd: "read_retry src want = (r, src1)" by fastforce
  note unf = pass_bytes_from.simps [of src dst nbytes tot] Let_def want_def
  show ?case
  proof (cases r)
    case (Inl e1)
    with 1(2) True rd have "e1 = e" "src1 = src'" "dst' = dst" by (auto simp: unf)
    with read_retry_Inl [OF rd [unfolded Inl]] show ?thesis
      by (intro conjI exI [of _ 0]) auto
  next
    case (Inr buf)
    note got = read_retry_Inr [OF rd [unfolded Inr]]
    from 1(2) True rd Inr have False: "buf \<noteq> []" by (auto simp: unf)
    have le: "length buf \<le> nbytes - tot" using got by (simp add: want_def)
    obtain w dst1 where wr: "write_all dst buf = (w, dst1)" by fastforce
    show ?thesis using wr
    proof (cases rule: sink.put_cases)
      case ok
      with 1(2) True rd Inr False wr
      have rest: "pass_bytes_from src1 dst1 nbytes (tot + length buf) = (Inl e, src', dst')"
        by (simp add: unf)
      from 1(1) [OF True want_def rd [symmetric] Inr False wr [symmetric] ok(1) rest] le True
      obtain m k where "m \<le> k" "k \<le> nbytes - (tot + length buf)"
        "odata dst' = odata dst1 @ take m (idata src1)" "idata src' = drop k (idata src1)"
        "e \<noteq> EINTR" "e \<in> hard_faults (isched src1) \<union> hard_faults (osched dst1)"
        by fastforce
      with ok got le show ?thesis
        by (intro conjI exI [of _ "length buf + m"] exI [of _ "length buf + k"]) auto
    next
      case (err e1 m)
      with 1(2) True rd Inr False wr have "e1 = e" "src' = src1" "dst' = dst1" by (auto simp: unf)
      with err got le show ?thesis
        by (intro conjI exI [of _ m] exI [of _ "length buf"]) auto
    qed
  qed
qed

lemma needle_found_sublist: "needle_found needle buf \<longleftrightarrow> needle \<noteq> [] \<and> sublist needle buf"
  by (auto simp only: needle_found_def list_ex_sublist dest: sublist_length_le)

lemma read_until_from_Inr:
  "read_until_from s buf nbytes needle = (Inr n, buf', s') \<Longrightarrow> length buf \<le> nbytes \<Longrightarrow>
     n = length buf' \<and> n \<le> nbytes \<and> buf @ idata s = buf' @ idata s'
     \<and> length buf \<le> n \<and> hard_faults (isched s') = hard_faults (isched s)
     \<and> (n = nbytes \<or> idata s' = [] \<or> needle_found needle buf')"
proof (induction s buf nbytes needle rule: read_until_from.induct)
  case (1 s buf nbytes needle)
  note unf = read_until_from.simps [of s buf nbytes needle]
  show ?case
  proof (cases "length buf < nbytes")
    case False
    with 1(2,3) show ?thesis by (auto simp: unf)
  next
    case True
    obtain r s1 where rd: "read_retry s (nbytes - length buf) = (r, s1)" by fastforce
    with 1(2) True obtain bs where r: "r = Inr bs" by (cases r) (auto simp: unf)
    note got = read_retry_Inr [OF rd [unfolded r]]
    consider "bs = []" | "bs \<noteq> []" "needle_found needle (buf @ bs)"
      | "bs \<noteq> []" "\<not> needle_found needle (buf @ bs)" by blast
    then show ?thesis
    proof cases
      case 1
      with \<open>read_until_from s buf nbytes needle = (Inr n, buf', s')\<close> True rd r got
      show ?thesis by (auto simp: unf)
    next
      case 2
      with 1(2) True rd r have "n = length (buf @ bs)" "buf' = buf @ bs" "s' = s1"
        by (auto simp: unf)
      with got True 2 show ?thesis by auto
    next
      case 3
      with 1(2) True rd r
      have rest: "read_until_from s1 (buf @ bs) nbytes needle = (Inr n, buf', s')"
        by (simp add: unf)
      from got True have "length (buf @ bs) \<le> nbytes" by auto
      from 1(1) [OF True rd [symmetric] r 3 rest this] got show ?thesis by auto
    qed
  qed
qed

lemma read_until_from_Inl:
  "read_until_from s buf nbytes needle = (Inl e, buf', s') \<Longrightarrow>
     e \<noteq> EINTR \<and> e \<in> hard_faults (isched s) \<and> buf @ idata s = buf' @ idata s'
     \<and> length buf' < nbytes \<and> length buf \<le> length buf'"
proof (induction s buf nbytes needle rule: read_until_from.induct)
  case (1 s buf nbytes needle)
  note unf = read_until_from.simps [of s buf nbytes needle]
  from 1(2) have True: "length buf < nbytes" by (rule contrapos_pp) (simp add: unf)
  obtain r s1 where rd: "read_retry s (nbytes - length buf) = (r, s1)" by fastforce
  show ?case
  proof (cases r)
    case (Inl e1)
    with 1(2) True rd have "e1 = e" "buf' = buf" "s1 = s'" by (auto simp: unf)
    with read_retry_Inl [OF rd [unfolded Inl]] True show ?thesis by simp
  next
    case (Inr bs)
    note got = read_retry_Inr [OF rd [unfolded Inr]]
    from 1(2) True rd Inr have c: "bs \<noteq> []" "\<not> needle_found needle (buf @ bs)"
      and "read_until_from s1 (buf @ bs) nbytes needle = (Inl e, buf', s')"
      by (auto simp: unf split: if_splits)
    with 1(1) [OF True rd [symmetric] Inr c] got show ?thesis by simp
  qed
qed

lemma read_until_Inr:
  "read_until s nbytes needle = (Inr n, buf, s') \<Longrightarrow>
     n = length buf \<and> n \<le> nbytes \<and> idata s = buf @ idata s'
     \<and> hard_faults (isched s') = hard_faults (isched s)
     \<and> (n = nbytes \<or> idata s' = [] \<or> (needle \<noteq> [] \<and> sublist needle buf))"
  using read_until_from_Inr [of s "[]" nbytes needle n buf s']
  by (auto simp: read_until_def needle_found_sublist)

lemma read_until_Inl:
  "read_until s nbytes needle = (Inl e, buf, s') \<Longrightarrow>
     e \<noteq> EINTR \<and> e \<in> hard_faults (isched s) \<and> idata s = buf @ idata s' \<and> length buf < nbytes"
  using read_until_from_Inl [of s "[]" nbytes needle e buf s'] by (simp add: read_until_def)

lemma pass_bytes_Inr:
  "pass_bytes src dst nbytes = (Inr n, src', dst') \<Longrightarrow>
     n = min nbytes (length (idata src)) \<and> odata dst' = odata dst @ take n (idata src)
     \<and> idata src' = drop n (idata src)"
  using pass_bytes_from_Inr [of src dst nbytes 0 n src' dst'] by (simp add: pass_bytes_def)

lemma pass_bytes_Inl:
  "pass_bytes src dst nbytes = (Inl e, src', dst') \<Longrightarrow>
     e \<noteq> EINTR \<and> e \<in> hard_faults (isched src) \<union> hard_faults (osched dst)
     \<and> (\<exists>m k. m \<le> k \<and> k \<le> nbytes \<and> odata dst' = odata dst @ take m (idata src)
          \<and> idata src' = drop k (idata src))"
  using pass_bytes_from_Inl [of src dst nbytes 0 e src' dst'] by (simp add: pass_bytes_def)

text \<open>
  C20: \<open>write_all\<close> reports success only when every byte of the block has been accepted, in order;
  on failure it reports a real error (never an interruption) and a proper prefix of the block
  has been accepted.
\<close>

theorem write_all_correct:
  "case write_all out buf of
     (Inr n, out') \<Rightarrow> n = length buf \<and> odata out' = odata out @ buf
   | (Inl e, out') \<Rightarrow> e \<noteq> EINTR \<and> e \<in> hard_faults (osched out)
       \<and> (\<exists>m < length buf. odata out' = odata out @ take m buf)"
proof (cases "write_all out buf")
  case (Pair r out')
  show ?thesis using Pair by (cases rule: sink.put_cases) (simp_all add: Pair, blast)
qed

text \<open>
  C21: \<open>pass_bytes\<close> moves exactly the requested number of bytes, or all there are when the source
  ends first, unchanged and in order; on failure the destination holds a prefix of what was
  taken from the source.
\<close>

theorem pass_bytes_correct:
  "case pass_bytes src dst nbytes of
     (Inr n, src', dst') \<Rightarrow> n = min nbytes (length (idata src))
       \<and> odata dst' = odata dst @ take n (idata src) \<and> idata src' = drop n (idata src)
   | (Inl e, src', dst') \<Rightarrow> e \<noteq> EINTR \<and> e \<in> hard_faults (isched src) \<union> hard_faults (osched dst)
       \<and> (\<exists>m k. m \<le> k \<and> k \<le> nbytes \<and> odata dst' = odata dst @ take m (idata src)
            \<and> idata src' = drop k (idata src))"
proof (cases "pass_bytes src dst nbytes")
  case (fields r src' dst')
  then show ?thesis using pass_bytes_Inr [of src dst nbytes _ src' dst']
    pass_bytes_Inl [of src dst nbytes _ src' dst'] by (cases r) simp_all
qed

text \<open>
  The successful reads of a call, one after the other: each asks for what is still free in the
  buffer and returns at least one byte; interrupted calls are repeated.
\<close>

inductive reads :: "nat \<Rightarrow> istream \<Rightarrow> bytes list \<Rightarrow> istream \<Rightarrow> bool" for nbytes :: nat where
  none: "reads nbytes s [] s"
| more: "reads nbytes s cs s\<^sub>1 \<Longrightarrow> read_retry s\<^sub>1 (nbytes - length (concat cs)) = (Inr bs, s\<^sub>2) \<Longrightarrow>
    bs \<noteq> [] \<Longrightarrow> reads nbytes s (cs @ [bs]) s\<^sub>2"

text \<open>The needle is not there after any of the reads but the last.\<close>

definition unseen_before_last :: "bytes \<Rightarrow> bytes list \<Rightarrow> bool" where
  "unseen_before_last needle cs \<longleftrightarrow>
     (\<forall>i < length cs. \<not> (needle \<noteq> [] \<and> sublist needle (concat (take i cs))))"

lemma unseen_snoc:
  "unseen_before_last needle (cs @ [bs]) \<longleftrightarrow>
     unseen_before_last needle cs \<and> \<not> (needle \<noteq> [] \<and> sublist needle (concat cs))"
  by (auto simp: unseen_before_last_def less_Suc_eq)

definition stopped_by :: "nat \<Rightarrow> bytes \<Rightarrow> istream \<Rightarrow> bytes list \<Rightarrow> istream \<Rightarrow> bool" where
  "stopped_by nbytes needle s cs s' \<longleftrightarrow>
     reads nbytes s cs s' \<and> (length (concat cs) = nbytes \<or> (needle \<noteq> [] \<and> sublist needle (concat cs)))
   \<or> (\<exists>s\<^sub>1. reads nbytes s cs s\<^sub>1 \<and> length (concat cs) < nbytes
        \<and> \<not> (needle \<noteq> [] \<and> sublist needle (concat cs))
        \<and> read_retry s\<^sub>1 (nbytes - length (concat cs)) = (Inr [], s'))"

lemma read_until_from_reads:
  assumes "reads nbytes s\<^sub>0 cs s" and "unseen_before_last needle cs"
    and "\<not> (needle \<noteq> [] \<and> sublist needle (concat cs))" and "length (concat cs) \<le> nbytes"
  shows "\<exists>cs'. unseen_before_last needle cs' \<and> (case read_until_from s (concat cs) nbytes needle of
      (Inr n, buf, s') \<Rightarrow> buf = concat cs' \<and> stopped_by nbytes needle s\<^sub>0 cs' s'
    | (Inl e, buf, s') \<Rightarrow> buf = concat cs' \<and> \<not> (needle \<noteq> [] \<and> sublist needle buf)
        \<and> (\<exists>s\<^sub>1. reads nbytes s\<^sub>0 cs' s\<^sub>1 \<and> read_retry s\<^sub>1 (nbytes - length buf) = (Inl e, s')))"
  using assms
proof (induction s "concat cs" nbytes needle arbitrary: cs rule: read_until_from.induct)
  case (1 s nbytes needle)
  note unf = read_until_from.simps [of s "concat cs" nbytes needle]
  show ?case
  proof (cases "length (concat cs) < nbytes")
    case False
    with 1(2-5) show ?thesis by (auto simp: unf stopped_by_def intro!: exI [of _ cs])
  next
    case True
    obtain r s1 where rd: "read_retry s (nbytes - length (concat cs)) = (r, s1)" by fastforce
    show ?thesis
    proof (cases r)
      case (Inl e)
      with 1(2-4) True rd show ?thesis by (auto simp: unf intro!: exI [of _ cs])
    next
      case (Inr bs)
      note step = rd [unfolded Inr]
      consider "bs = []" | "bs \<noteq> []" "needle_found needle (concat cs @ bs)"
        | "bs \<noteq> []" "\<not> needle_found needle (concat cs @ bs)" by blast
      then show ?thesis
      proof cases
        case 1
        with \<open>reads nbytes s\<^sub>0 cs s\<close> \<open>unseen_before_last needle cs\<close> True step
          \<open>\<not> (needle \<noteq> [] \<and> sublist needle (concat cs))\<close> show ?thesis
          by (intro exI [of _ cs]) (auto simp: unf stopped_by_def)
      next
        case 2
        with reads.more [OF 1(2) step] 1(3,4) True step show ?thesis
          by (intro exI [of _ "cs @ [bs]"])
            (auto simp: unf stopped_by_def unseen_snoc needle_found_sublist)
      next
        case 3
        have "length (concat (cs @ [bs])) \<le> nbytes" using read_retry_Inr [OF step] True by auto
        with 1(1) [OF True rd [symmetric] Inr 3, of "cs @ [bs]"] reads.more [OF 1(2) step 3(1)] 1(3,4) 3(2)
        obtain cs' where "unseen_before_last needle cs'"
          "case read_until_from s1 (concat cs @ bs) nbytes needle of
             (Inr n, buf, s') \<Rightarrow> buf = concat cs' \<and> stopped_by nbytes needle s\<^sub>0 cs' s'
           | (Inl e, buf, s') \<Rightarrow> buf = concat cs' \<and> \<not> (needle \<noteq> [] \<and> sublist needle buf)
               \<and> (\<exists>s\<^sub>1. reads nbytes s\<^sub>0 cs' s\<^sub>1 \<and> read_retry s\<^sub>1 (nbytes - length buf) = (Inl e, s'))"
          by (auto simp: unseen_snoc needle_found_sublist)
        with True step 3 show ?thesis by (intro exI [of _ cs']) (simp add: unf)
      qed
    qed
  qed
qed

text \<open>
  C22: \<open>read_until\<close> fills the buffer by successive reads, losing nothing, and stops at the first read
  after which the needle is in the buffer: after no earlier read was it there. Without the needle
  it goes on until the buffer is full or a read reports the end of the input. A failed read is
  reported with what was read before it, which does not hold the needle and does not fill the buffer.
\<close>

theorem read_until_correct:
  "\<exists>cs. unseen_before_last needle cs \<and> (case read_until s nbytes needle of
     (Inr n, buf, s') \<Rightarrow> buf = concat cs \<and> stopped_by nbytes needle s cs s'
       \<and> n = length buf \<and> n \<le> nbytes \<and> idata s = buf @ idata s'
       \<and> (n = nbytes \<or> idata s' = [] \<or> (needle \<noteq> [] \<and> sublist needle buf))
   | (Inl e, buf, s') \<Rightarrow> buf = concat cs \<and> \<not> (needle \<noteq> [] \<and> sublist needle buf)
       \<and> (\<exists>s\<^sub>1. reads nbytes s cs s\<^sub>1 \<and> read_retry s\<^sub>1 (nbytes - length buf) = (Inl e, s'))
       \<and> e \<noteq> EINTR \<and> e \<in> hard_faults (isched s)
       \<and> idata s = buf @ idata s' \<and> length buf < nbytes)"
proof -
  have "needle \<noteq> [] \<Longrightarrow> \<not> sublist needle []" by simp
  with read_until_from_reads [OF reads.none, of needle nbytes s] obtain cs where
    cs: "unseen_before_last needle cs" "case read_until s nbytes needle of
      (Inr n, buf, s') \<Rightarrow> buf = concat cs \<and> stopped_by nbytes needle s cs s'
    | (Inl e, buf, s') \<Rightarrow> buf = concat cs \<and> \<not> (needle \<noteq> [] \<and> sublist needle buf)
        \<and> (\<exists>s\<^sub>1. reads nbytes s cs s\<^sub>1 \<and> read_retry s\<^sub>1 (nbytes - length buf) = (Inl e, s'))"
    by (auto simp: read_until_def unseen_before_last_def)
  show ?thesis
  proof (cases "read_until s nbytes needle")
    case (fields r buf s')
    then show ?thesis using cs read_until_Inr [of s nbytes needle _ buf s']
      read_until_Inl [of s nbytes needle _ buf s'] by (cases r) (auto intro!: exI [of _ cs])
  qed
qed

end
