(* ===== verification/Req_Resp.thy ===== *)
theory Req_Resp
  imports Http_Prelude
begin

text \<open>
  The method table of \<open>src/request.c\<close> and the status table of \<open>src/response.c\<close>. The C code
  compares \<open>Request_t\<close> and \<open>Response_t\<close> values by the address of the table entry; each table is
  a datatype with one constructor per entry, so that equality is identity of the entry.
\<close>

section \<open>Requests\<close>

datatype Request = REQUEST_GET | REQUEST_PUT | REQUEST_UNSUPPORTED

definition requests :: "Request list" where
  "requests = [REQUEST_GET, REQUEST_PUT, REQUEST_UNSUPPORTED]"

fun request_get_str :: "Request \<Rightarrow> bytes" where
  "request_get_str REQUEST_GET = ''GET''"
| "request_get_str REQUEST_PUT = ''PUT''"
| "request_get_str REQUEST_UNSUPPORTED = ''UNSUPPORTED''"

section \<open>Responses\<close>

datatype Response =
    RESPONSE_OK | RESPONSE_CREATED | RESPONSE_BAD_REQUEST | RESPONSE_FORBIDDEN
  | RESPONSE_NOT_FOUND | RESPONSE_INTERNAL_SERVER_ERROR | RESPONSE_NOT_IMPLEMENTED
  | RESPONSE_VERSION_NOT_SUPPORTED

fun response_get_code :: "Response \<Rightarrow> 16 word" where
  "response_get_code RESPONSE_OK = 200"
| "response_get_code RESPONSE_CREATED = 201"
| "response_get_code RESPONSE_BAD_REQUEST = 400"
| "response_get_code RESPONSE_FORBIDDEN = 403"
| "response_get_code RESPONSE_NOT_FOUND = 404"
| "response_get_code RESPONSE_INTERNAL_SERVER_ERROR = 500"
| "response_get_code RESPONSE_NOT_IMPLEMENTED = 501"
| "response_get_code RESPONSE_VERSION_NOT_SUPPORTED = 505"

fun response_get_message :: "Response \<Rightarrow> bytes" where
  "response_get_message RESPONSE_OK = ''OK''"
| "response_get_message RESPONSE_CREATED = ''Created''"
| "response_get_message RESPONSE_BAD_REQUEST = ''Bad Request''"
| "response_get_message RESPONSE_FORBIDDEN = ''Forbidden''"
| "response_get_message RESPONSE_NOT_FOUND = ''Not Found''"
| "response_get_message RESPONSE_INTERNAL_SERVER_ERROR = ''Internal Server Error''"
| "response_get_message RESPONSE_NOT_IMPLEMENTED = ''Not Implemented''"
| "response_get_message RESPONSE_VERSION_NOT_SUPPORTED = ''Version Not Supported''"

lemma request_get_str_inj: "request_get_str r = request_get_str r' \<Longrightarrow> r = r'"
  by (cases r; cases r') simp_all

lemma response_get_code_inj: "response_get_code r = response_get_code r' \<Longrightarrow> r = r'"
  by (cases r; cases r') simp_all

text \<open>The code printed with \<open>%d\<close>.\<close>

definition code_str :: "Response \<Rightarrow> bytes" where
  "code_str r = dec_of_nat (unat (response_get_code r))"

lemma code_str_simps:
  "code_str RESPONSE_OK = ''200''" "code_str RESPONSE_CREATED = ''201''"
  "code_str RESPONSE_BAD_REQUEST = ''400''" "code_str RESPONSE_FORBIDDEN = ''403''"
  "code_str RESPONSE_NOT_FOUND = ''404''" "code_str RESPONSE_INTERNAL_SERVER_ERROR = ''500''"
  "code_str RESPONSE_NOT_IMPLEMENTED = ''501''"
  "code_str RESPONSE_VERSION_NOT_SUPPORTED = ''505''"
  by code_simp+

end
