(* ===== verification/Posix_Regex.thy ===== *)
theory Posix_Regex
  imports Http_Prelude
begin

text \<open>
  \<open>regcomp\<close>/\<open>regexec\<close> for the fragment of extended regular expressions that the server compiles:
  a concatenation of bracket expressions with interval bounds, some of them groups, possibly
  anchored at the start. A way of matching is the list of the numbers of bytes the items take.
  \<open>regexec\<close> follows the POSIX rule: the leftmost match, among those the longest, and among those
  the one whose earlier items are longest.
\<close>

datatype item = Item bool "byte \<Rightarrow> bool" nat nat
  \<comment> \<open>is it a group, its character class, the least and the greatest number of repetitions\<close>

type_synonym ere = "item list"
type_synonym span = "nat \<times> nat" \<comment> \<open>\<open>rm_so\<close> and \<open>rm_eo\<close>\<close>

definition lit :: "bytes \<Rightarrow> ere" where
  "lit cs = map (\<lambda>c. Item False (\<lambda>x. x = c) 1 1) cs"

lemma lit_simps [simp]:
  "lit [] = []"
  "lit (c # cs) = Item False (\<lambda>x. x = c) 1 1 # lit cs"
  by (simp_all add: lit_def)

section \<open>Ways of matching\<close>

text \<open>The declarative reading: item \<open>i\<close> takes \<open>ks ! i\<close> bytes.\<close>

fun matches_as :: "ere \<Rightarrow> bytes \<Rightarrow> nat list \<Rightarrow> bool" where
  "matches_as [] s ks = (ks = [])"
| "matches_as (Item g cls lo hi # r) s ks =
     (case ks of
        [] \<Rightarrow> False
      | k # ks' \<Rightarrow> lo \<le> k \<and> k \<le> hi \<and> k \<le> length s \<and> list_all cls (take k s)
          \<and> matches_as r (drop k s) ks')"

text \<open>The numbers of repetitions an item may take, greatest first, where \<open>n\<close> bytes are of its class.\<close>

definition counts :: "nat \<Rightarrow> nat \<Rightarrow> nat \<Rightarrow> nat list" where
  "counts lo hi n = rev [lo..<Suc (min hi n)]"

lemma set_counts [simp]: "set (counts lo hi n) = {k. lo \<le> k \<and> k \<le> hi \<and> k \<le> n}"
  by (auto simp: counts_def simp del: upt_Suc)

lemma sorted_counts: "sorted_wrt (\<lambda>x y. y < x) (counts lo hi n)"
  by (simp add: counts_def sorted_wrt_rev del: upt_Suc)

text \<open>All ways, those with longer earlier items first.\<close>

fun ways :: "ere \<Rightarrow> bytes \<Rightarrow> nat list list" where
  "ways [] s = [[]]"
| "ways (Item g cls lo hi # r) s =
     concat (map (\<lambda>k. map ((#) k) (ways r (drop k s)))
       (counts lo hi (length (takeWhile cls s))))"

lemma le_takeWhile_iff:
  "k \<le> length (takeWhile P s) \<longleftrightarrow> k \<le> length s \<and> list_all P (take k s)"
proof (induction s arbitrary: k)
  case (Cons x s)
  then show ?case by (cases k) auto
qed simp

lemma set_ways: "set (ways r s) = {ks. matches_as r s ks}"
proof (induction r s rule: ways.induct)
  case (2 g cls lo hi r s)
  have "ks \<in> set (ways (Item g cls lo hi # r) s) \<longleftrightarrow> matches_as (Item g cls lo hi # r) s ks" for ks
    using 2 by (cases ks) (auto simp: le_takeWhile_iff)
  then show ?case by blast
qed simp

fun lex_gt :: "nat list \<Rightarrow> nat list \<Rightarrow> bool" where
  "lex_gt (a # as) (b # bs) = (b < a \<or> (a = b \<and> lex_gt as bs))"
| "lex_gt as bs = False"

lemma sorted_wrt_concat_map:
  assumes "\<And>x. x \<in> set xs \<Longrightarrow> sorted_wrt R (f x)"
    and "sorted_wrt (\<lambda>x y. \<forall>a \<in> set (f x). \<forall>b \<in> set (f y). R a b) xs"
  shows "sorted_wrt R (concat (map f xs))"
  using assms by (induction xs) (auto simp: sorted_wrt_append)

lemma ways_sorted: "sorted_wrt lex_gt (ways r s)"
proof (induction r s rule: ways.induct)
  case (2 g cls lo hi r s)
  have "sorted_wrt (\<lambda>x y. \<forall>a \<in> set (map ((#) x) (ways r (drop x s))).
      \<forall>b \<in> set (map ((#) y) (ways r (drop y s))). lex_gt a b)
      (counts lo hi (length (takeWhile cls s)))"
    by (rule sorted_wrt_mono_rel [OF _ sorted_counts]) auto
  then show ?case using 2 by (auto simp: sorted_wrt_map intro!: sorted_wrt_concat_map)
qed simp

section \<open>The chosen match\<close>

text \<open>The first of the longest ways.\<close>

definition best :: "ere \<Rightarrow> bytes \<Rightarrow> nat list option" where
  "best r s =
     (let ws = ways r s in find (\<lambda>w. list_all (\<lambda>v. sum_list v \<le> sum_list w) ws) ws)"

lemma ex_longest: "ws \<noteq> [] \<Longrightarrow> \<exists>w \<in> set ws. \<forall>v \<in> set ws. sum_list v \<le> (sum_list w :: nat)"
proof -
  assume "ws \<noteq> []"
  then have "Max (sum_list ` set ws) \<in> sum_list ` set ws" by simp
  then obtain w where "w \<in> set ws" "sum_list w = Max (sum_list ` set ws)" by auto
  then show ?thesis by (auto intro!: bexI [of _ w])
qed

lemma best_None_iff: "best r s = None \<longleftrightarrow> (\<nexists>ks. matches_as r s ks)"
proof (cases "ways r s = []")
  case True
  then show ?thesis using set_ways [of r s] by (auto simp: best_def)
next
  case False
  then obtain w where "w \<in> set (ways r s)" "\<forall>v \<in> set (ways r s). sum_list v \<le> sum_list w"
    using ex_longest by blast
  then show ?thesis by (auto simp: best_def Let_def find_None_iff list_all_iff set_ways)
qed

lemma best_SomeD:
  assumes "best r s = Some w"
  shows "matches_as r s w"
    and "matches_as r s v \<Longrightarrow> sum_list v \<le> sum_list w"
    and "matches_as r s v \<Longrightarrow> sum_list v = sum_list w \<Longrightarrow> v = w \<or> lex_gt w v"
proof -
  let ?ws = "ways r s"
  from assms obtain i where i: "i < length ?ws" "w = ?ws ! i"
    and max: "\<And>v. v \<in> set ?ws \<Longrightarrow> sum_list v \<le> sum_list w"
    and first: "\<And>j. j < i \<Longrightarrow> \<not> list_all (\<lambda>v. sum_list v \<le> sum_list (?ws ! j)) ?ws"
    by (auto simp: best_def Let_def find_Some_iff list_all_iff)
  show "matches_as r s w" using i set_ways [of r s] by (metis mem_Collect_eq nth_mem)
  show "sum_list v \<le> sum_list w" if "matches_as r s v" using that max by (simp add: set_ways)
  show "v = w \<or> lex_gt w v" if "matches_as r s v" "sum_list v = sum_list w"
  proof -
    from that(1) obtain j where j: "j < length ?ws" "v = ?ws ! j"
      using set_ways [of r s] by (metis in_set_conv_nth mem_Collect_eq)
    with that(2) max have "list_all (\<lambda>u. sum_list u \<le> sum_list (?ws ! j)) ?ws"
      by (auto simp: list_all_iff)
    with first have "i \<le> j" by (meson not_le)
    with i j ways_sorted [of r s] show ?thesis
      by (cases "i = j") (auto simp: sorted_wrt_iff_nth_less)
  qed
qed

lemma best_eq_single: "ways r s = [w] \<Longrightarrow> best r s = Some w"
  by (simp add: best_def)

text \<open>Starting positions are tried from the left; an anchored expression only at the start.\<close>

fun regexec_from :: "bool \<Rightarrow> ere \<Rightarrow> bytes \<Rightarrow> nat \<Rightarrow> (nat \<times> nat list) option" where
  "regexec_from anchored r s off =
     (case best r s of
        Some ks \<Rightarrow> Some (off, ks)
      | None \<Rightarrow>
          if anchored then None
          else (case s of [] \<Rightarrow> None | _ # s' \<Rightarrow> regexec_from anchored r s' (Suc off)))"

declare regexec_from.simps [simp del]

fun group_spans :: "ere \<Rightarrow> nat list \<Rightarrow> nat \<Rightarrow> span list" where
  "group_spans (Item g cls lo hi # r) (k # ks) off =
     (if g then [(off, off + k)] else []) @ group_spans r ks (off + k)"
| "group_spans _ _ _ = []"

text \<open>The \<open>pmatch\<close> array: the whole match, then the groups; \<open>None\<close> for \<open>REG_NOMATCH\<close>.\<close>

definition regexec :: "bool \<Rightarrow> ere \<Rightarrow> bytes \<Rightarrow> span list option" where
  "regexec anchored r s =
     map_option (\<lambda>(off, ks). (off, off + sum_list ks) # group_spans r ks off)
       (regexec_from anchored r s 0)"

section \<open>Bounds\<close>

definition min_len :: "ere \<Rightarrow> nat" where
  "min_len r = sum_list (map (\<lambda>i. case i of Item g cls lo hi \<Rightarrow> lo) r)"

lemma matches_as_bounds:
  "matches_as r s ks \<Longrightarrow> min_len r \<le> sum_list ks \<and> sum_list ks \<le> length s"
proof (induction r s ks rule: matches_as.induct)
  case (2 g cls lo hi r s ks)
  then show ?case by (cases ks) (force simp: min_len_def)+
qed (simp add: min_len_def)

lemma group_spans_bounds:
  "(so, eo) \<in> set (group_spans r ks off) \<Longrightarrow> off \<le> so \<and> so \<le> eo \<and> eo \<le> off + sum_list ks"
proof (induction r ks off rule: group_spans.induct)
  case (1 g cls lo hi r k ks off)
  then show ?case by (cases g) fastforce+
qed simp_all

text \<open>How many groups an expression has, and that \<open>pmatch\<close> holds one entry for each.\<close>

definition ngroups :: "ere \<Rightarrow> nat" where
  "ngroups r = length (filter (\<lambda>i. case i of Item g cls lo hi \<Rightarrow> g) r)"

lemma length_group_spans:
  "matches_as r s ks \<Longrightarrow> length (group_spans r ks off) = ngroups r"
proof (induction r s ks arbitrary: off rule: matches_as.induct)
  case (2 g cls lo hi r s ks)
  then show ?case by (cases ks) (auto simp: ngroups_def)
qed (simp add: ngroups_def)

lemma regexec_from_SomeD:
  "regexec_from a r s off = Some (i, ks) \<Longrightarrow>
     off \<le> i \<and> i - off \<le> length s \<and> best r (drop (i - off) s) = Some ks
     \<and> (\<forall>j < i - off. best r (drop j s) = None) \<and> (a \<longrightarrow> i = off)"
proof (induction a r s off rule: regexec_from.induct)
  case (1 a r s off)
  show ?case
  proof (cases "best r s")
    case (Some w)
    with 1(2) show ?thesis by (simp add: regexec_from.simps [of a r s off])
  next
    case None
    with 1(2) obtain c s' where a: "\<not> a" and s: "s = c # s'"
      and rec: "regexec_from a r s' (Suc off) = Some (i, ks)"
      by (auto simp: regexec_from.simps [of a r s off] split: if_splits list.splits)
    from 1(1) [OF None a s rec] None s a show ?thesis
      by (auto simp: Suc_le_eq less_Suc_eq_0_disj Suc_diff_Suc drop_Cons' nth_Cons'
          le_diff_conv split: nat.splits)
  qed
qed

text \<open>
  What a caller of \<open>regexec\<close> may rely on: the offsets lie inside the subject, the groups inside
  the match, and there are as many as the expression has.
\<close>

lemma regexec_SomeD:
  assumes "regexec a r s = Some ms"
  shows "\<exists>so eo gs. ms = (so, eo) # gs \<and> so + min_len r \<le> eo \<and> eo \<le> length s
      \<and> length gs = ngroups r \<and> (\<forall>(i, j) \<in> set gs. so \<le> i \<and> i \<le> j \<and> j \<le> eo)"
proof -
  from assms obtain i ks where rx: "regexec_from a r s 0 = Some (i, ks)"
    and ms: "ms = (i, i + sum_list ks) # group_spans r ks i"
    by (auto simp: regexec_def)
  from regexec_from_SomeD [OF rx] have "i \<le> length s" "matches_as r (drop i s) ks"
    by (auto dest: best_SomeD)
  with matches_as_bounds [of r "drop i s" ks] length_group_spans [of r "drop i s" ks i] ms
  show ?thesis by (auto dest: group_spans_bounds)
qed

section \<open>Deterministic concatenations\<close>

lemma best_unique: "(\<And>v. matches_as r s v \<longleftrightarrow> v = w) \<Longrightarrow> best r s = Some w"
  using best_None_iff [of r s] best_SomeD(1) [of r s] by (cases "best r s") auto

text \<open>An item followed by a byte outside its class takes the whole run of its class.\<close>

lemma matches_as_delim:
  assumes "\<not> cls c" and "list_all cls w"
  shows "matches_as (Item g cls lo hi # Item False (\<lambda>x. x = c) (Suc 0) (Suc 0) # r) (w @ c # s) ks
    \<longleftrightarrow> lo \<le> length w \<and> length w \<le> hi
      \<and> (\<exists>ks'. ks = length w # Suc 0 # ks' \<and> matches_as r s ks')"
    (is "?L \<longleftrightarrow> ?R")
proof
  assume ?L
  then obtain k j ks' where ks: "ks = k # j # ks'" and k: "lo \<le> k" "k \<le> hi"
    "k \<le> length (w @ c # s)" "list_all cls (take k (w @ c # s))"
    and j: "j = Suc 0" "list_all (\<lambda>x. x = c) (take j (drop k (w @ c # s)))"
      "j \<le> length (drop k (w @ c # s))"
    and rest: "matches_as r (drop j (drop k (w @ c # s))) ks'"
    by (auto split: list.splits)
  have "\<not> length w < k" using k(4) assms(1)
    by (auto simp: take_Cons' split: if_splits)
  moreover have "\<not> k < length w"
  proof
    assume lt: "k < length w"
    then have "drop k (w @ c # s) = w ! k # drop (Suc k) (w @ c # s)"
      by (simp add: Cons_nth_drop_Suc [symmetric] nth_append)
    with j have "w ! k = c" by (simp del: drop_append)
    with lt assms show False by (auto simp: list_all_length)
  qed
  ultimately have "k = length w" by simp
  with ks k j rest show ?R by simp
next
  assume ?R
  with assms show ?L by (auto split: list.splits)
qed

lemma matches_as_one:
  "matches_as (Item g cls (Suc 0) (Suc 0) # r) (d # s) ks \<longleftrightarrow>
     cls d \<and> (\<exists>ks'. ks = Suc 0 # ks' \<and> matches_as r s ks')"
  by (cases ks) (auto dest!: le_antisym)

lemma matches_as_run1:
  assumes "cls c" and "\<not> cls d" and "Suc 0 \<le> hi"
  shows "matches_as (Item g cls (Suc 0) hi # r) (c # d # s) ks \<longleftrightarrow>
    (\<exists>ks'. ks = Suc 0 # ks' \<and> matches_as r (d # s) ks')"
proof (cases ks)
  case (Cons k ks')
  have "k = Suc 0" if "Suc 0 \<le> k" "list_all cls (take k (c # d # s))"
    using that assms by (cases k; cases "k - 1") auto
  with assms Cons show ?thesis by auto
qed simp

lemma matches_as_lit:
  "matches_as (lit cs @ r) (cs @ s) ks \<longleftrightarrow>
     (\<exists>ks'. ks = replicate (length cs) (Suc 0) @ ks' \<and> matches_as r s ks')"
  by (induction cs arbitrary: ks) (auto simp: matches_as_one simp del: matches_as.simps(2))

text \<open>Taking a match apart.\<close>

lemma matches_as_ItemE:
  assumes "matches_as (Item g cls lo hi # r) s ks"
  obtains k ks' where "ks = k # ks'" "lo \<le> k" "k \<le> hi" "k \<le> length s" "list_all cls (take k s)"
    "matches_as r (drop k s) ks'"
  using assms by (auto split: list.splits)

lemma matches_as_litE:
  assumes "matches_as (lit cs @ r) s ks"
  obtains ks' where "ks = replicate (length cs) 1 @ ks'" "s = cs @ drop (length cs) s"
    "matches_as r (drop (length cs) s) ks'"
  using assms
proof (induction cs arbitrary: s ks thesis)
  case (Cons c cs)
  from Cons.prems(2) have "matches_as (Item False (\<lambda>x. x = c) 1 1 # lit cs @ r) s ks" by simp
  then obtain ks1 where "ks = 1 # ks1" "1 \<le> length s" "list_all (\<lambda>x. x = c) (take 1 s)"
    "matches_as (lit cs @ r) (drop 1 s) ks1"
    by (rule matches_as_ItemE) (metis le_antisym)
  moreover from this obtain s' where "s = c # s'" by (cases s) auto
  ultimately show ?case using Cons.IH [where s = s' and ks = ks1] Cons.prems(1) by auto
qed auto

text \<open>A match of a part of the subject is a match of the whole subject.\<close>

lemma matches_as_append: "matches_as r s ks \<Longrightarrow> matches_as r (s @ t) ks"
proof (induction r s ks rule: matches_as.induct)
  case (2 g cls lo hi r s ks)
  then show ?case by (cases ks) auto
qed simp

lemma regexec_None_iff:
  "regexec False r s = None \<longleftrightarrow> (\<forall>i \<le> length s. \<nexists>ks. matches_as r (drop i s) ks)"
proof -
  have "regexec_from False r s off = None \<longleftrightarrow> (\<forall>i \<le> length s. best r (drop i s) = None)" for off
  proof (induction s arbitrary: off)
    case (Cons c s)
    have "(\<forall>i \<le> length (c # s). best r (drop i (c # s)) = None) \<longleftrightarrow>
        best r (c # s) = None \<and> (\<forall>i \<le> length s. best r (drop i s) = None)"
      by (auto simp: All_less_Suc2 simp flip: less_Suc_eq_le)
    with Cons show ?case by (auto simp: regexec_from.simps split: option.splits)
  qed (auto simp: regexec_from.simps split: option.splits)
  then show ?thesis by (simp add: regexec_def best_None_iff)
qed

lemma regexec_prefix_None:
  assumes "regexec False r (s @ t) = None"
  shows "regexec False r s = None"
proof -
  have "\<not> matches_as r (drop i s) ks" if "i \<le> length s" for i ks
  proof -
    from assms have "\<forall>i \<le> length (s @ t). \<nexists>ks. matches_as r (drop i (s @ t)) ks"
      unfolding regexec_None_iff .
    moreover from that have "i \<le> length (s @ t)" by simp
    ultimately have "\<not> matches_as r (drop i (s @ t)) ks" by blast
    with that matches_as_append [of r "drop i s" ks t] show ?thesis by auto
  qed
  then show ?thesis by (auto simp: regexec_None_iff)
qed

text \<open>A match at the very start is the leftmost one.\<close>

lemma regexec_at_start:
  "best r s = Some ks \<Longrightarrow> regexec a r s = Some ((0, sum_list ks) # group_spans r ks 0)"
  by (simp add: regexec_def regexec_from.simps)

end
