(* ===== verification/Connection.thy ===== *)
theory Connection
  imports Util_IO Req_Resp Posix_Regex
begin

text \<open>
  The connection object of \<open>src/connection.c\<close>: reading and parsing one request, receiving a body
  into a file, sending a file or a canned response. The socket behind \<open>connfd\<close> is a pair of
  streams of \<^verbatim>\<open>Sysio\<close>: what the client sends and what it is sent. The \<open>buffer\<close> field holds the
  bytes that \<open>read_until\<close> stored; the rest of the zeroed array reads as NUL.
\<close>

section \<open>Patterns\<close>

definition CONN_BUFFER_SIZE :: nat where
  "CONN_BUFFER_SIZE = 4096"

definition in_range :: "byte \<Rightarrow> byte \<Rightarrow> byte \<Rightarrow> bool" where
  "in_range lo hi c \<longleftrightarrow> (of_char lo :: nat) \<le> of_char c \<and> of_char c \<le> (of_char hi :: nat)"

definition is_alpha :: "byte \<Rightarrow> bool" where
  "is_alpha c \<longleftrightarrow> in_range (CHR ''a'') (CHR ''z'') c \<or> in_range (CHR ''A'') (CHR ''Z'') c"

definition is_uri_char :: "byte \<Rightarrow> bool" where
  "is_uri_char c \<longleftrightarrow> is_alpha c \<or> is_digit c \<or> c \<in> set ''/_.-''"

definition is_key_char :: "byte \<Rightarrow> bool" where
  "is_key_char c \<longleftrightarrow> is_alpha c \<or> is_digit c \<or> c \<in> set ''.-''"

definition is_value_char :: "byte \<Rightarrow> bool" where
  "is_value_char c \<longleftrightarrow> is_alpha c \<or> is_digit c \<or> c \<in> set ''.:/*-''"

text \<open>\<open>[[:space:]]\<close> and \<open>isspace\<close> in the C locale.\<close>

definition is_space :: "byte \<Rightarrow> bool" where
  "is_space c \<longleftrightarrow> c \<in> {CHR '' '', CHR 0x09, CHR 0x0A, CHR 0x0B, CHR 0x0C, CHR 0x0D}"

definition REQUEST_LINE :: ere where
  "REQUEST_LINE =
     Item True is_alpha 1 8 # lit '' /'' @ Item True is_uri_char 1 63 # lit '' HTTP/'' @
     Item True is_digit 1 2 # Item False (\<lambda>_. True) 1 1 # Item True is_digit 1 2 # lit crlf"

definition HEADER_FIELD :: ere where
  "HEADER_FIELD =
     Item True is_key_char 1 128 # lit '':'' @ Item False is_space 1 1 #
     Item True is_value_char 1 128 # lit crlf"

lemma min_len_patterns [simp]: "min_len REQUEST_LINE = 15" "min_len HEADER_FIELD = 6"
  by (simp_all add: REQUEST_LINE_def HEADER_FIELD_def min_len_def)

lemma ngroups_patterns [simp]: "ngroups REQUEST_LINE = 4" "ngroups HEADER_FIELD = 2"
  by (simp_all add: REQUEST_LINE_def HEADER_FIELD_def ngroups_def)

section \<open>The connection object\<close>

record conn =
  sock_in :: istream
  sock_out :: ostream
  buffer :: bytes
  bytes_read :: int
  message_start :: int
  in_message :: int
  content_length :: int
  content_length_str :: bytes
  uri :: bytes
  request_id :: bytes
  request :: Request

text \<open>\<open>conn_new\<close>; the flag says whether \<open>calloc\<close> succeeds.\<close>

definition conn_new :: "bool \<Rightarrow> istream \<Rightarrow> ostream \<Rightarrow> conn option" where
  "conn_new alloc_ok sin sout =
     (if \<not> alloc_ok then None
      else Some \<lparr>sock_in = sin, sock_out = sout, buffer = [], bytes_read = 0, message_start = 0,
        in_message = 0, content_length = 0, content_length_str = [], uri = [],
        request_id = ''0'', request = REQUEST_UNSUPPORTED\<rparr>)"

text \<open>\<open>conn_delete\<close> frees the object and clears the caller's pointer; a NULL pointer stays NULL.\<close>

definition conn_delete :: "conn option \<Rightarrow> conn option" where
  "conn_delete c = (case c of None \<Rightarrow> None | Some _ \<Rightarrow> None)"

definition conn_is_empty :: "conn \<Rightarrow> bool" where
  "conn_is_empty c \<longleftrightarrow> bytes_read c = 0"

definition conn_get_request :: "conn \<Rightarrow> Request" where
  "conn_get_request c = request c"

definition conn_get_uri :: "conn \<Rightarrow> bytes" where
  "conn_get_uri c = uri c"

text \<open>\<open>conn_get_header\<close> formats the length into the object's scratch field and returns it.\<close>

definition conn_get_header :: "conn \<Rightarrow> bytes \<Rightarrow> bytes option \<times> conn" where
  "conn_get_header c header =
     (if header = ''Content-Length''
      then let s = take 31 (dec_of_int (content_length c))
           in (Some s, c\<lparr>content_length_str := s\<rparr>)
      else if header = ''Request-Id'' then (Some (request_id c), c)
      else (None, c))"

definition conn_str :: "conn \<Rightarrow> bytes" where
  "conn_str c = uri c"

section \<open>Parsing\<close>

text \<open>\<open>buf[i..j)\<close>, what \<open>memcpy\<close> takes out of a buffer.\<close>

definition slice :: "bytes \<Rightarrow> nat \<Rightarrow> nat \<Rightarrow> bytes" where
  "slice buf i j = take (j - i) (drop i buf)"

text \<open>\<open>strtoull(s, NULL, 10)\<close>: leading blanks, an optional sign, digits; saturating, and negated
  modulo 2^64 when the sign is a minus.\<close>

definition strtoull10 :: "bytes \<Rightarrow> 64 word" where
  "strtoull10 s =
     (let t = dropWhile is_space s;
          neg = (t \<noteq> [] \<and> hd t = CHR ''-'');
          u = (if t \<noteq> [] \<and> (hd t = CHR ''-'' \<or> hd t = CHR ''+'') then tl t else t);
          v = dec_val (takeWhile is_digit u)
      in if 2 ^ 64 \<le> v then - 1 else if neg then - of_nat v else of_nat v)"

text \<open>What one matched header line does to the object.\<close>

definition apply_header :: "bytes \<Rightarrow> bytes \<Rightarrow> conn \<Rightarrow> conn" where
  "apply_header key val c =
     (if key = ''Content-Length'' then c\<lparr>content_length := sint (strtoull10 val)\<rparr>
      else if key = ''Request-Id'' then c\<lparr>request_id := take 128 val\<rparr>
      else c)"

text \<open>The header loop. \<open>hs\<close> is the C string at \<open>headers\<close>; the search starts at \<open>off\<close> and is
  not anchored there.\<close>

function parse_headers_loop :: "bytes \<Rightarrow> nat \<Rightarrow> conn \<Rightarrow> nat \<times> conn" where
  "parse_headers_loop hs off c =
     (case regexec False HEADER_FIELD (drop off hs) of
        Some ((so, eo) # (kso, keo) # (vso, veo) # _) \<Rightarrow>
          parse_headers_loop hs (off + eo)
            (apply_header (slice (drop off hs) kso keo) (slice (drop off hs) vso veo) c)
      | _ \<Rightarrow> (off, c))"
  by pat_completeness auto
termination
  by (relation "measure (\<lambda>(hs, off, c). length hs - off)") (auto dest!: regexec_SomeD)

declare parse_headers_loop.simps [simp del]

text \<open>\<open>parse_headers\<close>; the flag says whether \<open>regcomp\<close> succeeds.\<close>

definition parse_headers :: "bool \<Rightarrow> conn \<Rightarrow> Response option \<times> conn" where
  "parse_headers re_ok c =
     (if \<not> re_ok then (Some RESPONSE_INTERNAL_SERVER_ERROR, c)
      else let (off, c') = parse_headers_loop (cstr (buffer c) (nat (message_start c))) 0 c
           in (None, c'\<lparr>message_start := message_start c' + int off + 2\<rparr>))"

definition validate_uri :: "conn \<Rightarrow> Response option" where
  "validate_uri c = (if uri c = [] then Some RESPONSE_BAD_REQUEST else None)"

text \<open>The method test of \<open>process_request\<close>: \<open>strncmp\<close> on the first three bytes.\<close>

definition method_of :: "bytes \<Rightarrow> Request" where
  "method_of s =
     (if take 3 s = ''GET'' then REQUEST_GET
      else if take 3 s = ''PUT'' then REQUEST_PUT
      else REQUEST_UNSUPPORTED)"

definition process_request :: "bool \<Rightarrow> bool \<Rightarrow> conn \<Rightarrow> Response option \<times> conn" where
  "process_request rl_ok hf_ok c =
     (if \<not> rl_ok then (Some RESPONSE_INTERNAL_SERVER_ERROR, c)
      else case regexec True REQUEST_LINE (cstr (buffer c) 0) of
        Some ((so0, eo0) # (so1, eo1) # (so2, eo2) # (so3, eo3) # (so4, eo4) # _) \<Rightarrow>
          let c1 = c\<lparr>request := method_of (drop so1 (buffer c))\<rparr>
          in if 64 \<le> eo2 - so2 then (Some RESPONSE_BAD_REQUEST, c1)
             else let c2 = c1\<lparr>uri := slice (buffer c) so2 eo2\<rparr>
             in if 1 < eo4 - so4 then (Some RESPONSE_BAD_REQUEST, c2)
                else if take 1 (drop so4 (buffer c)) \<noteq> ''1''
                then (Some RESPONSE_VERSION_NOT_SUPPORTED, c2)
                else let c3 = c2\<lparr>message_start := int eo4 + 2\<rparr>
                in (case validate_uri c3 of
                      Some res \<Rightarrow> (Some res, c3)
                    | None \<Rightarrow> parse_headers hf_ok c3)
      | _ \<Rightarrow> (Some RESPONSE_BAD_REQUEST, c))"

definition conn_parse :: "bool \<Rightarrow> bool \<Rightarrow> conn \<Rightarrow> Response option \<times> conn" where
  "conn_parse rl_ok hf_ok c =
     (case read_until (sock_in c) CONN_BUFFER_SIZE (crlf @ crlf) of
        (r, buf, sin) \<Rightarrow>
          let c1 = c\<lparr>buffer := buf, sock_in := sin,
                     bytes_read := (case r of Inl _ \<Rightarrow> - 1 | Inr n \<Rightarrow> int n)\<rparr>
          in case r of
               Inl e \<Rightarrow>
                 if e = EAGAIN \<or> e = EWOULDBLOCK then (Some RESPONSE_INTERNAL_SERVER_ERROR, c1)
                 else (Some RESPONSE_BAD_REQUEST, c1)
             | Inr n \<Rightarrow>
                 if n = 0 then (Some RESPONSE_BAD_REQUEST, c1)
                 else case process_request rl_ok hf_ok c1 of
                   (Some res, c2) \<Rightarrow> (Some res, c2)
                 | (None, c2) \<Rightarrow>
                     (None, c2\<lparr>in_message := bytes_read c2 - message_start c2\<rparr>))"

section \<open>Transfers\<close>

text \<open>\<open>conn_recv_file\<close>: the buffered part of the body, then the rest of the declared length. The
  subtraction is on 64-bit \<open>ssize_t\<close> values; where it overflows, C leaves the behaviour undefined,
  and nothing is known of the result.\<close>

definition in_ssize :: "int \<Rightarrow> bool" where
  "in_ssize n \<longleftrightarrow> - (2 ^ 63) \<le> n \<and> n < 2 ^ 63"

definition ssize_sub :: "int \<Rightarrow> int \<Rightarrow> int" where
  "ssize_sub a b = (if in_ssize (a - b) then a - b else undefined)"

definition conn_recv_file :: "conn \<Rightarrow> ostream \<Rightarrow> Response option \<times> conn \<times> ostream" where
  "conn_recv_file c fd =
     (let (r, fd1) =
        (if 0 < in_message c
         then write_all fd (slice (buffer c) (nat (message_start c))
                (nat (message_start c + in_message c)))
         else (Inr 0, fd))
      in case r of
           Inl _ \<Rightarrow> (Some RESPONSE_INTERNAL_SERVER_ERROR, c, fd1)
         | Inr total_written \<Rightarrow>
             let remaining = ssize_sub (content_length c) (int total_written)
             in if 0 < remaining
                then (case pass_bytes (sock_in c) fd1 (nat remaining) of
                        (Inl _, sin, fd2) \<Rightarrow>
                          (Some RESPONSE_INTERNAL_SERVER_ERROR, c\<lparr>sock_in := sin\<rparr>, fd2)
                      | (Inr _, sin, fd2) \<Rightarrow> (None, c\<lparr>sock_in := sin\<rparr>, fd2))
                else (None, c, fd1))"

definition file_header :: "nat \<Rightarrow> bytes" where
  "file_header count =
     ''HTTP/1.1 '' @ code_str RESPONSE_OK @ '' '' @ response_get_message RESPONSE_OK @ crlf
     @ ''Content-Length: '' @ dec_of_nat count @ crlf @ crlf"

definition conn_send_file :: "conn \<Rightarrow> istream \<Rightarrow> 64 word \<Rightarrow> Response option \<times> conn \<times> istream" where
  "conn_send_file c fd count =
     (case write_all (sock_out c) (take (CONN_BUFFER_SIZE - 1) (file_header (unat count))) of
        (Inl _, sout) \<Rightarrow> (Some RESPONSE_INTERNAL_SERVER_ERROR, c\<lparr>sock_out := sout\<rparr>, fd)
      | (Inr _, sout) \<Rightarrow>
          if 0 < count
          then (case pass_bytes fd sout (unat count) of
                  (Inl _, fd', sout') \<Rightarrow>
                    (Some RESPONSE_INTERNAL_SERVER_ERROR, c\<lparr>sock_out := sout'\<rparr>, fd')
                | (Inr _, fd', sout') \<Rightarrow> (None, c\<lparr>sock_out := sout'\<rparr>, fd'))
          else (None, c\<lparr>sock_out := sout\<rparr>, fd))"

definition response_bytes :: "Response \<Rightarrow> bytes" where
  "response_bytes res =
     (let msg = response_get_message res; body = take (CONN_BUFFER_SIZE - 1) (msg @ [LF])
      in ''HTTP/1.1 '' @ code_str res @ '' '' @ msg @ crlf
         @ ''Content-Length: '' @ dec_of_nat (length (msg @ [LF])) @ crlf @ crlf @ body)"

definition conn_send_response :: "conn \<Rightarrow> Response \<Rightarrow> Response option \<times> conn" where
  "conn_send_response c res =
     (case write_all (sock_out c) (take (CONN_BUFFER_SIZE - 1) (response_bytes res)) of
        (Inl _, sout) \<Rightarrow> (Some RESPONSE_INTERNAL_SERVER_ERROR, c\<lparr>sock_out := sout\<rparr>)
      | (Inr _, sout) \<Rightarrow> (None, c\<lparr>sock_out := sout\<rparr>))"

end
