(* ===== verification/Bounded_Queue.thy ===== *)
theory Bounded_Queue
  imports Sysio
begin

text \<open>
  The bounded queue of \<open>src/queue.c\<close>: a ring buffer guarded by three semaphores. This theory holds
  the data structure and its operations as one thread runs them; blocking and \<open>abort\<close> are results.
  The interleaving of many threads inside the operations is in \<^verbatim>\<open>Queue_Concurrent\<close>.
\<close>

section \<open>Outcomes and semaphores\<close>

text \<open>A call returns, blocks on a semaphore for ever (as far as its own thread can tell), or ends
  the process.\<close>

datatype 'a run = Ret 'a | Block | Abort

fun run_bind :: "'a run \<Rightarrow> ('a \<Rightarrow> 'b run) \<Rightarrow> 'b run" where
  "run_bind (Ret x) f = f x"
| "run_bind Block f = Block"
| "run_bind Abort f = Abort"

definition INT_MAX :: int where
  "INT_MAX = 2147483647"

definition SEM_VALUE_MAX :: nat where
  "SEM_VALUE_MAX = 2147483647"

text \<open>The list holds the failures of \<open>sem_wait\<close> before it gets through.\<close>

fun sem_wait_checked :: "errno list \<Rightarrow> nat \<Rightarrow> nat run" where
  "sem_wait_checked [] v = (if v = 0 then Block else Ret (v - 1))"
| "sem_wait_checked (e # es) v = (if e \<noteq> EINTR then Abort else sem_wait_checked es v)"

definition sem_post_checked :: "nat \<Rightarrow> nat run" where
  "sem_post_checked v = (if v < SEM_VALUE_MAX then Ret (v + 1) else Abort)"

section \<open>The queue\<close>

record 'a queue =
  q_size :: int
  q_count :: int
  q_buffer :: "'a list"
  q_head :: int
  q_tail :: int
  q_mutex :: nat
  q_empty :: nat
  q_full :: nat

definition set_fields :: "'a queue \<Rightarrow> int \<Rightarrow> 'a queue" where
  "set_fields q n = q\<lparr>q_size := n, q_count := 0, q_tail := 0, q_head := 0\<rparr>"

text \<open>
  \<open>queue_new\<close> with the number of live heap blocks threaded through. The arguments say whether the
  first \<open>malloc\<close> succeeds, what the second returns (a block with arbitrary contents, or NULL) and
  whether the three \<open>sem_init\<close> calls succeed.
\<close>

definition queue_new ::
  "bool \<Rightarrow> 'a list option \<Rightarrow> bool \<Rightarrow> bool \<Rightarrow> bool \<Rightarrow> int \<Rightarrow> nat \<Rightarrow> 'a queue option \<times> nat" where
  "queue_new alloc_ok block mutex_ok full_ok empty_ok n heap =
     (if \<not> alloc_ok then (None, heap)
      else case block of
        None \<Rightarrow> (None, (heap + 1) - 1)
      | Some b \<Rightarrow>
          let q = set_fields \<lparr>q_size = 0, q_count = 0, q_buffer = b, q_head = 0, q_tail = 0,
                    q_mutex = 0, q_empty = 0, q_full = 0\<rparr> n
          in if \<not> mutex_ok \<or> \<not> full_ok \<or> \<not> empty_ok then (None, (heap + 2) - 1 - 1)
             else (Some (q\<lparr>q_mutex := 1, q_full := nat n, q_empty := 0\<rparr>), heap + 2))"

text \<open>The two critical sections.\<close>

definition queue_put :: "'a \<Rightarrow> 'a queue \<Rightarrow> 'a queue" where
  "queue_put e q = q\<lparr>q_buffer := (q_buffer q)[nat (q_tail q) := e],
     q_tail := (q_tail q + 1) mod q_size q, q_count := q_count q + 1\<rparr>"

definition queue_take :: "'a queue \<Rightarrow> 'a \<times> 'a queue" where
  "queue_take q = (q_buffer q ! nat (q_head q),
     q\<lparr>q_head := (q_head q + 1) mod q_size q, q_count := q_count q - 1\<rparr>)"

definition queue_push ::
  "errno list \<Rightarrow> errno list \<Rightarrow> 'a queue option \<Rightarrow> 'a \<Rightarrow> (bool \<times> 'a queue option) run" where
  "queue_push es1 es2 p elem =
     (case p of
        None \<Rightarrow> Ret (False, None)
      | Some q \<Rightarrow>
          run_bind (sem_wait_checked es1 (q_full q)) (\<lambda>f.
          run_bind (sem_wait_checked es2 (q_mutex q)) (\<lambda>m.
          let q1 = queue_put elem (q\<lparr>q_full := f, q_mutex := m\<rparr>)
          in run_bind (sem_post_checked (q_mutex q1)) (\<lambda>m'.
             run_bind (sem_post_checked (q_empty q1)) (\<lambda>e'.
             Ret (True, Some (q1\<lparr>q_mutex := m', q_empty := e'\<rparr>)))))))"

text \<open>\<open>queue_pop\<close>; the flag says whether the caller's \<open>elem\<close> is a non-NULL pointer. The element is
  what \<open>*elem\<close> is set to, if it is.\<close>

definition queue_pop ::
  "errno list \<Rightarrow> errno list \<Rightarrow> 'a queue option \<Rightarrow> bool \<Rightarrow> (bool \<times> 'a option \<times> 'a queue option) run"
  where
  "queue_pop es1 es2 p elem_ok =
     (case p of
        None \<Rightarrow> Ret (False, None, None)
      | Some q \<Rightarrow>
          if \<not> elem_ok then Ret (False, None, Some q)
          else
          run_bind (sem_wait_checked es1 (q_empty q)) (\<lambda>e.
          run_bind (sem_wait_checked es2 (q_mutex q)) (\<lambda>m.
          let (x, q1) = queue_take (q\<lparr>q_empty := e, q_mutex := m\<rparr>)
          in run_bind (sem_post_checked (q_mutex q1)) (\<lambda>m'.
             run_bind (sem_post_checked (q_full q1)) (\<lambda>f'.
             Ret (True, Some x, Some (q1\<lparr>q_mutex := m', q_full := f'\<rparr>)))))))"

text \<open>\<open>queue_delete\<close> on a caller's pointer, with the live heap blocks.\<close>

definition queue_delete :: "'a queue option \<Rightarrow> nat \<Rightarrow> 'a queue option \<times> nat" where
  "queue_delete p heap = (case p of None \<Rightarrow> (None, heap) | Some _ \<Rightarrow> (None, heap - 1 - 1))"

section \<open>Ring-buffer indices\<close>

lemma ring_index_inj:
  fixes h n :: int
  assumes "0 < n" and "(h + i) mod n = (h + j) mod n" and "\<bar>i - j\<bar> < n"
  shows "i = j"
proof -
  have "n dvd (i - j)" using assms(2) by (simp add: mod_eq_dvd_iff)
  with assms(1,3) show ?thesis by (metis abs_of_pos dvd_imp_le_int eq_iff_diff_eq_0 not_le)
qed

lemma ring_index_range:
  fixes h n :: int
  shows "0 < n \<Longrightarrow> 0 \<le> (h + i) mod n \<and> (h + i) mod n < n"
  by simp

lemma ring_index_neq:
  fixes h n :: int
  assumes "0 \<le> i" and "i < j" and "j < n"
  shows "nat ((h + i) mod n) \<noteq> nat ((h + j) mod n)"
proof -
  have n: "0 < n" using assms by linarith
  then have "(h + i) mod n \<noteq> (h + j) mod n"
    using ring_index_inj [of n h i j] assms by auto
  moreover have "0 \<le> (h + i) mod n" "0 \<le> (h + j) mod n" using n by simp_all
  ultimately show ?thesis by simp
qed

section \<open>The contract of a bounded FIFO\<close>

text \<open>
  What the pool relies on: an invariant, an abstraction to the list of waiting elements, the oldest
  first, and a capacity. The two operations answer \<open>None\<close> exactly when they would block.
\<close>

locale bounded_fifo =
  fixes inv :: "'q \<Rightarrow> bool"
    and items :: "'q \<Rightarrow> 'a list"
    and cap :: "'q \<Rightarrow> nat"
    and put :: "'a \<Rightarrow> 'q \<Rightarrow> 'q option"
    and get :: "'q \<Rightarrow> ('a \<times> 'q) option"
  assumes put_blocks: "inv q \<Longrightarrow> put x q = None \<longleftrightarrow> length (items q) = cap q"
    and put_law: "inv q \<Longrightarrow> put x q = Some q' \<Longrightarrow>
      inv q' \<and> items q' = items q @ [x] \<and> cap q' = cap q"
    and get_blocks: "inv q \<Longrightarrow> get q = None \<longleftrightarrow> items q = []"
    and get_law: "inv q \<Longrightarrow> get q = Some (x, q') \<Longrightarrow>
      inv q' \<and> items q = x # items q' \<and> cap q' = cap q"
    and bounded: "inv q \<Longrightarrow> length (items q) \<le> cap q"
begin

text \<open>A sequence of calls by one thread; \<open>Some x\<close> pushes, \<open>None\<close> pops. A call that would block ends
  the sequence.\<close>

fun run :: "'a option list \<Rightarrow> 'q \<Rightarrow> ('a list \<times> 'q) option" where
  "run [] q = Some ([], q)"
| "run (Some x # cs) q = (case put x q of None \<Rightarrow> None | Some q' \<Rightarrow> run cs q')"
| "run (None # cs) q =
     (case get q of None \<Rightarrow> None
      | Some (x, q') \<Rightarrow> (case run cs q' of None \<Rightarrow> None | Some (xs, q'') \<Rightarrow> Some (x # xs, q'')))"

lemma run_fifo:
  "inv q \<Longrightarrow> run cs q = Some (out, q') \<Longrightarrow>
     inv q' \<and> cap q' = cap q \<and> items q @ List.map_filter id cs = out @ items q'"
proof (induction cs arbitrary: q out)
  case Nil
  then show ?case by simp
next
  case (Cons c cs)
  show ?case
  proof (cases c)
    case None
    with Cons.prems obtain x q1 xs where g: "get q = Some (x, q1)"
      and r: "run cs q1 = Some (xs, q')" and out: "out = x # xs"
      by (auto split: option.splits)
    with get_law [OF Cons.prems(1) g] Cons.IH [of q1 xs] None show ?thesis
      by (simp add: map_filter_simps)
  next
    case (Some x)
    with Cons.prems obtain q1 where p: "put x q = Some q1" and r: "run cs q1 = Some (out, q')"
      by (auto split: option.splits)
    with put_law [OF Cons.prems(1) p] Cons.IH [of q1 out] Some show ?thesis
      by (simp add: map_filter_simps)
  qed
qed

lemma put_get_empty:
  assumes "inv q" and "items q = []" and "put x q = Some q'"
  shows "\<exists>q''. get q' = Some (x, q'') \<and> items q'' = []"
proof -
  have q': "inv q'" "items q' = [x]" using put_law assms by fastforce+
  then obtain y q'' where g: "get q' = Some (y, q'')" using get_blocks by fastforce
  with get_law [OF q'(1) g] q'(2) show ?thesis by simp
qed

end

section \<open>The ring buffer implements it\<close>

definition queue_items :: "'a queue \<Rightarrow> 'a list" where
  "queue_items q =
     map (\<lambda>i. q_buffer q ! nat ((q_head q + int i) mod q_size q)) [0..<nat (q_count q)]"

definition queue_wf :: "'a queue \<Rightarrow> bool" where
  "queue_wf q \<longleftrightarrow> 0 < q_size q \<and> q_size q \<le> INT_MAX \<and> length (q_buffer q) = nat (q_size q)
     \<and> 0 \<le> q_head q \<and> q_head q < q_size q \<and> 0 \<le> q_count q \<and> q_count q \<le> q_size q
     \<and> q_tail q = (q_head q + q_count q) mod q_size q
     \<and> q_mutex q = 1 \<and> q_empty q = nat (q_count q) \<and> q_full q = nat (q_size q - q_count q)"

definition queue_cap :: "'a queue \<Rightarrow> nat" where
  "queue_cap q = nat (q_size q)"

lemma queue_items_length: "0 \<le> q_count q \<Longrightarrow> length (queue_items q) = nat (q_count q)"
  by (simp add: queue_items_def)

lemma queue_items_sems [simp]:
  "queue_items (q\<lparr>q_mutex := m\<rparr>) = queue_items q"
  "queue_items (q\<lparr>q_empty := e\<rparr>) = queue_items q"
  "queue_items (q\<lparr>q_full := f\<rparr>) = queue_items q"
  by (simp_all add: queue_items_def)

lemma queue_put_items:
  assumes "0 < q_size q" and "length (q_buffer q) = nat (q_size q)"
    and "0 \<le> q_count q" and "q_count q < q_size q"
    and "q_tail q = (q_head q + q_count q) mod q_size q"
  shows "queue_items (queue_put e q) = queue_items q @ [e]"
proof -
  let ?n = "q_size q" and ?h = "q_head q" and ?c = "q_count q"
  have tail: "nat ((?h + ?c) mod ?n) < length (q_buffer q)" using assms by (simp add: nat_less_iff)
  have old: "(q_buffer q)[nat ((?h + ?c) mod ?n) := e] ! nat ((?h + int i) mod ?n)
      = q_buffer q ! nat ((?h + int i) mod ?n)" if "i < nat ?c" for i
    using ring_index_neq [of "int i" ?c ?n ?h] that assms by (simp add: zless_nat_eq_int_zless)
  have "nat (?c + 1) = Suc (nat ?c)" using assms(3) by simp
  then show ?thesis using tail old assms(3,5)
    by (simp add: queue_items_def queue_put_def)
qed

lemma queue_take_items:
  assumes "0 < q_size q" and "0 \<le> q_head q" and "q_head q < q_size q" and "0 < q_count q"
  shows "queue_items q = fst (queue_take q) # queue_items (snd (queue_take q))"
proof -
  have c: "nat (q_count q) = Suc (nat (q_count q - 1))" using assms(4) by simp
  have "(q_head q + int (Suc i)) mod q_size q = ((q_head q + 1) mod q_size q + int i) mod q_size q"
    for i by (simp add: mod_simps add.assoc)
  then show ?thesis using assms(2,3) unfolding queue_items_def queue_take_def c
    by (simp add: upt_conv_Cons map_Suc_upt [symmetric] del: upt_Suc)
qed

lemma sem_wait_retry: "set es \<subseteq> {EINTR} \<Longrightarrow> sem_wait_checked es v = sem_wait_checked [] v"
  by (induction es) auto

lemma queue_new_wf:
  assumes "0 < n" and "n \<le> INT_MAX" and "length b = nat n"
    and "queue_new True (Some b) True True True n heap = (Some q, heap')"
  shows "queue_wf q \<and> queue_items q = [] \<and> queue_cap q = nat n \<and> heap' = heap + 2"
  using assms by (auto simp: queue_new_def set_fields_def Let_def queue_wf_def queue_items_def
      queue_cap_def)

lemma queue_push_cases:
  assumes "queue_wf q" and "set es1 \<subseteq> {EINTR}" and "set es2 \<subseteq> {EINTR}"
  shows "if length (queue_items q) = queue_cap q then queue_push es1 es2 (Some q) x = Block
    else \<exists>q'. queue_push es1 es2 (Some q) x = Ret (True, Some q') \<and> queue_wf q'
           \<and> queue_items q' = queue_items q @ [x] \<and> queue_cap q' = queue_cap q"
proof (cases "q_count q = q_size q")
  case True
  with assms show ?thesis
    by (simp add: queue_wf_def queue_items_length queue_cap_def queue_push_def
        sem_wait_retry [of es1])
next
  case False
  let ?q1 = "queue_put x (q\<lparr>q_full := q_full q - 1, q_mutex := 0\<rparr>)"
  let ?q' = "?q1\<lparr>q_mutex := 1, q_empty := q_empty q + 1\<rparr>"
  have lt: "q_count q < q_size q" using False assms(1) by (simp add: queue_wf_def)
  have "queue_items ?q1 = queue_items q @ [x]"
    using assms(1) lt by (subst queue_put_items) (simp_all add: queue_wf_def)
  moreover have "q_full q \<noteq> 0" "q_empty q < SEM_VALUE_MAX" "0 < SEM_VALUE_MAX" "q_mutex q = 1"
    using assms(1) lt by (simp_all add: queue_wf_def SEM_VALUE_MAX_def INT_MAX_def nat_less_iff)
  then have "queue_push es1 es2 (Some q) x = Ret (True, Some ?q')"
    by (simp add: queue_push_def sem_wait_retry [OF assms(2)] sem_wait_retry [OF assms(3)]
        sem_post_checked_def Let_def queue_put_def)
  moreover have "queue_wf ?q'"
    using assms(1) lt
    by (simp add: queue_wf_def queue_put_def mod_simps add.assoc nat_add_distrib nat_diff_distrib)
  moreover have "length (queue_items q) \<noteq> queue_cap q" "queue_cap ?q' = queue_cap q"
    using assms(1) lt
    by (simp_all add: queue_wf_def queue_items_length queue_cap_def queue_put_def nat_eq_iff)
  ultimately show ?thesis by simp
qed

lemma queue_pop_cases:
  assumes "queue_wf q" and "set es1 \<subseteq> {EINTR}" and "set es2 \<subseteq> {EINTR}"
  shows "if queue_items q = [] then queue_pop es1 es2 (Some q) True = Block
    else \<exists>x q'. queue_pop es1 es2 (Some q) True = Ret (True, Some x, Some q') \<and> queue_wf q'
           \<and> queue_items q = x # queue_items q' \<and> queue_cap q' = queue_cap q"
proof (cases "q_count q = 0")
  case True
  with assms show ?thesis
    by (simp add: queue_wf_def queue_items_def queue_pop_def sem_wait_retry [of es1])
next
  case False
  let ?q0 = "q\<lparr>q_empty := q_empty q - 1, q_mutex := 0\<rparr>"
  let ?q1 = "snd (queue_take ?q0)"
  let ?q' = "?q1\<lparr>q_mutex := 1, q_full := q_full q + 1\<rparr>"
  have gt: "0 < q_count q" using False assms(1) by (simp add: queue_wf_def)
  have items: "queue_items q = fst (queue_take ?q0) # queue_items ?q1"
    using assms(1) gt queue_take_items [of ?q0] by (simp add: queue_wf_def)
  have "q_empty q \<noteq> 0" "q_full q < SEM_VALUE_MAX" "0 < SEM_VALUE_MAX" "q_mutex q = 1"
    using assms(1) gt by (simp_all add: queue_wf_def SEM_VALUE_MAX_def INT_MAX_def nat_less_iff)
  then have "queue_pop es1 es2 (Some q) True = Ret (True, Some (fst (queue_take ?q0)), Some ?q')"
    by (simp add: queue_pop_def sem_wait_retry [OF assms(2)] sem_wait_retry [OF assms(3)]
        sem_post_checked_def Let_def queue_take_def)
  moreover have "Suc (nat (q_size q - q_count q)) = nat (q_size q - (q_count q - 1))"
    using assms(1) unfolding queue_wf_def by linarith
  then have "queue_wf ?q'"
    using assms(1) gt by (simp add: queue_wf_def queue_take_def mod_simps nat_diff_distrib)
  moreover have "queue_items ?q' = queue_items ?q1" "queue_cap ?q' = queue_cap q"
    by (simp_all add: queue_cap_def queue_items_def queue_take_def)
  ultimately show ?thesis using items by simp
qed

text \<open>The operations as functions that answer \<open>None\<close> when the call does not return.\<close>

definition push_ret :: "'a \<Rightarrow> 'a queue \<Rightarrow> 'a queue option" where
  "push_ret x q = (case queue_push [] [] (Some q) x of Ret (_, q') \<Rightarrow> q' | _ \<Rightarrow> None)"

definition pop_ret :: "'a queue \<Rightarrow> ('a \<times> 'a queue) option" where
  "pop_ret q = (case queue_pop [] [] (Some q) True of
     Ret (_, Some x, Some q') \<Rightarrow> Some (x, q') | _ \<Rightarrow> None)"

lemma push_ret_None: "queue_wf q \<Longrightarrow> push_ret x q = None \<longleftrightarrow> length (queue_items q) = queue_cap q"
  using queue_push_cases [of q "[]" "[]" x] by (auto simp: push_ret_def split: if_splits)

lemma push_ret_Some:
  "queue_wf q \<Longrightarrow> push_ret x q = Some q' \<Longrightarrow>
     queue_wf q' \<and> queue_items q' = queue_items q @ [x] \<and> queue_cap q' = queue_cap q"
  using queue_push_cases [of q "[]" "[]" x] by (auto simp: push_ret_def split: if_splits)

lemma pop_ret_None: "queue_wf q \<Longrightarrow> pop_ret q = None \<longleftrightarrow> queue_items q = []"
  using queue_pop_cases [of q "[]" "[]"] by (auto simp: pop_ret_def split: if_splits)

lemma pop_ret_Some:
  "queue_wf q \<Longrightarrow> pop_ret q = Some (x, q') \<Longrightarrow>
     queue_wf q' \<and> queue_items q = x # queue_items q' \<and> queue_cap q' = queue_cap q"
  using queue_pop_cases [of q "[]" "[]"] by (auto simp: pop_ret_def split: if_splits)

lemma queue_items_bound: "queue_wf q \<Longrightarrow> length (queue_items q) \<le> queue_cap q"
  by (auto simp: queue_wf_def queue_items_def queue_cap_def)

interpretation ring: bounded_fifo queue_wf queue_items queue_cap push_ret pop_ret
  by unfold_locales
    (fact push_ret_None push_ret_Some pop_ret_None pop_ret_Some queue_items_bound)+

section \<open>Properties\<close>

text \<open>
  C30: the ring buffer is a bounded FIFO. On a well-formed queue, whatever signals interrupt the
  semaphore waits, \<open>queue_push\<close> blocks exactly when the queue is full and otherwise appends its
  element; \<open>queue_pop\<close> blocks exactly when the queue is empty and otherwise removes and returns the
  oldest element. Both keep the queue well formed (indices within the array, the count and the
  semaphores exact) and neither ever aborts. A NULL queue is refused.
\<close>

theorem queue_fifo:
  assumes "queue_wf q" and "set es1 \<subseteq> {EINTR}" and "set es2 \<subseteq> {EINTR}"
  shows "(case queue_push es1 es2 (Some q) x of
       Ret (ok, Some q') \<Rightarrow> ok \<and> queue_wf q' \<and> length (queue_items q) < queue_cap q
         \<and> queue_items q' = queue_items q @ [x] \<and> queue_cap q' = queue_cap q
     | Block \<Rightarrow> length (queue_items q) = queue_cap q
     | _ \<Rightarrow> False)
    \<and> (case queue_pop es1 es2 (Some q) True of
       Ret (ok, Some y, Some q') \<Rightarrow> ok \<and> queue_wf q' \<and> queue_items q = y # queue_items q'
         \<and> queue_cap q' = queue_cap q
     | Block \<Rightarrow> queue_items q = []
     | _ \<Rightarrow> False)
    \<and> queue_push es1 es2 None x = Ret (False, None)
    \<and> queue_pop es1 es2 None el = Ret (False, None, None)"
  using queue_push_cases [OF assms, of x] queue_pop_cases [OF assms] ring.bounded [OF assms(1)]
  by (auto simp: queue_push_def [of _ _ None] queue_pop_def [of _ _ None] split: if_splits)

definition sample_queue :: "int queue" where
  "sample_queue = the (fst (queue_new True (Some [0, 0]) True True True 2 0))"

theorem queue_fifo_witness:
  "\<exists>q'. queue_push [EINTR] [] (Some sample_queue) 7 = Ret (True, Some q') \<and> queue_items q' = [7]"
proof -
  have "queue_wf sample_queue"
    by (simp add: sample_queue_def queue_new_def set_fields_def queue_wf_def INT_MAX_def)
  from conjunct1 [OF queue_fifo [OF this, of "[EINTR]" "[]" 7]]
  show ?thesis
    by (auto simp: sample_queue_def queue_new_def set_fields_def queue_items_def queue_cap_def
        queue_push_def sem_post_checked_def queue_put_def SEM_VALUE_MAX_def)
qed

text \<open>
  \<open>queue_new\<close> and \<open>queue_delete\<close> neither leak nor free twice: when any allocation or
  semaphore initialisation fails, NULL is returned and no block stays allocated; otherwise the new
  queue is empty, has the requested capacity and owns two blocks, which \<open>queue_delete\<close> gives back
  while it clears the caller's pointer.
\<close>

lemma queue_new_delete:
  fixes n :: int and block :: "'a list option" and heap :: nat
  assumes "0 < n" and "n \<le> INT_MAX" and "\<forall>b. block = Some b \<longrightarrow> length b = nat n"
  shows "case queue_new a block m f e n heap of
      (None, heap') \<Rightarrow> heap' = heap \<and> (\<not> a \<or> block = None \<or> \<not> m \<or> \<not> f \<or> \<not> e)
    | (Some q, heap') \<Rightarrow> queue_wf q \<and> queue_items q = [] \<and> queue_cap q = nat n
        \<and> heap' = heap + 2 \<and> queue_delete (Some q) heap' = (None, heap)"
  using assms by (auto simp: queue_new_def set_fields_def Let_def queue_wf_def queue_items_def
      queue_cap_def queue_delete_def split: option.splits)

end
