(* ===== verification/Opt_Parse.thy ===== *)
theory Opt_Parse
  imports Connection Bounded_Queue
begin

text \<open>
  The command line of \<open>src/opt.c\<close>: \<open>strtol\<close> and \<open>getopt\<close> as the C library documents them, the
  number parser and the option loop.
\<close>

section \<open>Numbers\<close>

definition LONG_MAX :: int where
  "LONG_MAX = 2 ^ 63 - 1"

text \<open>\<open>strtol(s, &end, 10)\<close>: the value, whether \<open>errno\<close> is \<open>ERANGE\<close>, and the rest of the string at
  \<open>end\<close>. Without digits nothing is consumed.\<close>

definition strtol10 :: "bytes \<Rightarrow> int \<times> bool \<times> bytes" where
  "strtol10 s =
     (let t = dropWhile is_space s;
          neg = (t \<noteq> [] \<and> hd t = CHR ''-'');
          u = (if t \<noteq> [] \<and> (hd t = CHR ''-'' \<or> hd t = CHR ''+'') then tl t else t);
          ds = takeWhile is_digit u;
          v = (if neg then - int (dec_val ds) else int (dec_val ds))
      in if ds = [] then (0, False, s)
         else if v > LONG_MAX then (LONG_MAX, True, dropWhile is_digit u)
         else if v < - LONG_MAX - 1 then (- LONG_MAX - 1, True, dropWhile is_digit u)
         else (v, False, dropWhile is_digit u))"

text \<open>\<open>parse_positive\<close>; the argument is \<open>None\<close> for a NULL pointer.\<close>

definition parse_positive :: "bytes option \<Rightarrow> int" where
  "parse_positive s =
     (case s of
        None \<Rightarrow> - 1
      | Some str \<Rightarrow>
          if str = [] then - 1
          else case strtol10 str of
            (v, erange, end) \<Rightarrow>
              if erange \<or> end \<noteq> [] \<or> v \<le> 0 \<or> v > INT_MAX then - 1 else v)"

section \<open>Options\<close>

definition DEFAULT_THREAD_COUNT :: int where
  "DEFAULT_THREAD_COUNT = 3"

record OPT =
  n_threads :: int
  log_path :: "bytes option"
  port :: int

text \<open>
  The loop over \<open>getopt(argc, argv, "t:l:")\<close>. Both options take an argument: the rest of the word, or
  the next word when there is none left in this one. \<open>--\<close> ends the options. A word that is no option
  ends them too when \<open>posix\<close> holds; otherwise it is skipped and moved behind the options, as GNU
  \<open>getopt\<close> does. The result is \<open>None\<close> where the code prints the usage and returns -1, else the options
  and the words from \<open>optind\<close> on.
\<close>

function opt_loop :: "bool \<Rightarrow> bytes list \<Rightarrow> OPT \<Rightarrow> bytes list \<Rightarrow> (OPT \<times> bytes list) option" where
  "opt_loop posix skipped opts [] = Some (opts, skipped)"
| "opt_loop posix skipped opts (a # as) =
     (if a = ''--'' then Some (opts, skipped @ as)
      else if a = [] \<or> hd a \<noteq> CHR ''-'' \<or> a = ''-'' then
        (if posix then Some (opts, a # as) else opt_loop posix (skipped @ [a]) opts as)
      else
        (let optarg = (if drop 2 a \<noteq> [] then Some (drop 2 a, as)
                       else case as of [] \<Rightarrow> None | x # xs \<Rightarrow> Some (x, xs))
         in case optarg of
              None \<Rightarrow> None
            | Some (arg, rest) \<Rightarrow>
                if a ! 1 = CHR ''t'' then
                  (if parse_positive (Some arg) < 0 then None
                   else opt_loop posix skipped (opts\<lparr>n_threads := parse_positive (Some arg)\<rparr>) rest)
                else if a ! 1 = CHR ''l'' then
                  opt_loop posix skipped (opts\<lparr>log_path := Some arg\<rparr>) rest
                else None))"
  by pat_completeness auto
termination
  by (relation "measure (\<lambda>(_, _, _, as). length as)") (auto split: if_splits list.splits)

declare opt_loop.simps(2) [simp del]

text \<open>\<open>opt_parse\<close>; the first word is the program's name.\<close>

definition opt_parse :: "bool \<Rightarrow> bytes list \<Rightarrow> OPT option" where
  "opt_parse posix argv =
     (case opt_loop posix [] \<lparr>n_threads = DEFAULT_THREAD_COUNT, log_path = None, port = 0\<rparr>
             (drop 1 argv) of
        None \<Rightarrow> None
      | Some (opts, []) \<Rightarrow> None
      | Some (opts, p # _) \<Rightarrow>
          let n = parse_positive (Some p)
          in if n < 0 \<or> n > 65535 then None else Some (opts\<lparr>port := n\<rparr>))"

section \<open>What the number parser accepts\<close>

text \<open>A decimal numeral as \<open>strtol\<close> reads it without a minus sign.\<close>

definition numeral_text :: "bytes \<Rightarrow> nat \<Rightarrow> bool" where
  "numeral_text s n \<longleftrightarrow> (\<exists>blanks plus ds. s = blanks @ plus @ ds \<and> list_all is_space blanks
     \<and> (plus = [] \<or> plus = ''+'') \<and> ds \<noteq> [] \<and> list_all is_digit ds \<and> dec_val ds = n)"

lemma digit_not_space: "is_digit c \<Longrightarrow> \<not> is_space c \<and> c \<noteq> CHR ''+'' \<and> c \<noteq> CHR ''-''"
  by (auto simp: is_digit_def is_space_def)

lemma dropWhile_blanks:
  assumes "list_all P xs" and "ys = [] \<or> \<not> P (hd ys)"
  shows "dropWhile P (xs @ ys) = ys"
  using assms by (induction xs) (auto simp: dropWhile_eq_self_iff)

lemma strtol10_numeral:
  assumes "numeral_text s n"
  shows "strtol10 s = (if int n > LONG_MAX then (LONG_MAX, True, []) else (int n, False, []))"
proof -
  from assms obtain blanks plus ds where s: "s = blanks @ plus @ ds" and b: "list_all is_space blanks"
    and p: "plus = [] \<or> plus = ''+''" and ds: "ds \<noteq> []" "list_all is_digit ds" "dec_val ds = n"
    unfolding numeral_text_def by blast
  have hd: "is_digit (hd ds)" using ds by (cases ds) auto
  have "\<not> is_space (hd (plus @ ds))"
    using p digit_not_space [OF hd] by (auto simp: is_space_def)
  then have drop: "dropWhile is_space s = plus @ ds" unfolding s
    by (intro dropWhile_blanks [OF b]) simp
  have ne: "hd (plus @ ds) \<noteq> CHR ''-''" and u: "(if plus @ ds \<noteq> [] \<and> (hd (plus @ ds) = CHR ''-''
      \<or> hd (plus @ ds) = CHR ''+'') then tl (plus @ ds) else plus @ ds) = ds"
    using p digit_not_space [OF hd] by auto
  have digits: "takeWhile is_digit ds = ds" "dropWhile is_digit ds = []"
    using ds(2) by (simp_all add: takeWhile_eq_all_conv dropWhile_eq_Nil_conv list_all_iff)
  have "\<not> int n < - LONG_MAX - 1" by (simp add: LONG_MAX_def)
  then show ?thesis unfolding strtol10_def Let_def drop u digits using ds(1,3) ne by simp
qed

lemma strtol10_accepts:
  assumes "strtol10 s = (v, False, [])" and "0 < v"
  shows "numeral_text s (nat v)"
proof -
  let ?t = "dropWhile is_space s"
  have neg: "\<not> (?t \<noteq> [] \<and> hd ?t = CHR ''-'')"
  proof
    assume n: "?t \<noteq> [] \<and> hd ?t = CHR ''-''"
    have "\<not> 0 < fst (strtol10 s)"
      using n by (simp add: strtol10_def Let_def LONG_MAX_def)
    with assms show False by simp
  qed
  define plus where "plus = (if ?t \<noteq> [] \<and> hd ?t = CHR ''+'' then ''+'' else [])"
  define u where "u = (if ?t \<noteq> [] \<and> hd ?t = CHR ''+'' then tl ?t else ?t)"
  have t: "?t = plus @ u" by (cases ?t) (auto simp: plus_def u_def)
  have v: "v = int (dec_val (takeWhile is_digit u))" "takeWhile is_digit u \<noteq> []"
    "dropWhile is_digit u = []"
    using assms neg by (auto simp: strtol10_def Let_def u_def split: if_splits)
  have ds: "takeWhile is_digit u = u" using v(3) by (metis append_Nil2 takeWhile_dropWhile_id)
  have "s = takeWhile is_space s @ plus @ u" using t by (metis takeWhile_dropWhile_id)
  moreover have "list_all is_space (takeWhile is_space s)" by (auto simp: list_all_iff dest: set_takeWhileD)
  moreover have "list_all is_digit u" using ds by (metis list_all_iff set_takeWhileD)
  ultimately show ?thesis unfolding numeral_text_def using v ds
    by (intro exI [of _ "takeWhile is_space s"] exI [of _ plus] exI [of _ u]) (auto simp: plus_def)
qed

lemma numeral_digits:
  assumes "numeral_text s n"
  shows "dec_val (filter is_digit s) = n"
proof -
  from assms obtain blanks plus ds where s: "s = blanks @ plus @ ds" "list_all is_space blanks"
    "plus = [] \<or> plus = ''+''" "list_all is_digit ds" "dec_val ds = n"
    unfolding numeral_text_def by blast
  have "filter is_digit blanks = []" "filter is_digit plus = []" "filter is_digit ds = ds"
    using s(2-4) digit_not_space by (auto simp: filter_empty_conv filter_id_conv list_all_iff)
  with s show ?thesis by simp
qed

lemma numeral_nonempty: "numeral_text s n \<Longrightarrow> s \<noteq> []"
  by (auto simp: numeral_text_def)

lemma numeral_dec_of_nat: "numeral_text (dec_of_nat n) n"
  unfolding numeral_text_def
  by (intro exI [of _ "[]"] exI [of _ "[]"] exI [of _ "dec_of_nat n"])
    (auto simp: list_all_iff dec_of_nat_digits)

definition in_int_range :: "nat \<Rightarrow> bool" where
  "in_int_range n \<longleftrightarrow> 1 \<le> n \<and> int n \<le> INT_MAX"

lemma parse_positive_numeral:
  assumes "numeral_text s n" and "in_int_range n"
  shows "parse_positive (Some s) = int n"
  using assms strtol10_numeral [OF assms(1)] numeral_nonempty [OF assms(1)]
  by (simp add: parse_positive_def in_int_range_def LONG_MAX_def INT_MAX_def)

lemma parse_positive_range: "parse_positive s = - 1 \<or> 1 \<le> parse_positive s \<and> parse_positive s \<le> INT_MAX"
  by (auto simp: parse_positive_def split: option.splits prod.splits)

lemma parse_positive_reads:
  assumes "parse_positive (Some s) \<noteq> - 1"
  shows "\<exists>n. numeral_text s n \<and> in_int_range n"
proof -
  obtain v where v: "strtol10 s = (v, False, [])" "0 < v" "v \<le> INT_MAX"
    using assms by (auto simp: parse_positive_def not_le split: prod.splits if_splits)
  with strtol10_accepts [OF v(1,2)] have "numeral_text s (nat v)" "in_int_range (nat v)"
    by (simp_all add: in_int_range_def)
  then show ?thesis by blast
qed

text \<open>
  C33: \<open>parse_positive\<close> is exact. It returns the value of a decimal numeral, which may have blanks
  and a plus sign in front, when that value is between 1 and \<open>INT_MAX\<close>, and -1 for every other
  string, so a number beyond \<open>int\<close> or \<open>long\<close> is refused and never wraps; a NULL pointer gives -1.
\<close>

theorem parse_positive_exact:
  "parse_positive (Some s) =
     (if \<exists>n. numeral_text s n \<and> in_int_range n then int (dec_val (filter is_digit s)) else - 1)
   \<and> parse_positive None = - 1"
proof (cases "\<exists>n. numeral_text s n \<and> in_int_range n")
  case True
  then obtain n where "numeral_text s n" "in_int_range n" by blast
  then have "parse_positive (Some s) = int (dec_val (filter is_digit s))"
    using parse_positive_numeral numeral_digits by simp
  with True show ?thesis by (simp add: parse_positive_def [of None])
next
  case False
  with parse_positive_reads [of s] have "parse_positive (Some s) = - 1" by blast
  with False show ?thesis by (simp add: parse_positive_def [of None])
qed

section \<open>What the options come to\<close>

definition threads_ok :: "OPT \<Rightarrow> bool" where
  "threads_ok opts \<longleftrightarrow> 1 \<le> n_threads opts \<and> n_threads opts \<le> INT_MAX"

lemma opt_loop_step:
  assumes "opt_loop posix skipped opts (a # as) = Some r" and "threads_ok opts"
  shows "fst r = opts \<or> (\<exists>skipped' opts' rest. length rest \<le> length as
    \<and> opt_loop posix skipped' opts' rest = Some r \<and> threads_ok opts')"
proof -
  have "threads_ok (opts\<lparr>n_threads := parse_positive (Some arg)\<rparr>)" if "\<not> parse_positive (Some arg) < 0" for arg
    using that parse_positive_range [of "Some arg"] by (auto simp: threads_ok_def)
  moreover have "threads_ok (opts\<lparr>log_path := l\<rparr>)" for l using assms(2) by (simp add: threads_ok_def)
  ultimately show ?thesis using assms
    by (cases as) (auto simp: opt_loop.simps(2) [of _ _ _ a] Let_def split: if_splits,
      (metis le_SucI le_refl length_Cons)+)
qed

lemma opt_loop_threads:
  "opt_loop posix skipped opts as = Some r \<Longrightarrow> threads_ok opts \<Longrightarrow> threads_ok (fst r)"
proof (induction as arbitrary: skipped opts rule: length_induct)
  case (1 as)
  show ?case
  proof (cases as)
    case Nil
    with 1 show ?thesis by auto
  next
    case (Cons a as')
    with opt_loop_step [of posix skipped opts a as' r] 1(2,3)
    consider "fst r = opts" | skipped' opts' rest where "length rest < length as"
      "opt_loop posix skipped' opts' rest = Some r" "threads_ok opts'"
      by (auto simp: less_Suc_eq_le)
    then show ?thesis using 1 by cases blast+
  qed
qed

lemma opt_parse_accepts:
  assumes "opt_parse posix argv = Some opts"
  shows "threads_ok opts" and "1 \<le> port opts" and "port opts \<le> 65535"
proof -
  from assms obtain o1 p rest where loop: "opt_loop posix []
      \<lparr>n_threads = DEFAULT_THREAD_COUNT, log_path = None, port = 0\<rparr> (drop 1 argv) = Some (o1, p # rest)"
    and o: "opts = o1\<lparr>port := parse_positive (Some p)\<rparr>" "0 \<le> parse_positive (Some p)"
      "parse_positive (Some p) \<le> 65535"
    by (auto simp: opt_parse_def Let_def split: option.splits list.splits if_splits)
  show "threads_ok opts"
    using opt_loop_threads [OF loop] o(1) by (simp add: threads_ok_def DEFAULT_THREAD_COUNT_def INT_MAX_def)
  show "1 \<le> port opts" "port opts \<le> 65535"
    using o parse_positive_range [of "Some p"] by auto
qed

lemma port_16: "1 \<le> p \<Longrightarrow> p \<le> 65535 \<Longrightarrow> uint (of_int p :: 16 word) = p"
  by (simp add: unsigned_of_int take_bit_int_eq_self)

text \<open>The command lines a user writes: options with their argument attached or as a word of its
  own.\<close>

datatype option_word = ThreadsOpt nat bool | LogOpt bytes bool

fun print_option :: "option_word \<Rightarrow> bytes list" where
  "print_option (ThreadsOpt n True) = [''-t'' @ dec_of_nat n]"
| "print_option (ThreadsOpt n False) = [''-t'', dec_of_nat n]"
| "print_option (LogOpt p True) = [''-l'' @ p]"
| "print_option (LogOpt p False) = [''-l'', p]"

fun good_option :: "option_word \<Rightarrow> bool" where
  "good_option (ThreadsOpt n _) = in_int_range n"
| "good_option (LogOpt p attached) = (p \<noteq> [] \<or> \<not> attached)"

fun apply_option :: "option_word \<Rightarrow> OPT \<Rightarrow> OPT" where
  "apply_option (ThreadsOpt n _) opts = opts\<lparr>n_threads := int n\<rparr>"
| "apply_option (LogOpt p _) opts = opts\<lparr>log_path := Some p\<rparr>"

lemma opt_loop_option:
  assumes "good_option w"
  shows "opt_loop posix skipped opts (print_option w @ as) =
    opt_loop posix skipped (apply_option w opts) as"
  using assms
  by (cases w rule: print_option.cases)
    (auto simp: opt_loop.simps(2) Let_def parse_positive_numeral [OF numeral_dec_of_nat] split: list.splits)

lemma opt_loop_options:
  "list_all good_option ws \<Longrightarrow>
     opt_loop posix skipped opts (concat (map print_option ws) @ as) =
     opt_loop posix skipped (fold apply_option ws opts) as"
  by (induction ws arbitrary: opts) (simp_all add: opt_loop_option)

lemma digit_hd: "hd (dec_of_nat n) \<noteq> CHR ''-''"
proof -
  have "hd (dec_of_nat n) \<in> set (dec_of_nat n)" by (rule hd_in_set) simp
  from dec_of_nat_digits [OF this] show ?thesis by (auto simp: is_digit_def)
qed

lemma opt_loop_operand:
  "opt_loop posix skipped opts (dec_of_nat p # as) =
     (if posix then Some (opts, dec_of_nat p # as)
      else opt_loop posix (skipped @ [dec_of_nat p]) opts as)"
  using digit_hd [of p] by (subst opt_loop.simps(2)) auto

text \<open>
  C34: a printed command line is read back. Options with arguments in range, each written in
  one word or two, are all applied in order, a later one overriding an earlier one of its kind and
  the defaults standing for what is not given; the port may follow them, and in the GNU order the
  options may follow the port.
\<close>

theorem opt_parse_roundtrip:
  assumes "list_all good_option ws" and "1 \<le> p" and "p \<le> 65535"
  shows "let opts = fold apply_option ws \<lparr>n_threads = 3, log_path = None, port = 0\<rparr>;
             words = concat (map print_option ws)
         in opt_parse posix (prog # words @ [dec_of_nat p]) = Some (opts\<lparr>port := int p\<rparr>)
          \<and> opt_parse False (prog # dec_of_nat p # words) = Some (opts\<lparr>port := int p\<rparr>)
          \<and> opt_parse posix (prog # words) = None"
proof -
  have port: "parse_positive (Some (dec_of_nat p)) = int p"
    using assms by (intro parse_positive_numeral numeral_dec_of_nat) (simp add: in_int_range_def INT_MAX_def)
  note loops = opt_loop_options [OF assms(1)] opt_loop_options [OF assms(1), where as = "[]", simplified]
    opt_loop_operand
  show ?thesis
    using assms(2,3)
    by (cases posix) (simp_all add: opt_parse_def loops port Let_def DEFAULT_THREAD_COUNT_def)
qed

lemma sample_numerals:
  "dec_of_nat 4 = ''4''" "dec_of_nat 2 = ''2''" "dec_of_nat 8080 = ''8080''"
  by (simp_all add: dec_of_nat.simps char_of_def bit_0)

theorem opt_parse_roundtrip_witness:
  "opt_parse True [''httpserver'', ''-t'', ''4'', ''-laudit'', ''-t2'', ''8080''] =
     Some \<lparr>n_threads = 2, log_path = Some ''audit'', port = 8080\<rparr>"
  using opt_parse_roundtrip [where ws = "[ThreadsOpt 4 False, LogOpt ''audit'' True, ThreadsOpt 2 True]"
      and p = 8080 and prog = "''httpserver''" and posix = True]
  by (simp add: in_int_range_def INT_MAX_def sample_numerals Let_def)

end
