(* ===== verification/Listener.thy ===== *)
theory Listener
  imports Sysio
begin

text \<open>
  The listening socket of \<open>src/listener.c\<close>. The kernel's side is a table of the process's sockets;
  what each call returns is given by an environment, so that every failure is a case. A socket
  call that succeeds returns a descriptor that is not open.
\<close>

section \<open>Sockets\<close>

record sock_state =
  so_reuseaddr :: bool
  so_port :: "16 word option"      \<comment> \<open>the local port it is bound to\<close>
  so_listening :: bool
  so_rcvtimeo :: "nat option"      \<comment> \<open>in microseconds\<close>
  so_sndtimeo :: "nat option"

type_synonym sock_table = "int \<rightharpoonup> sock_state"

definition fresh_socket :: sock_state where
  "fresh_socket = \<lparr>so_reuseaddr = False, so_port = None, so_listening = False,
     so_rcvtimeo = None, so_sndtimeo = None\<rparr>"

definition upd_socket :: "int \<Rightarrow> (sock_state \<Rightarrow> sock_state) \<Rightarrow> sock_table \<Rightarrow> sock_table" where
  "upd_socket fd f t = (case t fd of None \<Rightarrow> t | Some s \<Rightarrow> t(fd \<mapsto> f s))"

definition close_socket :: "int \<Rightarrow> sock_table \<Rightarrow> sock_table" where
  "close_socket fd t = t(fd := None)"

text \<open>A \<open>uint16_t\<close> in the host's byte order and in the network's: a byte swap on a little-endian host.\<close>

definition htons :: "bool \<Rightarrow> 16 word \<Rightarrow> 16 word" where
  "htons little x = (if little then or (push_bit 8 x) (drop_bit 8 x) else x)"

section \<open>The operations\<close>

text \<open>\<open>Listener_Socket\<close>\<close>

record Listener_Socket =
  sock_fd :: int

record listen_env =
  l_little :: bool      \<comment> \<open>byte order of the host\<close>
  l_socket :: int       \<comment> \<open>what \<open>socket\<close> returns\<close>
  l_reuse :: bool       \<comment> \<open>\<open>setsockopt(SO_REUSEADDR)\<close> succeeds\<close>
  l_bind :: bool
  l_listen :: bool

text \<open>The kernel reads \<open>sin_port\<close> in network byte order.\<close>

definition listener_init ::
  "listen_env \<Rightarrow> int \<Rightarrow> sock_table \<Rightarrow> int \<times> Listener_Socket \<times> sock_table" where
  "listener_init env port t =
     (let fd = l_socket env; sock = \<lparr>sock_fd = fd\<rparr>
      in if fd < 0 then (- 1, sock, t)
         else
           let t1 = t(fd \<mapsto> fresh_socket)
           in if \<not> l_reuse env then (- 1, sock, close_socket fd t1)
              else
                let t2 = upd_socket fd (\<lambda>s. s\<lparr>so_reuseaddr := True\<rparr>) t1;
                    sin_port = htons (l_little env) (of_int port)
                in if \<not> l_bind env then (- 1, sock, close_socket fd t2)
                   else
                     let t3 = upd_socket fd
                           (\<lambda>s. s\<lparr>so_port := Some (htons (l_little env) sin_port)\<rparr>) t2
                     in if \<not> l_listen env then (- 1, sock, close_socket fd t3)
                        else (0, sock, upd_socket fd (\<lambda>s. s\<lparr>so_listening := True\<rparr>) t3))"

record accept_env =
  a_accept :: int       \<comment> \<open>what \<open>accept\<close> returns\<close>
  a_rcvtimeo :: bool    \<comment> \<open>\<open>setsockopt(SO_RCVTIMEO)\<close> succeeds\<close>
  a_sndtimeo :: bool

definition listener_accept ::
  "accept_env \<Rightarrow> Listener_Socket \<Rightarrow> sock_table \<Rightarrow> int \<times> sock_table" where
  "listener_accept env sock t =
     (let connfd = a_accept env
      in if connfd < 0 then (- 1, t)
         else
           let t1 = t(connfd \<mapsto> fresh_socket\<lparr>so_port := Option.bind (t (sock_fd sock)) so_port\<rparr>);
               timeout = 5 * 1000000 + 0
           in if \<not> a_rcvtimeo env then (- 1, close_socket connfd t1)
              else
                let t2 = upd_socket connfd (\<lambda>s. s\<lparr>so_rcvtimeo := Some timeout\<rparr>) t1
                in if \<not> a_sndtimeo env then (- 1, close_socket connfd t2)
                   else (connfd, upd_socket connfd (\<lambda>s. s\<lparr>so_sndtimeo := Some timeout\<rparr>) t2))"

lemmas sock_defs = upd_socket_def close_socket_def fresh_socket_def

section \<open>What they do\<close>

lemma htons_involution: "htons b (htons b x) = x"
  by (rule bit_word_eqI)
    (auto simp: htons_def bit_or_iff bit_push_bit_iff bit_drop_bit_eq exp_eq_zero_iff not_le)

text \<open>A call that fails on a fresh descriptor leaves the table as it was.\<close>

lemma fun_upd_fresh: "t fd = None \<Longrightarrow> t(fd := None) = t"
  by (rule fun_upd_idem)

text \<open>
  \<open>listener_init\<close> on a fresh descriptor returns 0 exactly when all four calls succeed. Then the
  one new socket listens, with address reuse, on the low 16 bits of the port whatever the host's
  byte order; on any failure it returns -1 and every descriptor it opened is closed.
\<close>

lemma listener_init_result:
  assumes "t (l_socket env) = None"
  shows "listener_init env port t =
    (if 0 \<le> l_socket env \<and> l_reuse env \<and> l_bind env \<and> l_listen env
     then (0, \<lparr>sock_fd = l_socket env\<rparr>, t(l_socket env \<mapsto>
       \<lparr>so_reuseaddr = True, so_port = Some (of_int port), so_listening = True,
        so_rcvtimeo = None, so_sndtimeo = None\<rparr>))
     else (- 1, \<lparr>sock_fd = l_socket env\<rparr>, t))"
  using assms by (simp add: listener_init_def Let_def sock_defs htons_involution fun_upd_fresh)

text \<open>
  A connection that \<open>listener_accept\<close> hands out on a fresh descriptor has a timeout of five
  seconds armed in both directions; when \<open>accept\<close> or either \<open>setsockopt\<close> fails it returns -1 and
  the table of sockets is as before, so no half-configured connection leaks.
\<close>

lemma listener_accept_result:
  assumes "t (a_accept env) = None"
  shows "listener_accept env sock t =
    (if 0 \<le> a_accept env \<and> a_rcvtimeo env \<and> a_sndtimeo env
     then (a_accept env, t(a_accept env \<mapsto>
       \<lparr>so_reuseaddr = False, so_port = Option.bind (t (sock_fd sock)) so_port,
        so_listening = False, so_rcvtimeo = Some 5000000, so_sndtimeo = Some 5000000\<rparr>))
     else (- 1, t))"
  using assms by (simp add: listener_accept_def Let_def sock_defs fun_upd_fresh)

end
