(* ===== verification/Thread_Pool.thy ===== *)
theory Thread_Pool
  imports Bounded_Queue "HOL-Library.Multiset"
begin

text \<open>
  The thread pool of \<open>src/threadpool.c\<close>: construction with rollback, submission, the worker loop
  and the shutdown protocol. The pool runs over the queue of \<^verbatim>\<open>Bounded_Queue\<close>, whose calls
  \<^verbatim>\<open>Queue_Concurrent\<close> shows to act as single steps of a bounded FIFO; here each call is one
  step and takes place only when it does not block.
\<close>

section \<open>Construction\<close>

definition STOP_SENTINEL :: int where
  "STOP_SENTINEL = -1"

record pool =
  tp_nthreads :: int
  tp_q :: "int queue"
  tp_created :: nat

text \<open>The loop of \<open>pthread_create\<close> calls: \<open>Inl i\<close> when the one for thread \<open>i\<close> fails.\<close>

function create_loop :: "(nat \<Rightarrow> bool) \<Rightarrow> nat \<Rightarrow> nat \<Rightarrow> nat + nat" where
  "create_loop create_ok i n =
     (if i < n then (if create_ok i then create_loop create_ok (Suc i) n else Inl i) else Inr i)"
  by pat_completeness auto
termination
  by (relation "measure (\<lambda>(_, i, n). n - i)") auto

declare create_loop.simps [simp del]

text \<open>
  \<open>threadpool_new\<close> with the live heap blocks threaded through: the outcomes of the two \<open>malloc\<close>s,
  those inside \<open>queue_new\<close> and those of \<open>pthread_create\<close> are given. The workers run while
  the loop and the rollback do; \<^verbatim>\<open>Pool_Creation\<close> interleaves them and shows that the sentinels and
  joins of the rollback end as summed up here.
\<close>

definition threadpool_new ::
  "bool \<Rightarrow> bool \<Rightarrow> bool \<Rightarrow> bool \<Rightarrow> int list option \<Rightarrow> bool \<Rightarrow> bool \<Rightarrow> bool
     \<Rightarrow> (nat \<Rightarrow> bool) \<Rightarrow> int \<Rightarrow> int \<Rightarrow> nat \<Rightarrow> pool option \<times> nat" where
  "threadpool_new handler_ok tp_ok threads_ok q_ok block mutex_ok full_ok empty_ok create_ok
     nthreads queue_size heap =
     (if nthreads \<le> 0 \<or> queue_size \<le> 0 \<or> \<not> handler_ok then (None, heap)
      else if \<not> tp_ok then (None, heap)
      else
        let h1 = heap + 1;
            h2 = h1 + (if threads_ok then 1 else 0);
            (q, h3) = queue_new q_ok block mutex_ok full_ok empty_ok queue_size h2
        in case q of
             None \<Rightarrow> (None, h3 - (if threads_ok then 1 else 0) - 1)
           | Some q0 \<Rightarrow>
               if \<not> threads_ok then (None, snd (queue_delete (Some q0) h3) - 1)
               else (case create_loop create_ok 0 (nat nthreads) of
                   Inl i \<Rightarrow> (None, snd (queue_delete (Some q0) h3) - 1 - 1)
                 | Inr i \<Rightarrow>
                     (Some \<lparr>tp_nthreads = nthreads, tp_q = q0, tp_created = i\<rparr>, h3)))"

definition threadpool_submit :: "pool option \<Rightarrow> int \<Rightarrow> (bool \<times> pool option) run" where
  "threadpool_submit tp connfd =
     (case tp of
        None \<Rightarrow> Ret (False, None)
      | Some p \<Rightarrow>
          run_bind (queue_push [] [] (Some (tp_q p)) connfd) (\<lambda>(ok, q).
            Ret (ok, case q of None \<Rightarrow> Some p | Some q' \<Rightarrow> Some (p\<lparr>tp_q := q'\<rparr>))))"

lemma create_loop_cases:
  "i \<le> n \<Longrightarrow> (case create_loop ok i n of
      Inr k \<Rightarrow> k = n \<and> (\<forall>j. i \<le> j \<and> j < n \<longrightarrow> ok j)
    | Inl k \<Rightarrow> i \<le> k \<and> k < n \<and> \<not> ok k \<and> (\<forall>j. i \<le> j \<and> j < k \<longrightarrow> ok j))"
proof (induction ok i n rule: create_loop.induct)
  case (1 ok i n)
  have split: "i \<le> j \<longleftrightarrow> j = i \<or> Suc i \<le> j" for j by auto
  show ?case
  proof (cases "i < n \<and> ok i")
    case True
    with 1 show ?thesis
      by (subst create_loop.simps) (auto simp: split split: sum.splits)
  next
    case False
    with 1(2) show ?thesis by (subst create_loop.simps) auto
  qed
qed

text \<open>
  C31: \<open>threadpool_new\<close> either returns a pool with all its workers created and an empty queue of the
  requested size, or NULL with no block left allocated, whichever of its calls fails; a NULL pool
  refuses submissions.
\<close>

theorem threadpool_new_result:
  assumes "queue_size \<le> INT_MAX" and "\<forall>b. block = Some b \<longrightarrow> length b = nat queue_size"
  shows "(case threadpool_new h tp th qo block m f e ok nthreads queue_size heap of
      (None, heap') \<Rightarrow> heap' = heap
        \<and> (nthreads \<le> 0 \<or> queue_size \<le> 0 \<or> \<not> h \<or> \<not> tp \<or> \<not> th \<or> \<not> qo \<or> block = None
           \<or> \<not> m \<or> \<not> f \<or> \<not> e \<or> (\<exists>i < nat nthreads. \<not> ok i))
    | (Some p, heap') \<Rightarrow> heap' = heap + 4 \<and> tp_created p = nat nthreads \<and> 0 < nthreads
        \<and> queue_wf (tp_q p) \<and> queue_items (tp_q p) = [] \<and> queue_cap (tp_q p) = nat queue_size)
    \<and> threadpool_submit None fd = Ret (False, None)"
proof -
  note cl = create_loop_cases [of 0 "nat nthreads" ok, simplified]
  have qn: "queue_size \<le> 0 \<or> (case queue_new qo block m f e queue_size (Suc (Suc heap)) of
      (None, h') \<Rightarrow> h' = Suc (Suc heap) \<and> (\<not> qo \<or> block = None \<or> \<not> m \<or> \<not> f \<or> \<not> e)
    | (Some q, h') \<Rightarrow> queue_wf q \<and> queue_items q = [] \<and> queue_cap q = nat queue_size
        \<and> h' = heap + 4)"
    using queue_new_delete [of queue_size block "Suc (Suc heap)" qo m f e] assms
    by (auto split: option.splits)
  show ?thesis
  proof (cases "nthreads \<le> 0 \<or> queue_size \<le> 0 \<or> \<not> h \<or> \<not> tp")
    case True
    then show ?thesis by (auto simp: threadpool_new_def threadpool_submit_def)
  next
    case False
    with qn cl show ?thesis
      by (cases th; cases "create_loop ok 0 (nat nthreads)")
        (auto simp: threadpool_new_def threadpool_submit_def queue_delete_def queue_new_def Let_def
          split: option.splits prod.splits if_splits)
  qed
qed

theorem threadpool_new_result_witness:
  "threadpool_new True True True True (Some [0, 0, 0]) True True True
     (\<lambda>i. i < 2) 3 3 10 = (None, 10)"
proof -
  have loop: "create_loop (\<lambda>i. i < 2) 0 3 = Inl 2"
    by (simp add: create_loop.simps eval_nat_numeral)
  have "fst (threadpool_new True True True True (Some [0, 0, 0]) True True True
     (\<lambda>i. i < 2) 3 3 10) = None"
    by (simp add: threadpool_new_def queue_new_def loop)
  with threadpool_new_result [where queue_size = 3 and block = "Some [0, 0, 0]" and h = True
      and tp = True and th = True and qo = True and m = True and f = True and e = True
      and ok = "\<lambda>i. i < 2" and nthreads = 3 and heap = 10
      and fd = 0]
  show ?thesis by (auto simp: INT_MAX_def split: prod.splits option.splits)
qed

section \<open>The pool at work\<close>

text \<open>
  A worker is about to pop, runs the handler on a connection, or has left its loop. The dispatcher
  is between calls, inside \<open>threadpool_submit\<close>, or inside \<open>threadpool_destroy\<close>: pushing the
  \<open>k\<close>-th sentinel, joining the \<open>k\<close>-th worker, or done with the queue and the pool freed.
\<close>

datatype wpc = WPop | WRun int | WDone

datatype dpc = DRun | DSubmit int | DStop nat | DJoin nat | DDone

record pool_sys =
  pq :: "int queue"
  wpcs :: "nat \<Rightarrow> wpc"
  disp :: dpc
  submitted :: "int list"
  started :: "int list"
  finished :: "int list"

text \<open>The calls of the dispatcher: \<open>threadpool_submit\<close> and \<open>threadpool_destroy\<close>.\<close>

inductive dispatcher_step :: "nat \<Rightarrow> pool_sys \<Rightarrow> pool_sys \<Rightarrow> bool" for N :: nat where
  submit: "disp s = DRun \<Longrightarrow> 0 \<le> fd \<Longrightarrow> dispatcher_step N s (s\<lparr>disp := DSubmit fd\<rparr>)"
| submit_push: "disp s = DSubmit fd \<Longrightarrow> push_ret fd (pq s) = Some q \<Longrightarrow>
    dispatcher_step N s (s\<lparr>disp := DRun, pq := q, submitted := submitted s @ [fd]\<rparr>)"
| destroy: "disp s = DRun \<Longrightarrow> dispatcher_step N s (s\<lparr>disp := DStop 0\<rparr>)"
| stop_push: "disp s = DStop k \<Longrightarrow> k < N \<Longrightarrow> push_ret STOP_SENTINEL (pq s) = Some q \<Longrightarrow>
    dispatcher_step N s (s\<lparr>disp := DStop (Suc k), pq := q\<rparr>)"
| stop_end: "disp s = DStop k \<Longrightarrow> \<not> k < N \<Longrightarrow> dispatcher_step N s (s\<lparr>disp := DJoin 0\<rparr>)"
| join: "disp s = DJoin k \<Longrightarrow> k < N \<Longrightarrow> wpcs s k = WDone \<Longrightarrow>
    dispatcher_step N s (s\<lparr>disp := DJoin (Suc k)\<rparr>)"
| join_end: "disp s = DJoin k \<Longrightarrow> \<not> k < N \<Longrightarrow> dispatcher_step N s (s\<lparr>disp := DDone\<rparr>)"

text \<open>The loop of a worker; the handler's work is between its two steps.\<close>

inductive worker_step :: "nat \<Rightarrow> pool_sys \<Rightarrow> pool_sys \<Rightarrow> bool" for N :: nat where
  worker_stop: "t < N \<Longrightarrow> wpcs s t = WPop \<Longrightarrow> pop_ret (pq s) = Some (item, q) \<Longrightarrow>
    item = STOP_SENTINEL \<Longrightarrow> worker_step N s (s\<lparr>pq := q, wpcs := (wpcs s)(t := WDone)\<rparr>)"
| worker_take: "t < N \<Longrightarrow> wpcs s t = WPop \<Longrightarrow> pop_ret (pq s) = Some (item, q) \<Longrightarrow>
    item \<noteq> STOP_SENTINEL \<Longrightarrow>
    worker_step N s (s\<lparr>pq := q, wpcs := (wpcs s)(t := WRun item), started := started s @ [item]\<rparr>)"
| handler_return: "t < N \<Longrightarrow> wpcs s t = WRun fd \<Longrightarrow>
    worker_step N s (s\<lparr>wpcs := (wpcs s)(t := WPop), finished := finished s @ [fd]\<rparr>)"

definition pool_step :: "nat \<Rightarrow> pool_sys \<Rightarrow> pool_sys \<Rightarrow> bool" where
  "pool_step N s s' \<longleftrightarrow> dispatcher_step N s s' \<or> worker_step N s s'"

lemma pool_step_dispatcher: "dispatcher_step N s s' \<Longrightarrow> pool_step N s s'"
  and pool_step_worker: "worker_step N s s' \<Longrightarrow> pool_step N s s'"
  by (simp_all add: pool_step_def)

definition pool_init :: "pool_sys \<Rightarrow> bool" where
  "pool_init s \<longleftrightarrow> queue_wf (pq s) \<and> queue_items (pq s) = [] \<and> (\<forall>t. wpcs s t = WPop)
     \<and> disp s = DRun \<and> submitted s = [] \<and> started s = [] \<and> finished s = []"

fun stops_sent :: "nat \<Rightarrow> dpc \<Rightarrow> nat" where
  "stops_sent N (DStop k) = k"
| "stops_sent N (DJoin _) = N"
| "stops_sent N DDone = N"
| "stops_sent N _ = 0"

fun is_done :: "wpc \<Rightarrow> nat" where
  "is_done WDone = 1"
| "is_done _ = 0"

fun running :: "wpc \<Rightarrow> int multiset" where
  "running (WRun fd) = {#fd#}"
| "running _ = {#}"

definition in_flight :: "nat \<Rightarrow> (nat \<Rightarrow> wpc) \<Rightarrow> int multiset" where
  "in_flight N p = (\<Sum>t\<in>{..<N}. running (p t))"

lemma in_flight_upd: "t < N \<Longrightarrow> in_flight N (p(t := c)) + running (p t) = in_flight N p + running c"
  unfolding in_flight_def by (rule sum_fun_upd) auto

lemma in_flight_done: "(\<forall>t < N. p t = WDone) \<Longrightarrow> in_flight N p = {#}"
  by (simp add: in_flight_def)

fun joined :: "nat \<Rightarrow> dpc \<Rightarrow> nat" where
  "joined N (DJoin k) = k"
| "joined N DDone = N"
| "joined N _ = 0"

fun disp_ok :: "nat \<Rightarrow> dpc \<Rightarrow> bool" where
  "disp_ok N (DSubmit fd) = (0 \<le> fd)"
| "disp_ok N (DStop k) = (k \<le> N)"
| "disp_ok N (DJoin k) = (k \<le> N)"
| "disp_ok N _ = True"

text \<open>The waiting connections come before the waiting sentinels; a worker leaves only when no
  connection is waiting; every sentinel sent waits or has stopped a worker.\<close>

definition pool_view :: "nat \<Rightarrow> pool_sys \<Rightarrow> int list \<Rightarrow> nat \<Rightarrow> bool" where
  "pool_view N s fds k \<longleftrightarrow> queue_wf (pq s) \<and> disp_ok N (disp s)
     \<and> queue_items (pq s) = fds @ replicate k STOP_SENTINEL \<and> (\<forall>fd \<in> set fds. 0 \<le> fd)
     \<and> submitted s = started s @ fds
     \<and> k + tally N is_done (wpcs s) = stops_sent N (disp s)
     \<and> (0 < tally N is_done (wpcs s) \<longrightarrow> fds = [])
     \<and> mset (started s) = mset (finished s) + in_flight N (wpcs s)
     \<and> (\<forall>t < joined N (disp s). wpcs s t = WDone)"

definition pool_inv :: "nat \<Rightarrow> pool_sys \<Rightarrow> bool" where
  "pool_inv N s \<longleftrightarrow> (\<exists>fds k. pool_view N s fds k)"

lemma stop_not_fd: "\<forall>fd \<in> set fds. 0 \<le> fd \<Longrightarrow> STOP_SENTINEL \<notin> set fds"
  by (auto simp: STOP_SENTINEL_def)

text \<open>What a pop finds, with the sentinels behind the connections.\<close>

lemma pop_split:
  assumes "queue_wf q" and "queue_items q = fds @ replicate k STOP_SENTINEL"
    and "\<forall>fd \<in> set fds. 0 \<le> fd" and "pop_ret q = Some (x, q')"
  shows "queue_wf q' \<and>
    (if x = STOP_SENTINEL
     then fds = [] \<and> 0 < k \<and> queue_items q' = replicate (k - 1) STOP_SENTINEL
     else \<exists>fds'. fds = x # fds' \<and> queue_items q' = fds' @ replicate k STOP_SENTINEL)"
  using ring.get_law [OF assms(1,4)] assms(2,3) stop_not_fd [OF assms(3)]
  by (cases fds; cases k) auto

lemma dispatcher_step_view:
  assumes "dispatcher_step N s s'" and "pool_view N s fds k"
  shows "\<exists>fds k. pool_view N s' fds k"
  using assms
proof (induction rule: dispatcher_step.induct)
  case (submit_push s fd q)
  with ring.put_law [of "pq s" fd q] have "pool_view N
      (s\<lparr>disp := DRun, pq := q, submitted := submitted s @ [fd]\<rparr>) (fds @ [fd]) 0"
    by (auto simp: pool_view_def)
  then show ?case by blast
next
  case (stop_push s k' q)
  with ring.put_law [of "pq s" STOP_SENTINEL q]
  have "pool_view N (s\<lparr>disp := DStop (Suc k'), pq := q\<rparr>) fds (Suc k)"
    by (auto simp: pool_view_def replicate_append_same)
  then show ?case by blast
qed (rule exI [of _ fds], rule exI [of _ k], auto simp: pool_view_def less_Suc_eq)+

lemma worker_step_view:
  assumes "worker_step N s s'" and "pool_view N s fds k"
  shows "\<exists>fds k. pool_view N s' fds k"
  using assms
proof (induction rule: worker_step.induct)
  case (worker_stop t s item q)
  with pop_split [of "pq s" fds k item q] tally_upd [of t N is_done "wpcs s" WDone]
    in_flight_upd [of t N "wpcs s" WDone]
  have "pool_view N (s\<lparr>pq := q, wpcs := (wpcs s)(t := WDone)\<rparr>) [] (k - 1)"
    by (auto simp: pool_view_def)
  then show ?case by blast
next
  case (worker_take t s item q)
  with pop_split [of "pq s" fds k item q] obtain fds' where
    "queue_wf q" "fds = item # fds'" "queue_items q = fds' @ replicate k STOP_SENTINEL"
    by (auto simp: pool_view_def split: if_splits)
  with worker_take tally_upd [of t N is_done "wpcs s" "WRun item"]
    in_flight_upd [of t N "wpcs s" "WRun item"]
  have "pool_view N
      (s\<lparr>pq := q, wpcs := (wpcs s)(t := WRun item), started := started s @ [item]\<rparr>) fds' k"
    by (auto simp: pool_view_def)
  then show ?case by blast
next
  case (handler_return t s fd)
  with tally_upd [of t N is_done "wpcs s" WPop] in_flight_upd [of t N "wpcs s" WPop]
  have "pool_view N (s\<lparr>wpcs := (wpcs s)(t := WPop), finished := finished s @ [fd]\<rparr>) fds k"
    by (auto simp: pool_view_def)
  then show ?case by blast
qed

lemma pool_step_inv: "pool_step N s s' \<Longrightarrow> pool_inv N s \<Longrightarrow> pool_inv N s'"
  using dispatcher_step_view worker_step_view unfolding pool_step_def pool_inv_def by blast

lemma pool_init_inv: "pool_init s \<Longrightarrow> pool_inv N s"
  by (auto simp: pool_init_def pool_inv_def pool_view_def tally_def in_flight_def
      intro!: exI [of _ "[] :: int list"])

interpretation pool_threads: invariant_system pool_init "pool_step N" "pool_inv N" for N
  by unfold_locales (auto intro: pool_init_inv pool_step_inv)

section \<open>Exactly once, and the shutdown\<close>

text \<open>The connections that wait in the queue.\<close>

definition queued_fds :: "pool_sys \<Rightarrow> int list" where
  "queued_fds s = filter (\<lambda>x. x \<noteq> STOP_SENTINEL) (queue_items (pq s))"

lemma pool_view_queued: "pool_view N s fds k \<Longrightarrow> queued_fds s = fds"
  by (auto simp: pool_view_def queued_fds_def filter_id_conv STOP_SENTINEL_def)

lemma all_joined:
  assumes "pool_view N s fds k" and "disp s = DDone" and "0 < N \<or> submitted s = []"
  shows "fds = [] \<and> k = 0 \<and> (\<forall>t < N. wpcs s t = WDone)"
proof -
  have done_all: "\<forall>t < N. wpcs s t = WDone" using assms by (simp add: pool_view_def)
  then have "tally N is_done (wpcs s) = N" by (simp add: tally_def)
  with assms done_all show ?thesis by (auto simp: pool_view_def)
qed

text \<open>
  C11: every submitted connection is handled exactly once. At any moment the connections handed to
  workers and the ones waiting are together the submitted ones, taken in the order of submission,
  and the ones handed out are those handled plus those being handled now. When
  \<open>threadpool_destroy\<close> has joined the workers and frees the queue, every submitted connection has
  been handled, nothing waits in the queue, and no worker can touch it any more.
\<close>

theorem pool_exactly_once:
  assumes "pool_init s\<^sub>0" and "(pool_step N)\<^sup>*\<^sup>* s\<^sub>0 s" and "0 < N"
  shows "submitted s = started s @ queued_fds s
    \<and> mset (started s) = mset (finished s) + in_flight N (wpcs s)
    \<and> (disp s = DDone \<longrightarrow> mset (finished s) = mset (submitted s) \<and> queue_items (pq s) = []
         \<and> (\<forall>t < N. wpcs s t = WDone))"
proof -
  have "pool_inv N s" using assms(1,2) by (rule pool_threads.reach_inv)
  then obtain fds k where v: "pool_view N s fds k" by (auto simp: pool_inv_def)
  with pool_view_queued [OF v] all_joined [OF v] assms(3) in_flight_done [of N "wpcs s"]
  show ?thesis by (auto simp: pool_view_def)
qed

definition idle_pool :: pool_sys where
  "idle_pool = \<lparr>pq = the (fst (queue_new True (Some [0]) True True True 1 0)),
     wpcs = (\<lambda>_. WPop), disp = DRun, submitted = [], started = [], finished = []\<rparr>"

lemma idle_pool_init: "pool_init idle_pool"
  by (simp add: idle_pool_def pool_init_def queue_new_def set_fields_def queue_wf_def
      queue_items_def INT_MAX_def)

lemma idle_pool_run:
  "\<exists>s. (pool_step 1)\<^sup>*\<^sup>* idle_pool s \<and> submitted s = [7] \<and> disp s = DRun"
proof -
  have 1: "pool_step 1 idle_pool (idle_pool\<lparr>disp := DSubmit 7\<rparr>)"
    by (rule dispatcher_step.submit [THEN pool_step_dispatcher]) (simp_all add: idle_pool_def)
  let ?s = "idle_pool\<lparr>disp := DSubmit 7\<rparr>"
  obtain q where push: "push_ret 7 (pq ?s) = Some q"
    by (simp add: push_ret_def idle_pool_def queue_new_def set_fields_def queue_push_def
        sem_post_checked_def SEM_VALUE_MAX_def queue_put_def)
  have "pool_step 1 ?s (?s\<lparr>disp := DRun, pq := q, submitted := submitted ?s @ [7]\<rparr>)"
    by (rule dispatcher_step.submit_push [OF _ push, THEN pool_step_dispatcher]) simp
  then have 2: "pool_step 1 ?s (idle_pool\<lparr>disp := DRun, pq := q, submitted := [7]\<rparr>)"
    by (simp add: idle_pool_def)
  have "(pool_step 1)\<^sup>*\<^sup>* idle_pool (idle_pool\<lparr>disp := DRun, pq := q, submitted := [7]\<rparr>)"
    by (rule converse_rtranclp_into_rtranclp [OF 1 r_into_rtranclp [where r = "pool_step 1", OF 2]])
  then show ?thesis by (intro exI conjI) (assumption, simp_all)
qed

theorem pool_exactly_once_witness:
  "\<exists>s. disp s = DRun \<and> started s @ queued_fds s = [7]"
proof -
  from idle_pool_run obtain s where run: "(pool_step 1)\<^sup>*\<^sup>* idle_pool s" "submitted s = [7]"
    "disp s = DRun" by blast
  from pool_exactly_once [OF idle_pool_init run(1)] run(2,3) show ?thesis by auto
qed

text \<open>How far a shutdown is from its end.\<close>

fun disp_left :: "nat \<Rightarrow> dpc \<Rightarrow> nat" where
  "disp_left N (DStop k) = 5 * (N - k) + N + 2"
| "disp_left N (DJoin k) = N - k + 1"
| "disp_left N _ = 0"

fun worker_left :: "wpc \<Rightarrow> nat" where
  "worker_left (WRun _) = 2"
| "worker_left WPop = 1"
| "worker_left WDone = 0"

definition shutdown_left :: "nat \<Rightarrow> pool_sys \<Rightarrow> nat" where
  "shutdown_left N s =
     disp_left N (disp s) + 3 * length (queue_items (pq s)) + tally N worker_left (wpcs s)"

definition stopping :: "pool_sys \<Rightarrow> bool" where
  "stopping s \<longleftrightarrow> (case disp s of DStop _ \<Rightarrow> True | DJoin _ \<Rightarrow> True | DDone \<Rightarrow> True | _ \<Rightarrow> False)"

lemma shutdown_dispatcher:
  assumes "dispatcher_step N s s'" and "queue_wf (pq s)" and "stopping s"
  shows "stopping s' \<and> shutdown_left N s' < shutdown_left N s"
  using assms
proof (induction rule: dispatcher_step.induct)
  case (stop_push s k q)
  with ring.put_law [of "pq s" STOP_SENTINEL q] show ?case
    by (simp add: stopping_def shutdown_left_def)
qed (simp_all add: stopping_def shutdown_left_def)

lemma shutdown_worker:
  assumes "worker_step N s s'" and "queue_wf (pq s)" and "stopping s"
  shows "stopping s' \<and> shutdown_left N s' < shutdown_left N s"
  using assms
proof (induction rule: worker_step.induct)
  case (worker_stop t s item q)
  with ring.get_law [of "pq s" item q] tally_upd [of t N worker_left "wpcs s" WDone] show ?case
    by (simp add: stopping_def shutdown_left_def)
next
  case (worker_take t s item q)
  with ring.get_law [of "pq s" item q] tally_upd [of t N worker_left "wpcs s" "WRun item"]
  show ?case by (simp add: stopping_def shutdown_left_def)
next
  case (handler_return t s fd)
  with tally_upd [of t N worker_left "wpcs s" WPop] show ?case
    by (simp add: stopping_def shutdown_left_def)
qed

lemma shutdown_step:
  "pool_step N s s' \<Longrightarrow> queue_wf (pq s) \<Longrightarrow> stopping s \<Longrightarrow>
     stopping s' \<and> shutdown_left N s' < shutdown_left N s"
  using shutdown_dispatcher shutdown_worker by (auto simp: pool_step_def)

text \<open>A worker that has not left can move as soon as something waits in the queue.\<close>

lemma worker_enabled:
  assumes "queue_wf (pq s)" and "t < N" and "wpcs s t \<noteq> WDone" and "queue_items (pq s) \<noteq> []"
  shows "\<exists>s'. pool_step N s s'"
proof (cases "wpcs s t")
  case WPop
  obtain x q where "pop_ret (pq s) = Some (x, q)" using ring.get_blocks [OF assms(1)] assms(4) by auto
  with WPop assms(2) show ?thesis
    by (cases "x = STOP_SENTINEL") (blast intro: worker_step.worker_stop [THEN pool_step_worker] worker_step.worker_take [THEN pool_step_worker])+
next
  case (WRun fd)
  with assms(2) show ?thesis by (blast intro: worker_step.handler_return [THEN pool_step_worker])
qed (use assms(3) in simp)

lemma is_done_le: "is_done c \<le> 1"
  by (cases c) simp_all

lemma someone_left: "tally N is_done p < N \<Longrightarrow> \<exists>t < N. p t \<noteq> WDone"
  using sum_bounded_below [of "{..<N}" 1 "\<lambda>t. is_done (p t)"]
  by (fastforce simp: tally_def)

lemma push_enabled:
  assumes v: "pool_view N s fds k" and "0 < queue_cap (pq s)"
    and "tally N is_done (wpcs s) < N" and "\<nexists>s'. pool_step N s s'"
  shows "push_ret x (pq s) \<noteq> None"
proof
  assume "push_ret x (pq s) = None"
  with v assms(2) have ne: "queue_wf (pq s)" "queue_items (pq s) \<noteq> []"
    using ring.put_blocks [of "pq s" x] by (auto simp: pool_view_def)
  from someone_left [OF assms(3)] worker_enabled [OF ne(1) _ _ ne(2)] assms(4) show False by blast
qed

lemma pool_enabled:
  assumes v: "pool_view N s fds k" and cap: "0 < queue_cap (pq s)" and N: "0 < N \<or> stopping s"
    and stuck: "\<nexists>s'. pool_step N s s'"
  shows "disp s = DDone"
proof (cases "disp s")
  case DRun
  with stuck show ?thesis by (blast intro: dispatcher_step.destroy [THEN pool_step_dispatcher])
next
  case (DSubmit fd)
  then have "tally N is_done (wpcs s) < N" using v N by (simp add: pool_view_def stopping_def)
  from push_enabled [OF v cap this stuck, of fd] DSubmit stuck show ?thesis
    by (blast intro: dispatcher_step.submit_push [THEN pool_step_dispatcher])
next
  case (DStop n)
  show ?thesis
  proof (cases "n < N")
    case True
    with DStop v have "tally N is_done (wpcs s) < N" by (simp add: pool_view_def)
    from push_enabled [OF v cap this stuck, of STOP_SENTINEL] DStop stuck True show ?thesis
      by (blast intro: dispatcher_step.stop_push [THEN pool_step_dispatcher])
  qed (use DStop stuck in \<open>blast intro: dispatcher_step.stop_end [THEN pool_step_dispatcher]\<close>)
next
  case (DJoin n)
  show ?thesis
  proof (cases "n < N")
    case True
    have "wpcs s n = WDone"
    proof (rule ccontr)
      assume nd: "wpcs s n \<noteq> WDone"
      have "tally N is_done (wpcs s) \<noteq> N"
        using tally_eq_N [of N is_done "wpcs s" n, OF _ is_done_le True] nd by (cases "wpcs s n") auto
      with v DJoin tally_le_N [of is_done N "wpcs s", OF is_done_le] have "0 < k" by (auto simp: pool_view_def)
      with v have "queue_wf (pq s)" "queue_items (pq s) \<noteq> []" by (auto simp: pool_view_def)
      from worker_enabled [OF this(1) True nd this(2)] stuck show False by blast
    qed
    with DJoin True stuck show ?thesis by (blast intro: dispatcher_step.join [THEN pool_step_dispatcher])
  qed (use DJoin stuck in \<open>blast intro: dispatcher_step.join_end [THEN pool_step_dispatcher]\<close>)
qed

lemma pool_step_cap: "pool_step N s s' \<Longrightarrow> queue_wf (pq s) \<Longrightarrow> queue_cap (pq s') = queue_cap (pq s)"
  unfolding pool_step_def
  by (elim disjE dispatcher_step.cases worker_step.cases) (auto dest: ring.put_law ring.get_law)

lemma pool_run_cap:
  assumes "(pool_step N)\<^sup>*\<^sup>* s\<^sub>0 s" and "pool_inv N s\<^sub>0"
  shows "queue_cap (pq s) = queue_cap (pq s\<^sub>0)"
  using assms(1)
proof (induction rule: rtranclp_induct)
  case (step s s')
  have "pool_inv N s" using step.hyps(1) assms(2) by (rule pool_threads.steps_inv)
  then have "queue_wf (pq s)" by (auto simp: pool_inv_def pool_view_def)
  with step pool_step_cap show ?case by metis
qed simp

text \<open>
  C12: the pool never deadlocks and its shutdown ends. Every step taken once \<open>threadpool_destroy\<close>
  has begun brings it closer to its end (handlers return), so it cannot go on for ever, whatever
  the capacity of the queue; and the only state in which nothing can happen is the one in which
  the shutdown is complete.
\<close>

theorem pool_shutdown_terminates:
  assumes "pool_init s\<^sub>0" and "(pool_step N)\<^sup>*\<^sup>* s\<^sub>0 s" and "0 < N"
  shows "(\<forall>s'. stopping s \<and> pool_step N s s' \<longrightarrow>
           stopping s' \<and> shutdown_left N s' < shutdown_left N s)
    \<and> ((\<nexists>s'. pool_step N s s') \<longrightarrow> disp s = DDone)"
proof -
  have inv0: "pool_inv N s\<^sub>0" using assms(1) by (rule pool_init_inv)
  with assms(2) have "pool_inv N s" by (rule pool_threads.steps_inv)
  then obtain fds k where v: "pool_view N s fds k" by (auto simp: pool_inv_def)
  have "0 < queue_cap (pq s\<^sub>0)" using assms(1) by (simp add: pool_init_def queue_wf_def queue_cap_def)
  then have cap: "0 < queue_cap (pq s)" using pool_run_cap [OF assms(2) inv0] by simp
  have "queue_wf (pq s)" using v by (simp add: pool_view_def)
  with shutdown_step pool_enabled [OF v cap] assms(3) show ?thesis by blast
qed

theorem pool_shutdown_terminates_witness:
  "\<exists>s. disp s = DStop 0 \<and> \<not> (\<nexists>s'. pool_step 1 s s')"
proof -
  let ?s = "idle_pool\<lparr>disp := DStop 0\<rparr>"
  have "pool_step 1 idle_pool ?s" by (rule dispatcher_step.destroy [THEN pool_step_dispatcher]) (simp add: idle_pool_def)
  from pool_shutdown_terminates [OF idle_pool_init r_into_rtranclp [where r = "pool_step 1", OF this]]
  show ?thesis by (intro exI [of _ ?s]) auto
qed

end
