(* ===== verification/Connection_Parse.thy ===== *)
theory Connection_Parse
  imports Connection
begin

text \<open>
  Correctness of the parser of \<open>src/connection.c\<close>: the bounds every parsed connection satisfies,
  for any bytes a client may send, and what the parser makes of a well-formed request.
\<close>

section \<open>Character classes\<close>

lemmas class_defs = is_alpha_def in_range_def is_digit_def is_uri_char_def is_key_char_def
  is_value_char_def is_space_def

lemma class_excludes [simp]:
  "\<not> is_alpha (CHR '' '')" "\<not> is_uri_char (CHR '' '')" "\<not> is_key_char (CHR '':'')"
  "\<not> is_value_char CR" "\<not> is_digit CR" "\<not> is_digit (CHR ''.'')"
  "\<not> is_alpha CR" "\<not> is_uri_char CR" "\<not> is_key_char CR"
  "\<not> is_alpha NUL" "\<not> is_uri_char NUL" "\<not> is_key_char NUL" "\<not> is_value_char NUL" "\<not> is_digit NUL"
  "is_space (CHR '' '')"
  by (simp_all add: class_defs)

section \<open>The two patterns on well-formed lines\<close>

definition wf_key :: "bytes \<Rightarrow> bool" where
  "wf_key k \<longleftrightarrow> list_all is_key_char k \<and> 1 \<le> length k \<and> length k \<le> 128"

definition wf_value :: "bytes \<Rightarrow> bool" where
  "wf_value v \<longleftrightarrow> list_all is_value_char v \<and> 1 \<le> length v \<and> length v \<le> 128"

definition wf_method :: "bytes \<Rightarrow> bool" where
  "wf_method m \<longleftrightarrow> list_all is_alpha m \<and> 1 \<le> length m \<and> length m \<le> 8"

definition wf_uri :: "bytes \<Rightarrow> bool" where
  "wf_uri u \<longleftrightarrow> list_all is_uri_char u \<and> 1 \<le> length u \<and> length u \<le> 63"

definition header_line :: "bytes \<times> bytes \<Rightarrow> bytes" where
  "header_line h = fst h @ '': '' @ snd h"

lemma header_match:
  assumes "wf_key k" and "wf_value v"
  shows "regexec False HEADER_FIELD (header_line (k, v) @ crlf @ t) =
    Some [(0, length k + length v + 4), (0, length k),
      (length k + 2, length k + 2 + length v)]"
proof -
  let ?ks = "[length k, Suc 0, Suc 0, length v, Suc 0, Suc 0]"
  have "matches_as HEADER_FIELD (header_line (k, v) @ crlf @ t) ks \<longleftrightarrow> ks = ?ks" for ks
    using assms
    by (auto simp: HEADER_FIELD_def header_line_def matches_as_delim matches_as_one wf_key_def
        wf_value_def simp del: matches_as.simps(2))
  then have "best HEADER_FIELD (header_line (k, v) @ crlf @ t) = Some ?ks" by (rule best_unique)
  then show ?thesis by (simp add: regexec_at_start HEADER_FIELD_def)
qed

definition request_line :: "bytes \<Rightarrow> bytes \<Rightarrow> byte \<Rightarrow> byte \<Rightarrow> bytes" where
  "request_line m u major minor =
     m @ '' /'' @ u @ '' HTTP/'' @ [major, CHR ''.'', minor]"

lemma version_unique:
  assumes "is_digit a" and "is_digit b"
  shows "matches_as (Item True is_digit (Suc 0) 2 # Item False (\<lambda>_. True) (Suc 0) (Suc 0) #
      Item True is_digit (Suc 0) 2 # lit crlf) (a # CHR ''.'' # b # CR # LF # t) ks
    \<longleftrightarrow> ks = [Suc 0, Suc 0, Suc 0, Suc 0, Suc 0]"
  using assms by (auto simp: matches_as_run1 matches_as_one simp del: matches_as.simps(2))

lemma request_match:
  assumes "wf_method m" and "wf_uri u" and "is_digit a" and "is_digit b"
  shows "regexec True REQUEST_LINE (request_line m u a b @ crlf @ t) =
    Some [(0, length m + length u + 13), (0, length m),
      (length m + 2, length m + 2 + length u),
      (length m + length u + 8, length m + length u + 9),
      (length m + length u + 10, length m + length u + 11)]"
proof -
  let ?ks = "[length m, Suc 0, Suc 0, length u, Suc 0, Suc 0, Suc 0, Suc 0, Suc 0, Suc 0,
    Suc 0, Suc 0, Suc 0, Suc 0, Suc 0]"
  have "matches_as REQUEST_LINE (request_line m u a b @ crlf @ t) ks \<longleftrightarrow> ks = ?ks" for ks
    using assms
    by (auto simp: REQUEST_LINE_def request_line_def matches_as_delim matches_as_one wf_method_def
        wf_uri_def version_unique [unfolded lit_simps One_nat_def] simp del: matches_as.simps(2))
  then have "best REQUEST_LINE (request_line m u a b @ crlf @ t) = Some ?ks" by (rule best_unique)
  then show ?thesis by (simp add: regexec_at_start REQUEST_LINE_def)
qed

section \<open>The header loop on well-formed header lines\<close>

definition wf_headers :: "(bytes \<times> bytes) list \<Rightarrow> bool" where
  "wf_headers hs \<longleftrightarrow> list_all (\<lambda>h. wf_key (fst h) \<and> wf_value (snd h)) hs"

definition header_lines :: "(bytes \<times> bytes) list \<Rightarrow> bytes" where
  "header_lines hs = concat (map (\<lambda>h. header_line h @ crlf) hs)"

definition apply_headers :: "(bytes \<times> bytes) list \<Rightarrow> conn \<Rightarrow> conn" where
  "apply_headers hs c = fold (\<lambda>h. apply_header (fst h) (snd h)) hs c"

lemma apply_headers_append: "apply_headers (hs @ bl) c = apply_headers bl (apply_headers hs c)"
  by (simp add: apply_headers_def)

text \<open>A header line is used up, whatever follows it, and so are all of them.\<close>

lemma parse_headers_loop_line:
  assumes "wf_key k" and "wf_value v" and "regexec False HEADER_FIELD (drop off S) = Some
      [(i, i + (length k + length v + 4)), (i, i + length k), (i + (length k + 2), i + (length k + 2 + length v))]"
    and "drop (off + i) S = header_line (k, v) @ crlf @ t"
  shows "parse_headers_loop S off c =
    parse_headers_loop S (off + i + length (header_line (k, v) @ crlf)) (apply_header k v c)"
proof -
  have d: "drop (i + n) (drop off S) = drop n (header_line (k, v) @ crlf @ t)" for n
    using assms(4) by (metis add.assoc add.commute drop_drop)
  have k: "drop i (drop off S) = header_line (k, v) @ crlf @ t" using d [of 0] by simp
  have v: "drop (i + (length k + 2)) (drop off S) = v @ crlf @ t"
    unfolding d by (simp add: header_line_def)
  have "slice (drop off S) i (i + length k) = k"
    unfolding slice_def k by (simp add: header_line_def)
  moreover have "slice (drop off S) (i + (length k + 2)) (i + (length k + 2 + length v)) = v"
    unfolding slice_def v by simp
  moreover have "length (header_line (k, v) @ crlf) = length k + length v + 4"
    by (simp add: header_line_def)
  ultimately show ?thesis
    using assms(3) by (simp only: parse_headers_loop.simps [of S off] list.case prod.case option.case add.assoc)
qed

lemma parse_headers_loop_skip:
  assumes "wf_headers hs"
  shows "parse_headers_loop (p @ header_lines hs @ t) (length p) c =
    parse_headers_loop (p @ header_lines hs @ t) (length p + length (header_lines hs)) (apply_headers hs c)"
  using assms
proof (induction hs arbitrary: p c)
  case Nil
  then show ?case by (simp add: header_lines_def apply_headers_def)
next
  case (Cons h hs)
  obtain k v where h: "h = (k, v)" by fastforce
  let ?rest = "header_lines hs @ t"
  define S where "S = p @ header_line (k, v) @ crlf @ ?rest"
  from Cons.prems h have wf: "wf_key k" "wf_value v" "wf_headers hs" by (auto simp: wf_headers_def)
  have "parse_headers_loop S (length p) c =
      parse_headers_loop S (length p + 0 + length (header_line (k, v) @ crlf)) (apply_header k v c)"
    by (rule parse_headers_loop_line [OF wf(1,2), where t = ?rest])
      (use header_match [OF wf(1,2), of ?rest] in \<open>simp_all add: S_def\<close>)
  also have "\<dots> = parse_headers_loop ((p @ header_line (k, v) @ crlf) @ ?rest)
      (length (p @ header_line (k, v) @ crlf)) (apply_header k v c)"
    by (simp only: S_def append_assoc length_append add_0_right add.assoc)
  also have "\<dots> = parse_headers_loop ((p @ header_line (k, v) @ crlf) @ ?rest)
      (length (p @ header_line (k, v) @ crlf) + length (header_lines hs))
      (apply_headers hs (apply_header k v c))"
    by (rule Cons.IH [OF wf(3)])
  finally show ?case using h by (simp add: S_def header_lines_def apply_headers_def add.assoc)
qed

lemma parse_headers_loop_lines:
  assumes "wf_headers hs" and "regexec False HEADER_FIELD t = None"
  shows "parse_headers_loop (p @ header_lines hs @ t) (length p) c =
    (length p + length (header_lines hs), apply_headers hs c)"
proof -
  have "drop (length p + length (header_lines hs)) (p @ header_lines hs @ t) = t" by simp
  with assms(2) show ?thesis
    unfolding parse_headers_loop_skip [OF assms(1)] by (subst parse_headers_loop.simps) simp
qed

text \<open>Behind the blank line the search goes on: a line that looks like a header is used up as one.\<close>

lemma header_match_behind_blank:
  assumes "wf_key k" and "wf_value v"
  shows "regexec False HEADER_FIELD (crlf @ header_line (k, v) @ crlf @ t) =
    Some [(2, 2 + (length k + length v + 4)), (2, 2 + length k),
      (2 + (length k + 2), 2 + (length k + 2 + length v))]"
proof -
  let ?ks = "[length k, Suc 0, Suc 0, length v, Suc 0, Suc 0]" and ?s = "header_line (k, v) @ crlf @ t"
  have "matches_as HEADER_FIELD ?s ks \<longleftrightarrow> ks = ?ks" for ks
    using assms
    by (auto simp: HEADER_FIELD_def header_line_def matches_as_delim matches_as_one wf_key_def
        wf_value_def simp del: matches_as.simps(2))
  then have "best HEADER_FIELD ?s = Some ?ks" by (rule best_unique)
  moreover have "best HEADER_FIELD (c # x) = None" if "\<not> is_key_char c" for c x
    using that by (auto simp: best_None_iff HEADER_FIELD_def take_Cons' split: list.splits if_splits)
  then have "best HEADER_FIELD (CR # x) = None" "best HEADER_FIELD (LF # x) = None" for x
    by (simp_all add: class_defs)
  ultimately have "regexec_from False HEADER_FIELD (crlf @ ?s) 0 = Some (2, ?ks)"
    by (simp add: regexec_from.simps numeral_2_eq_2)
  then show ?thesis by (simp add: regexec_def HEADER_FIELD_def)
qed

lemma parse_headers_loop_body:
  assumes "wf_headers hs" and "wf_headers bl" and "bl \<noteq> []" and "regexec False HEADER_FIELD t = None"
  shows "parse_headers_loop (header_lines hs @ crlf @ header_lines bl @ t) 0 c =
    (length (header_lines hs) + 2 + length (header_lines bl), apply_headers (hs @ bl) c)"
proof -
  obtain k v bl' where bl: "bl = (k, v) # bl'" using assms(3) by (cases bl) auto
  then have wf: "wf_key k" "wf_value v" "wf_headers bl'" using assms(2) by (auto simp: wf_headers_def)
  let ?p = "header_lines hs @ crlf @ header_line (k, v) @ crlf"
  define S where "S = header_lines hs @ crlf @ header_lines bl @ t"
  have S: "S = ?p @ header_lines bl' @ t" by (simp add: S_def bl header_lines_def)
  have "parse_headers_loop S 0 c = parse_headers_loop S (length (header_lines hs)) (apply_headers hs c)"
    using parse_headers_loop_skip [OF assms(1), of "[]"] by (simp add: S_def)
  also have "\<dots> = parse_headers_loop S (length (header_lines hs) + 2 + length (header_line (k, v) @ crlf))
      (apply_header k v (apply_headers hs c))"
    by (rule parse_headers_loop_line [OF wf(1,2), where t = "header_lines bl' @ t"])
      (use header_match_behind_blank [OF wf(1,2), of "header_lines bl' @ t"] in \<open>simp_all add: S\<close>)
  also have "\<dots> = parse_headers_loop S (length ?p) (apply_header k v (apply_headers hs c))"
    by (simp add: add.assoc)
  also have "\<dots> = (length ?p + length (header_lines bl'),
      apply_headers bl' (apply_header k v (apply_headers hs c)))"
    unfolding S by (rule parse_headers_loop_lines [OF wf(3) assms(4)])
  finally show ?thesis
    by (simp add: S_def bl apply_headers_append) (simp add: apply_headers_def header_lines_def)
qed

lemma apply_headers_frame [simp]:
  "sock_in (apply_headers hs c) = sock_in c" "sock_out (apply_headers hs c) = sock_out c"
  "buffer (apply_headers hs c) = buffer c" "bytes_read (apply_headers hs c) = bytes_read c"
  "message_start (apply_headers hs c) = message_start c" "uri (apply_headers hs c) = uri c"
  "request (apply_headers hs c) = request c" "in_message (apply_headers hs c) = in_message c"
  unfolding apply_headers_def
  by (induction hs arbitrary: c) (auto simp: apply_header_def)

text \<open>The declared length and the request id: the last header of that name, else the default.\<close>

definition declared_length :: "(bytes \<times> bytes) list \<Rightarrow> int" where
  "declared_length hs =
     fold (\<lambda>h n. if fst h = ''Content-Length'' then sint (strtoull10 (snd h)) else n) hs 0"

definition declared_id :: "(bytes \<times> bytes) list \<Rightarrow> bytes" where
  "declared_id hs = fold (\<lambda>h n. if fst h = ''Request-Id'' then take 128 (snd h) else n) hs ''0''"

lemma apply_headers_fields:
  "content_length (apply_headers hs c) =
     fold (\<lambda>h n. if fst h = ''Content-Length'' then sint (strtoull10 (snd h)) else n) hs
       (content_length c)"
  "request_id (apply_headers hs c) =
     fold (\<lambda>h n. if fst h = ''Request-Id'' then take 128 (snd h) else n) hs (request_id c)"
  unfolding apply_headers_def
  by (induction hs arbitrary: c) (simp_all add: apply_header_def)

section \<open>Where the head of a request ends\<close>

lemma sublist_skip: "x \<noteq> y \<Longrightarrow> sublist (x # xs) (y # ys) \<longleftrightarrow> sublist (x # xs) ys"
  by (auto simp: sublist_Cons_right)

lemma sublist_skip_all: "x \<notin> set w \<Longrightarrow> sublist (x # xs) (w @ ys) \<longleftrightarrow> sublist (x # xs) ys"
  by (induction w) (auto simp: sublist_skip)

text \<open>Lines that are not empty and hold no CR contain no blank line.\<close>

lemma no_blank_line:
  assumes "list_all (\<lambda>l. l \<noteq> [] \<and> CR \<notin> set l) ls"
  shows "\<not> sublist (crlf @ crlf) (concat (map (\<lambda>l. l @ crlf) ls) @ [CR])"
  using assms
proof (induction ls)
  case (Cons l ls)
  then have "\<not> prefix crlf (concat (map (\<lambda>l. l @ crlf) ls) @ [CR])"
    by (cases ls; cases "hd ls") auto
  with Cons show ?case
    by (auto simp: sublist_skip_all sublist_Cons_right [of _ CR] sublist_skip)
qed (auto simp: sublist_Cons_right)

text \<open>
  Whatever way the kernel cuts the input into reads, \<open>read_until\<close> stores the whole head of a
  request of at most 4096 bytes, followed by some of the body.
\<close>

lemma read_until_head:
  assumes lines: "list_all (\<lambda>l. l \<noteq> [] \<and> CR \<notin> set l) ls"
    and head: "head = concat (map (\<lambda>l. l @ crlf) ls) @ crlf" "length head \<le> n"
    and inp: "idata s = head @ body" "hard_faults (isched s) = {}"
  shows "\<exists>b0 b1 s'. body = b0 @ b1
    \<and> read_until s n (crlf @ crlf) = (Inr (length (head @ b0)), head @ b0, s') \<and> idata s' = b1"
proof -
  obtain r buf s' where rd: "read_until s n (crlf @ crlf) = (r, buf, s')" by (metis prod_cases3)
  from rd have rdf: "read_until_from s [] n (crlf @ crlf) = (r, buf, s')"
    by (simp add: read_until_def)
  with inp(2) obtain k where r: "r = Inr k" by (cases r) (auto dest: read_until_from_Inl)
  note got = read_until_from_Inr [OF rdf [unfolded r], simplified]
  have "length head \<le> length buf"
  proof (rule ccontr)
    assume short: "\<not> length head \<le> length buf"
    from got inp have split: "head @ body = buf @ idata s'" by simp
    with short have "idata s' \<noteq> []" by (metis append.right_neutral length_append trans_le_add1 le_refl)
    with got short head(2) have found: "sublist (crlf @ crlf) buf"
      by (auto simp: needle_found_sublist)
    let ?X = "concat (map (\<lambda>l. l @ crlf) ls) @ [CR]"
    from split short have "buf = take (length buf) head"
      by (auto simp: append_eq_append_conv_if)
    also have "\<dots> = take (length buf) ?X" using short head(1) by (auto simp: take_Cons')
    finally have "prefix buf ?X" by (metis take_is_prefix)
    with found no_blank_line [OF lines] show False
      by (meson prefix_imp_sublist sublist_order.order.trans)
  qed
  with got inp obtain b0 where "buf = head @ b0" "body = b0 @ idata s'"
    by (auto simp: append_eq_append_conv2)
  with rd r got show ?thesis by auto
qed

text \<open>A body without a colon never looks like a header line.\<close>

lemma no_colon_quiet:
  assumes "CHR '':'' \<notin> set s"
  shows "regexec False HEADER_FIELD s = None"
proof -
  have "\<not> matches_as HEADER_FIELD (drop i s) ks" for i ks
  proof
    assume "matches_as HEADER_FIELD (drop i s) ks"
    then obtain k j where "j = Suc 0" "j \<le> length (drop k (drop i s))"
      and all: "list_all (\<lambda>x. x = CHR '':'') (take j (drop k (drop i s)))"
      by (auto simp: HEADER_FIELD_def split: list.splits)
    then obtain x xs where "drop k (drop i s) = x # xs" by (cases "drop k (drop i s)") auto
    with all \<open>j = Suc 0\<close> have "CHR '':'' \<in> set (drop k (drop i s))" by simp
    with assms show False by (metis in_set_dropD)
  qed
  then show ?thesis by (simp add: regexec_None_iff)
qed

section \<open>Parsing a well-formed request\<close>

text \<open>The head of a request: request line, header lines, blank line.\<close>

definition request_head ::
  "bytes \<Rightarrow> bytes \<Rightarrow> byte \<Rightarrow> byte \<Rightarrow> (bytes \<times> bytes) list \<Rightarrow> bytes" where
  "request_head m u major minor hs = request_line m u major minor @ crlf @ header_lines hs @ crlf"

lemma no_NUL_class:
  "wf_method m \<Longrightarrow> NUL \<notin> set m" "wf_uri u \<Longrightarrow> NUL \<notin> set u" "wf_key k \<Longrightarrow> NUL \<notin> set k"
  "wf_value v \<Longrightarrow> NUL \<notin> set v"
  by (auto simp: wf_method_def wf_uri_def wf_key_def wf_value_def list_all_iff)

lemma no_CR_class:
  "wf_method m \<Longrightarrow> CR \<notin> set m" "wf_uri u \<Longrightarrow> CR \<notin> set u" "wf_key k \<Longrightarrow> CR \<notin> set k"
  "wf_value v \<Longrightarrow> CR \<notin> set v"
  by (auto simp: wf_method_def wf_uri_def wf_key_def wf_value_def list_all_iff)

lemma request_head_lines:
  "request_head m u a b hs =
     concat (map (\<lambda>l. l @ crlf) (request_line m u a b # map header_line hs)) @ crlf"
  by (simp add: request_head_def header_lines_def comp_def)

lemma request_head_wf_lines:
  assumes "wf_method m" "wf_uri u" "is_digit a" "is_digit b" "wf_headers hs"
  shows "list_all (\<lambda>l. l \<noteq> [] \<and> CR \<notin> set l) (request_line m u a b # map header_line hs)"
  using assms no_CR_class
  by (auto simp: request_line_def header_line_def wf_headers_def list_all_iff)

lemma request_head_no_NUL:
  assumes "wf_method m" "wf_uri u" "is_digit a" "is_digit b" "wf_headers hs"
  shows "NUL \<notin> set (request_head m u a b hs)"
  using assms no_NUL_class
  by (auto simp: request_head_def request_line_def header_line_def header_lines_def wf_headers_def
      list_all_iff)

lemma cstr_append: "NUL \<notin> set p \<Longrightarrow> cstr (p @ t) 0 = p @ cstr t 0"
  by (simp add: cstr_def takeWhile_append)

lemma cstr_prefix: "\<exists>t. buf = cstr buf 0 @ t"
  by (metis cstr_def drop0 takeWhile_dropWhile_id)

text \<open>What \<open>process_request\<close> makes of a buffer that starts with a well-formed head.\<close>

lemma process_request_loop:
  assumes wf: "wf_method m" "wf_uri u" "is_digit a" "wf_headers hs"
    and buf: "buffer c = request_head m u a (CHR ''1'') hs @ b0"
    and loop: "\<And>c'. parse_headers_loop (header_lines hs @ crlf @ cstr b0 0) 0 c' =
      (length (header_lines hs) + n, apply_headers all c')"
  shows "process_request True True c =
    (None, apply_headers all (c\<lparr>request := method_of (m @ '' /''), uri := u,
       message_start := int (length (request_line m u a (CHR ''1''))) + 2\<rparr>)
         \<lparr>message_start := int (length (request_head m u a (CHR ''1'') hs)) + int n\<rparr>)"
proof -
  let ?rl = "request_line m u a (CHR ''1'')"
  let ?t = "header_lines hs @ crlf @ cstr b0 0"
  have d1: "is_digit (CHR ''1'')" by (simp add: is_digit_def)
  note nonul = request_head_no_NUL [OF wf(1-3) d1 wf(4)]
  have cs: "cstr (buffer c) 0 = ?rl @ crlf @ ?t"
    using nonul by (simp add: buf cstr_append) (simp add: request_head_def)
  have buf': "buffer c = ?rl @ crlf @ header_lines hs @ crlf @ b0"
    by (simp add: buf request_head_def)
  have len_rl: "length ?rl = length m + length u + 11" by (simp add: request_line_def)
  have "cstr (buffer c) (length ?rl + 2) = drop (length ?rl + 2) (cstr (buffer c) 0)"
    using cstr_drop [of "length ?rl + 2" "buffer c" 0] cs by simp
  then have cs2: "cstr (buffer c) (length ?rl + 2) = ?t" using cs by simp
  define P where "P = m @ '' /'' @ u @ '' HTTP/'' @ [a, CHR ''.'']"
  have "buffer c = P @ CHR ''1'' # crlf @ header_lines hs @ crlf @ b0"
    by (simp add: buf' request_line_def P_def)
  moreover have "length m + length u + 10 = length P" by (simp add: P_def)
  ultimately have minor:
    "drop (length m + length u + 10) (buffer c) = CHR ''1'' # crlf @ header_lines hs @ crlf @ b0"
    by simp
  have uri: "slice (buffer c) (length m + 2) (length m + 2 + length u) = u"
    by (simp add: buf' request_line_def slice_def)
  have meth: "method_of (buffer c) = method_of (m @ '' /'')"
    using wf(1) by (auto simp: method_of_def buf' request_line_def wf_method_def take_Cons')
  have "nat (13 + (int (length m) + int (length u))) = length ?rl + 2" using len_rl by simp
  with cs2 have cs3: "cstr (buffer c) (nat (13 + (int (length m) + int (length u)))) = ?t" by simp
  have ne: "u \<noteq> []" using wf(2) by (auto simp: wf_uri_def)
  show ?thesis
    using ne wf(2) cs cs3 loop uri minor meth len_rl request_match [OF wf(1-3) d1, of ?t]
    by (simp add: process_request_def validate_uri_def wf_uri_def parse_headers_def Let_def
        request_head_def)
qed

lemma process_request_head:
  assumes wf: "wf_method m" "wf_uri u" "is_digit a" "wf_headers hs"
    and buf: "buffer c = request_head m u a (CHR ''1'') hs @ b0"
    and body: "regexec False HEADER_FIELD (crlf @ cstr b0 0) = None"
  shows "process_request True True c =
    (None, apply_headers hs (c\<lparr>request := method_of (m @ '' /''), uri := u,
       message_start := int (length (request_line m u a (CHR ''1''))) + 2\<rparr>)
         \<lparr>message_start := int (length (request_head m u a (CHR ''1'') hs))\<rparr>)"
proof -
  have "parse_headers_loop (header_lines hs @ crlf @ cstr b0 0) 0 c' =
      (length (header_lines hs) + 0, apply_headers hs c')" for c'
    using parse_headers_loop_lines [OF wf(4) body, of "[]" c'] by simp
  from process_request_loop [OF wf buf this] show ?thesis by simp
qed

lemma conn_parse_wellformed:
  assumes wf: "wf_method m" "wf_uri u" "is_digit a" "wf_headers hs"
    and head: "length (request_head m u a (CHR ''1'') hs) \<le> CONN_BUFFER_SIZE"
    and body: "regexec False HEADER_FIELD (crlf @ body) = None"
    and inp: "idata sin = request_head m u a (CHR ''1'') hs @ body" "hard_faults (isched sin) = {}"
    and c: "conn_new True sin sout = Some c"
  shows "\<exists>c' b0. conn_parse True True c = (None, c')
    \<and> request c' = method_of (m @ '' /'') \<and> uri c' = u
    \<and> content_length c' = declared_length hs \<and> request_id c' = declared_id hs
    \<and> in_message c' = int (length b0) \<and> sock_out c' = sout
    \<and> slice (buffer c') (nat (message_start c')) (nat (message_start c' + in_message c')) = b0
    \<and> body = b0 @ idata (sock_in c')"
proof -
  let ?h = "request_head m u a (CHR ''1'') hs"
  have d1: "is_digit (CHR ''1'')" by (simp add: is_digit_def)
  from read_until_head [OF request_head_wf_lines [OF wf(1-3) d1 wf(4)] request_head_lines head inp]
  obtain b0 b1 s' where b: "body = b0 @ b1" "idata s' = b1"
    and rd: "read_until sin CONN_BUFFER_SIZE (crlf @ crlf) = (Inr (length (?h @ b0)), ?h @ b0, s')"
    by blast
  obtain t where "b0 = cstr b0 0 @ t" using cstr_prefix by blast
  with body b(1) have "regexec False HEADER_FIELD ((crlf @ cstr b0 0) @ t @ b1) = None"
    by (metis append_assoc)
  then have quiet: "regexec False HEADER_FIELD (crlf @ cstr b0 0) = None"
    by (rule regexec_prefix_None)
  have ne: "length (?h @ b0) \<noteq> 0" by (simp add: request_head_def)
  let ?c1 = "c\<lparr>buffer := ?h @ b0, sock_in := s', bytes_read := int (length (?h @ b0))\<rparr>"
  note pr = process_request_head [OF wf, of ?c1 b0, simplified, OF quiet [simplified]]
  from c have c': "sock_in c = sin" "sock_out c = sout" "content_length c = 0"
    "request_id c = ''0''" by (auto simp: conn_new_def)
  show ?thesis
    using rd ne c' b pr
    by (auto simp: conn_parse_def Let_def slice_def apply_headers_fields declared_length_def
        declared_id_def)
qed

text \<open>
  C15: a well-formed request of version x.1, whose head fits the 4096-byte buffer and whose body
  does not itself look like header lines, is parsed to its method, URI and header values however
  the network cuts it into reads; the buffered bytes after the head together with what is still
  unread are exactly its body.
\<close>

theorem conn_parse_request:
  assumes wf: "wf_method m" "wf_uri u" "is_digit a" "wf_headers hs"
    and head: "length (request_head m u a (CHR ''1'') hs) \<le> CONN_BUFFER_SIZE"
    and body: "regexec False HEADER_FIELD (crlf @ body) = None"
    and inp: "idata sin = request_head m u a (CHR ''1'') hs @ body" "hard_faults (isched sin) = {}"
    and c: "conn_new True sin sout = Some c"
  shows "\<exists>c' b0. conn_parse True True c = (None, c')
    \<and> request c' = method_of (m @ '' /'') \<and> uri c' = u
    \<and> content_length c' = declared_length hs \<and> request_id c' = declared_id hs
    \<and> in_message c' = int (length b0) \<and> sock_out c' = sout
    \<and> slice (buffer c') (nat (message_start c')) (nat (message_start c' + in_message c')) = b0
    \<and> body = b0 @ idata (sock_in c')"
  using assms by (rule conn_parse_wellformed)

definition sample_input :: istream where
  "sample_input = \<lparr>idata = request_head ''PUT'' ''a.txt'' (CHR ''1'') (CHR ''1'')
      [(''Content-Length'', ''2''), (''Request-Id'', ''7'')] @ ''hi'',
    isched = [Xfer 3, Fail EINTR, Xfer 40]\<rparr>"

theorem conn_parse_request_witness:
  "\<exists>c' b0. conn_parse True True
      (the (conn_new True sample_input \<lparr>odata = [], osched = []\<rparr>)) = (None, c')
    \<and> request c' = REQUEST_PUT \<and> uri c' = ''a.txt''
    \<and> content_length c' = 2 \<and> request_id c' = ''7''
    \<and> ''hi'' = b0 @ idata (sock_in c')"
proof -
  let ?hs = "[(''Content-Length'', ''2''), (''Request-Id'', ''7'')]"
  let ?c = "the (conn_new True sample_input \<lparr>odata = [], osched = []\<rparr>)"
  have c: "conn_new True sample_input \<lparr>odata = [], osched = []\<rparr> = Some ?c"
    by (simp add: conn_new_def)
  have wf: "wf_method ''PUT''" "wf_uri ''a.txt''" "is_digit (CHR ''1'')" "wf_headers ?hs"
    and head: "length (request_head ''PUT'' ''a.txt'' (CHR ''1'') (CHR ''1'') ?hs)
      \<le> CONN_BUFFER_SIZE"
    and vals: "method_of (''PUT'' @ '' /'') = REQUEST_PUT"
      "declared_length ?hs = 2" "declared_id ?hs = ''7''"
    by (simp_all add: wf_method_def wf_uri_def wf_headers_def wf_key_def wf_value_def class_defs
        request_head_def request_line_def header_lines_def header_line_def CONN_BUFFER_SIZE_def
        method_of_def declared_length_def declared_id_def strtoull10_def dec_val_def digit_val_def)
  have body: "regexec False HEADER_FIELD (crlf @ ''hi'') = None" by (rule no_colon_quiet) simp
  have inp: "idata sample_input =
      request_head ''PUT'' ''a.txt'' (CHR ''1'') (CHR ''1'') ?hs @ ''hi''"
    "hard_faults (isched sample_input) = {}"
    by (simp_all add: sample_input_def)
  from conn_parse_request [OF wf head body inp c] show ?thesis unfolding vals by blast
qed

section \<open>Bounds for arbitrary input\<close>

text \<open>
  Every field fits its C array and the buffered body lies inside the buffer. The parser keeps this
  for any bytes the client sends and any behaviour of the socket.
\<close>

definition conn_wf :: "conn \<Rightarrow> bool" where
  "conn_wf c \<longleftrightarrow>
     length (buffer c) \<le> CONN_BUFFER_SIZE
     \<and> - 1 \<le> bytes_read c \<and> bytes_read c \<le> int (length (buffer c))
     \<and> length (uri c) < 64 \<and> list_all is_uri_char (uri c)
     \<and> length (request_id c) < 129
     \<and> - (2 ^ 63) \<le> content_length c \<and> content_length c < 2 ^ 63
     \<and> (0 < in_message c \<longrightarrow>
          0 \<le> message_start c \<and> message_start c + in_message c \<le> int (length (buffer c)))"

lemma sint64_bounds: "- (2 ^ 63) \<le> sint (w :: 64 word)" "sint (w :: 64 word) < 2 ^ 63"
  using sint_greater_eq [of w] sint_less [of w] by simp_all

lemma apply_header_wf: "conn_wf c \<Longrightarrow> conn_wf (apply_header k v c)"
  using sint64_bounds [of "strtoull10 v"] by (auto simp: conn_wf_def apply_header_def)

lemma apply_header_frame [simp]:
  "buffer (apply_header k v c) = buffer c" "message_start (apply_header k v c) = message_start c"
  "in_message (apply_header k v c) = in_message c" "uri (apply_header k v c) = uri c"
  "bytes_read (apply_header k v c) = bytes_read c" "request (apply_header k v c) = request c"
  "sock_in (apply_header k v c) = sock_in c" "sock_out (apply_header k v c) = sock_out c"
  by (simp_all add: apply_header_def)

lemma parse_headers_loop_inv:
  assumes "parse_headers_loop hs off c = (off', c')" and "off \<le> length hs" and "conn_wf c"
  shows "off' \<le> length hs \<and> off \<le> off' \<and> conn_wf c' \<and> buffer c' = buffer c
    \<and> message_start c' = message_start c \<and> in_message c' = in_message c \<and> uri c' = uri c
    \<and> bytes_read c' = bytes_read c \<and> request c' = request c
    \<and> sock_in c' = sock_in c \<and> sock_out c' = sock_out c"
  using assms
proof (induction hs off c rule: parse_headers_loop.induct)
  case (1 hs off c)
  note unf = parse_headers_loop.simps [of hs off c]
  show ?case
  proof (cases "regexec False HEADER_FIELD (drop off hs)")
    case None
    with 1(2-) show ?thesis by (auto simp: unf)
  next
    case (Some ms)
    then obtain so eo kso keo vso veo where
      ms: "ms = [(so, eo), (kso, keo), (vso, veo)]" and eo: "eo \<le> length hs - off"
      using regexec_SomeD [OF Some] by (auto simp: length_Suc_conv numeral_2_eq_2)
    let ?c = "apply_header (slice (drop off hs) kso keo) (slice (drop off hs) vso veo) c"
    from 1(2) Some ms have rec: "parse_headers_loop hs (off + eo) ?c = (off', c')"
      by (simp add: unf)
    have "off + eo \<le> length hs" using eo 1(3) by simp
    with 1(1) [OF Some] ms rec apply_header_wf [OF 1(4)] show ?thesis by fastforce
  qed
qed

text \<open>What a match of the request line says about the subject.\<close>

lemma request_line_matchD:
  assumes "matches_as REQUEST_LINE s ks"
  shows "\<exists>k1 k2 k3 k4. ks = [k1, 1, 1, k2, 1, 1, 1, 1, 1, 1, k3, 1, k4, 1, 1]
    \<and> 1 \<le> k2 \<and> k2 \<le> 63 \<and> list_all is_uri_char (take k2 (drop (k1 + 2) s))
    \<and> sum_list ks = k1 + k2 + k3 + k4 + 11 \<and> sum_list ks \<le> length s"
proof -
  have len: "sum_list ks \<le> length s" using assms matches_as_bounds by blast
  from assms obtain k1 a1 where 1: "ks = k1 # a1"
    "matches_as (lit '' /'' @ Item True is_uri_char 1 63 # lit '' HTTP/'' @ Item True is_digit 1 2 #
      Item False (\<lambda>_. True) 1 1 # Item True is_digit 1 2 # lit crlf @ []) (drop k1 s) a1"
    unfolding REQUEST_LINE_def append_Nil2 by (rule matches_as_ItemE)
  from 1(2) obtain a2 where 2: "a1 = [1, 1] @ a2"
    "matches_as (Item True is_uri_char 1 63 # lit '' HTTP/'' @ Item True is_digit 1 2 #
      Item False (\<lambda>_. True) 1 1 # Item True is_digit 1 2 # lit crlf @ []) (drop (k1 + 2) s) a2"
    by (rule matches_as_litE) (simp add: numeral_2_eq_2)
  from 2(2) obtain k2 a3 where 3: "a2 = k2 # a3" "1 \<le> k2" "k2 \<le> 63"
    "list_all is_uri_char (take k2 (drop (k1 + 2) s))"
    "matches_as (lit '' HTTP/'' @ Item True is_digit 1 2 #
      Item False (\<lambda>_. True) 1 1 # Item True is_digit 1 2 # lit crlf @ []) (drop k2 (drop (k1 + 2) s)) a3"
    by (rule matches_as_ItemE)
  from 3(5) obtain a4 s4 where 4: "a3 = [1, 1, 1, 1, 1, 1] @ a4"
    "matches_as (Item True is_digit 1 2 #
      Item False (\<lambda>_. True) 1 1 # Item True is_digit 1 2 # lit crlf @ []) s4 a4"
    by (rule matches_as_litE) (simp add: numeral_eq_Suc)
  from 4(2) obtain k3 a5 s5 where 5: "a4 = k3 # a5"
    "matches_as (Item False (\<lambda>_. True) 1 1 # Item True is_digit 1 2 # lit crlf @ []) s5 a5"
    by (rule matches_as_ItemE)
  from 5(2) obtain a6 s6 where 6: "a5 = 1 # a6"
    "matches_as (Item True is_digit 1 2 # lit crlf @ []) s6 a6"
    by (rule matches_as_ItemE) (metis le_antisym)
  from 6(2) obtain k4 a7 s7 where 7: "a6 = k4 # a7" "matches_as (lit crlf @ []) s7 a7"
    by (rule matches_as_ItemE)
  from 7(2) have 8: "a7 = [1, 1]" by (rule matches_as_litE) simp
  from 1 2 3 4 5 6 7 8 len show ?thesis by simp
qed

lemma regexec_request_line:
  assumes "regexec True REQUEST_LINE s = Some ms"
  shows "\<exists>k1 k2 k3 k4. ms = [(0, k1 + k2 + k3 + k4 + 11), (0, k1), (k1 + 2, k1 + 2 + k2),
      (k1 + k2 + 8, k1 + k2 + 8 + k3), (k1 + k2 + k3 + 9, k1 + k2 + k3 + 9 + k4)]
    \<and> 1 \<le> k2 \<and> k2 \<le> 63 \<and> list_all is_uri_char (take k2 (drop (k1 + 2) s))
    \<and> k1 + k2 + k3 + k4 + 11 \<le> length s"
proof -
  from assms obtain i ks where rx: "regexec_from True REQUEST_LINE s 0 = Some (i, ks)"
    and ms: "ms = (i, i + sum_list ks) # group_spans REQUEST_LINE ks i"
    by (auto simp: regexec_def)
  from regexec_from_SomeD [OF rx] have "i = 0" and "matches_as REQUEST_LINE s ks"
    by (auto dest: best_SomeD)
  with request_line_matchD [of s ks] ms show ?thesis
    by (auto simp: REQUEST_LINE_def)
qed

lemma parse_headers_wf:
  assumes "parse_headers ok c = (r, c')" and "conn_wf c" and "in_message c = 0"
    and "0 \<le> message_start c" "message_start c \<le> int (length (buffer c))"
  shows "conn_wf c' \<and> in_message c' = 0 \<and> uri c' = uri c \<and> request c' = request c
    \<and> bytes_read c' = bytes_read c \<and> buffer c' = buffer c
    \<and> sock_in c' = sock_in c \<and> sock_out c' = sock_out c
    \<and> message_start c \<le> message_start c' \<and> message_start c' \<le> int (length (buffer c')) + 2"
proof -
  let ?hs = "cstr (buffer c) (nat (message_start c))"
  obtain off c1 where l: "parse_headers_loop ?hs 0 c = (off, c1)" by fastforce
  have "length ?hs \<le> length (buffer c) - nat (message_start c)" by (rule length_cstr_le)
  with parse_headers_loop_inv [OF l _ assms(2)] assms l show ?thesis
    by (auto simp: parse_headers_def Let_def conn_wf_def split: if_splits)
qed

lemma slice_cstr: "j \<le> length (cstr buf 0) \<Longrightarrow> slice buf i j = slice (cstr buf 0) i j"
proof -
  assume j: "j \<le> length (cstr buf 0)"
  obtain t where "buf = cstr buf 0 @ t" using cstr_prefix by blast
  then have "slice buf i j = slice (cstr buf 0 @ t) i j" by simp
  also have "\<dots> = slice (cstr buf 0) i j" using j by (simp add: slice_def)
  finally show ?thesis .
qed

lemma process_request_wf:
  assumes pr: "process_request rl hf c = (r, c')" and wf: "conn_wf c" and im: "in_message c = 0"
  shows "conn_wf c' \<and> in_message c' = 0 \<and> bytes_read c' = bytes_read c \<and> buffer c' = buffer c
    \<and> sock_in c' = sock_in c \<and> sock_out c' = sock_out c
    \<and> (r = None \<longrightarrow> uri c' \<noteq> [] \<and> 0 \<le> message_start c'
         \<and> message_start c' \<le> int (length (buffer c')) + 2)"
proof (cases "rl \<and> regexec True REQUEST_LINE (cstr (buffer c) 0) \<noteq> None")
  case False
  with pr wf im show ?thesis by (auto simp: process_request_def split: if_splits option.splits)
next
  case True
  then obtain ms where rx: "regexec True REQUEST_LINE (cstr (buffer c) 0) = Some ms" by blast
  then obtain k1 k2 k3 k4 where
    ms: "ms = [(0, k1 + k2 + k3 + k4 + 11), (0, k1), (k1 + 2, k1 + 2 + k2),
      (k1 + k2 + 8, k1 + k2 + 8 + k3), (k1 + k2 + k3 + 9, k1 + k2 + k3 + 9 + k4)]"
    and k2: "1 \<le> k2" "k2 \<le> 63"
    and chars: "list_all is_uri_char (take k2 (drop (k1 + 2) (cstr (buffer c) 0)))"
    and len: "k1 + k2 + k3 + k4 + 11 \<le> length (cstr (buffer c) 0)"
    using regexec_request_line by blast
  let ?u = "slice (buffer c) (k1 + 2) (k1 + 2 + k2)"
  have u: "?u = take k2 (drop (k1 + 2) (cstr (buffer c) 0))"
    using slice_cstr [of "k1 + 2 + k2" "buffer c" "k1 + 2"] len by (simp add: slice_def)
  with chars k2 len have uwf: "list_all is_uri_char ?u" "length ?u < 64" "?u \<noteq> []" by auto
  define c1 where "c1 = c\<lparr>request := method_of (buffer c)\<rparr>"
  define c2 where "c2 = c1\<lparr>uri := ?u\<rparr>"
  define c3 where "c3 = c2\<lparr>message_start := int (k1 + k2 + k3 + 9 + k4) + 2\<rparr>"
  have wfs: "conn_wf c1" "conn_wf c2" "conn_wf c3"
    using wf im uwf by (auto simp: c1_def c2_def c3_def conn_wf_def)
  have fr: "in_message c2 = 0" "in_message c3 = 0" "bytes_read c2 = bytes_read c"
    "bytes_read c3 = bytes_read c" "buffer c2 = buffer c" "buffer c3 = buffer c"
    "sock_in c2 = sock_in c" "sock_in c3 = sock_in c" "sock_out c2 = sock_out c"
    "sock_out c3 = sock_out c" "uri c3 = ?u"
    using im by (simp_all add: c1_def c2_def c3_def)
  have ms3: "message_start c3 \<le> int (length (buffer c3))" "0 \<le> message_start c3"
    using len length_cstr_le [of "buffer c" 0] by (simp_all add: c3_def c2_def c1_def)
  have "(c' = c2 \<and> r \<noteq> None) \<or> parse_headers hf c3 = (r, c')"
    using pr True rx ms k2 uwf fr(11)
    by (auto simp: process_request_def Let_def validate_uri_def c1_def c2_def c3_def add.commute
        split: if_splits)
  then show ?thesis
    using wfs fr ms3 uwf parse_headers_wf [of hf c3 r c'] by auto
qed

text \<open>The branches of \<open>conn_parse\<close>, by the outcome of \<open>read_until\<close> and \<open>process_request\<close>.\<close>

definition parse_read :: "conn \<Rightarrow> bytes \<Rightarrow> istream \<Rightarrow> int \<Rightarrow> conn" where
  "parse_read c buf sin n = c\<lparr>buffer := buf, sock_in := sin, bytes_read := n\<rparr>"

lemma parse_read_simps [simp]:
  "buffer (parse_read c buf sin n) = buf" "sock_in (parse_read c buf sin n) = sin"
  "bytes_read (parse_read c buf sin n) = n" "sock_out (parse_read c buf sin n) = sock_out c"
  "in_message (parse_read c buf sin n) = in_message c" "uri (parse_read c buf sin n) = uri c"
  "request (parse_read c buf sin n) = request c"
  "request_id (parse_read c buf sin n) = request_id c"
  by (simp_all add: parse_read_def)

lemma conn_parse_branches:
  "read_until (sock_in c) CONN_BUFFER_SIZE (crlf @ crlf) = (Inl e, buf, s') \<Longrightarrow>
     conn_parse rl hf c =
       (Some (if e = EAGAIN \<or> e = EWOULDBLOCK then RESPONSE_INTERNAL_SERVER_ERROR
              else RESPONSE_BAD_REQUEST), parse_read c buf s' (- 1))"
  "read_until (sock_in c) CONN_BUFFER_SIZE (crlf @ crlf) = (Inr 0, buf, s') \<Longrightarrow>
     conn_parse rl hf c = (Some RESPONSE_BAD_REQUEST, parse_read c buf s' 0)"
  "read_until (sock_in c) CONN_BUFFER_SIZE (crlf @ crlf) = (Inr n, buf, s') \<Longrightarrow> n \<noteq> 0 \<Longrightarrow>
     process_request rl hf (parse_read c buf s' (int n)) = (Some res, c2) \<Longrightarrow>
     conn_parse rl hf c = (Some res, c2)"
  "read_until (sock_in c) CONN_BUFFER_SIZE (crlf @ crlf) = (Inr n, buf, s') \<Longrightarrow> n \<noteq> 0 \<Longrightarrow>
     process_request rl hf (parse_read c buf s' (int n)) = (None, c2) \<Longrightarrow>
     conn_parse rl hf c = (None, c2\<lparr>in_message := bytes_read c2 - message_start c2\<rparr>)"
  by (simp_all add: conn_parse_def parse_read_def Let_def)

lemma parse_read_wf:
  "conn_wf c \<Longrightarrow> in_message c = 0 \<Longrightarrow> length buf \<le> CONN_BUFFER_SIZE \<Longrightarrow>
     n = - 1 \<or> n = int (length buf) \<Longrightarrow> conn_wf (parse_read c buf sin n)"
  by (auto simp: conn_wf_def parse_read_def)

lemma conn_parse_step_wf:
  assumes wf: "conn_wf c" and im: "in_message c = 0"
  shows "case conn_parse rl hf c of
      (Some res, c') \<Rightarrow> conn_wf c' \<and> in_message c' = 0 \<and> sock_out c' = sock_out c
    | (None, c') \<Rightarrow> conn_wf c' \<and> sock_out c' = sock_out c \<and> 0 < bytes_read c' \<and> uri c' \<noteq> []
        \<and> 0 \<le> message_start c' \<and> message_start c' \<le> bytes_read c' + 2
        \<and> in_message c' = bytes_read c' - message_start c'"
proof -
  obtain r buf s' where rd: "read_until (sock_in c) CONN_BUFFER_SIZE (crlf @ crlf) = (r, buf, s')"
    by (metis prod_cases3)
  have len: "length buf \<le> CONN_BUFFER_SIZE" "\<And>n. r = Inr n \<Longrightarrow> n = length buf"
    using rd by (cases r; auto dest: read_until_Inr read_until_Inl)+
  show ?thesis
  proof (cases r)
    case (Inl e)
    then show ?thesis
      using rd im parse_read_wf [OF wf im len(1)] by (simp add: conn_parse_branches(1))
  next
    case (Inr n)
    let ?c1 = "parse_read c buf s' (int n)"
    have wf1: "conn_wf ?c1" using parse_read_wf [OF wf im len(1)] len(2) [OF Inr] by simp
    show ?thesis
    proof (cases "n = 0")
      case True
      then show ?thesis using rd Inr im wf1 by (simp add: conn_parse_branches(2))
    next
      case False
      obtain p c2 where p: "process_request rl hf ?c1 = (p, c2)" by fastforce
      note w = process_request_wf [OF p wf1, simplified, OF im]
      show ?thesis
      proof (cases p)
        case (Some res)
        then show ?thesis
          using conn_parse_branches(3) [OF rd [unfolded Inr] False p [unfolded Some]] w by simp
      next
        case None
        with w len(2) [OF Inr] have "conn_wf (c2\<lparr>in_message := bytes_read c2 - message_start c2\<rparr>)"
          by (auto simp: conn_wf_def)
        then show ?thesis
          using conn_parse_branches(4) [OF rd [unfolded Inr] False p [unfolded None]] w None
            len(2) [OF Inr] False by auto
      qed
    qed
  qed
qed

lemma conn_new_fresh:
  "conn_new alloc_ok sin sout = Some c \<Longrightarrow>
     alloc_ok \<and> conn_wf c \<and> in_message c = 0 \<and> sock_in c = sin \<and> sock_out c = sout
     \<and> bytes_read c = 0 \<and> uri c = [] \<and> request_id c = ''0'' \<and> request c = REQUEST_UNSUPPORTED
     \<and> content_length c = 0"
  by (auto simp: conn_new_def conn_wf_def split: if_splits)

lemma conn_parse_reads:
  assumes wf: "conn_wf c" and im: "in_message c = 0"
    and rd: "read_until (sock_in c) CONN_BUFFER_SIZE (crlf @ crlf) = (q, buf, s')"
    and cp: "conn_parse rl hf c = (r, c')"
  shows "bytes_read c' = (case q of Inl _ \<Rightarrow> - 1 | Inr n \<Rightarrow> int n) \<and> buffer c' = buf
    \<and> sock_in c' = s'"
proof (cases q)
  case (Inl e)
  with cp conn_parse_branches(1) [OF rd [unfolded Inl], of rl hf] show ?thesis by auto
next
  case (Inr n)
  show ?thesis
  proof (cases "n = 0")
    case True
    with cp rd Inr conn_parse_branches(2) [of c buf s' rl hf] show ?thesis by auto
  next
    case False
    let ?c1 = "parse_read c buf s' (int n)"
    have "length buf \<le> CONN_BUFFER_SIZE \<and> n = length buf"
      using rd Inr by (auto dest: read_until_Inr)
    then have wf1: "conn_wf ?c1" using parse_read_wf [OF wf im] by simp
    obtain p c2 where p: "process_request rl hf ?c1 = (p, c2)" by fastforce
    from process_request_wf [OF p wf1, simplified, OF im]
    have "bytes_read c2 = int n" "buffer c2 = buf" "sock_in c2 = s'" by simp_all
    then show ?thesis
      using cp Inr conn_parse_branches(3) [OF rd [unfolded Inr] False, of rl hf _ c2]
        conn_parse_branches(4) [OF rd [unfolded Inr] False, of rl hf c2] p
      by (cases p) auto
  qed
qed

text \<open>
  C16: whatever a client sends and however the socket behaves, after \<open>conn_parse\<close> every field of
  the connection fits its array; when the request is accepted its URI is a non-empty string of
  at most 63 permitted characters and the buffered part of the body lies within the bytes read.
\<close>

theorem conn_parse_bounds:
  "case conn_new alloc_ok sin sout of
     None \<Rightarrow> \<not> alloc_ok
   | Some c \<Rightarrow>
       (case conn_parse rl hf c of
          (Some res, c') \<Rightarrow> conn_wf c' \<and> in_message c' = 0 \<and> sock_out c' = sout
        | (None, c') \<Rightarrow> conn_wf c' \<and> sock_out c' = sout \<and> 0 < bytes_read c' \<and> uri c' \<noteq> []
            \<and> 0 \<le> message_start c' \<and> message_start c' \<le> bytes_read c' + 2
            \<and> in_message c' = bytes_read c' - message_start c')"
proof (cases "conn_new alloc_ok sin sout")
  case None
  then show ?thesis by (simp add: conn_new_def split: if_splits)
next
  case (Some c)
  from conn_new_fresh [OF this] have out: "sout = sock_out c" and "conn_wf c" "in_message c = 0"
    by simp_all
  then show ?thesis using conn_parse_step_wf [of c rl hf] Some unfolding out by simp
qed

text \<open>
  C24: \<open>conn_is_empty\<close> means that the client closed without sending a byte: it never holds when
  some byte was sent or the read failed, and it holds on a plain connect and close; the parser
  answers 400 there. A timeout or another read error is answered with 500 or 400 and is not
  empty, whatever had been received before it.
\<close>

theorem conn_empty_meaning:
  assumes "conn_new True sin sout = Some c" and "conn_parse rl hf c = (r, c')"
  shows "(conn_is_empty c' \<longrightarrow> idata sin = [] \<and> r = Some RESPONSE_BAD_REQUEST)
    \<and> (idata sin = [] \<and> hard_faults (isched sin) = {} \<longrightarrow> conn_is_empty c')
    \<and> (\<forall>e. fst (read_until sin CONN_BUFFER_SIZE (crlf @ crlf)) = Inl e \<longrightarrow>
         \<not> conn_is_empty c' \<and> r = Some (if e = EAGAIN \<or> e = EWOULDBLOCK
           then RESPONSE_INTERNAL_SERVER_ERROR else RESPONSE_BAD_REQUEST))"
proof -
  note fresh = conn_new_fresh [OF assms(1)]
  obtain q buf s' where rd: "read_until sin CONN_BUFFER_SIZE (crlf @ crlf) = (q, buf, s')"
    by (metis prod_cases3)
  note rd' = rd [folded conjunct1 [OF conjunct2 [OF conjunct2 [OF conjunct2 [OF fresh]]]]]
  note ok = read_until_Inr [of sin CONN_BUFFER_SIZE "crlf @ crlf" _ buf s']
    and err = read_until_Inl [of sin CONN_BUFFER_SIZE "crlf @ crlf" _ buf s']
  show ?thesis
  proof (cases q)
    case (Inl e)
    with err rd assms(2) conn_parse_branches(1) [OF rd' [unfolded Inl], of rl hf] show ?thesis
      by (auto simp: conn_is_empty_def)
  next
    case (Inr n)
    have br: "bytes_read c' = int n"
      using conn_parse_reads [OF _ _ rd' assms(2)] fresh Inr by simp
    moreover have "n = 0 \<longrightarrow> r = Some RESPONSE_BAD_REQUEST"
      using conn_parse_branches(2) [of c buf s' rl hf] rd' Inr assms(2) by auto
    ultimately show ?thesis using ok Inr rd
      by (auto simp: conn_is_empty_def CONN_BUFFER_SIZE_def)
  qed
qed

theorem conn_empty_meaning_witness:
  "conn_is_empty (snd (conn_parse True True
     (the (conn_new True \<lparr>idata = [], isched = [Fail EINTR]\<rparr> \<lparr>odata = [], osched = []\<rparr>))))"
  using conn_empty_meaning [of "\<lparr>idata = [], isched = [Fail EINTR]\<rparr>" "\<lparr>odata = [], osched = []\<rparr>"
    "the (conn_new True \<lparr>idata = [], isched = [Fail EINTR]\<rparr> \<lparr>odata = [], osched = []\<rparr>)" True True
    _ _, OF _ surjective_pairing]
  by (simp add: conn_new_def)

end
