(* ===== verification/Connection_Transfer.thy ===== *)
theory Connection_Transfer
  imports Connection_Parse
begin

text \<open>
  What \<open>src/connection.c\<close> puts on the wire and into a file: both ways of answering a request send
  one HTTP message whose declared length is the length of its body, and a received body is stored
  byte for byte.
\<close>

section \<open>Messages\<close>

text \<open>The message format the server promises its clients.\<close>

definition http_message :: "nat \<Rightarrow> bytes \<Rightarrow> bytes \<Rightarrow> bytes" where
  "http_message code reason body =
     ''HTTP/1.1 '' @ dec_of_nat code @ '' '' @ reason @ crlf
     @ ''Content-Length: '' @ dec_of_nat (length body) @ crlf @ crlf @ body"

lemma dec_of_nat_short: "n < 10 ^ 20 \<Longrightarrow> length (dec_of_nat n) \<le> 20"
  by (rule length_dec_of_nat) simp_all

lemma length_code_str: "length (code_str r) = 3"
  by (cases r) (simp_all add: code_str_simps)

lemma length_message: "length (response_get_message r) \<le> 21"
  by (cases r) simp_all

lemma response_bytes_short: "length (response_bytes r) < CONN_BUFFER_SIZE"
proof -
  have "length (dec_of_nat (Suc (length (response_get_message r)))) \<le> 20"
    using length_message [of r] by (intro dec_of_nat_short) simp
  then show ?thesis using length_message [of r]
    by (simp add: response_bytes_def Let_def length_code_str CONN_BUFFER_SIZE_def)
qed

lemma file_header_short: "length (file_header (unat (n :: 64 word))) < CONN_BUFFER_SIZE"
proof -
  have "unat n < 2 ^ 64" using unsigned_less [where 'a = nat, of n] by simp
  then have "length (dec_of_nat (unat n)) \<le> 20" by (intro dec_of_nat_short) simp
  then show ?thesis by (simp add: file_header_def length_code_str CONN_BUFFER_SIZE_def)
qed

lemma response_bytes_message:
  "response_bytes r = http_message (unat (response_get_code r)) (response_get_message r)
     (response_get_message r @ [LF])"
  using length_message [of r]
  by (simp add: response_bytes_def http_message_def code_str_def Let_def CONN_BUFFER_SIZE_def)

lemma file_header_message:
  "file_header (length body) @ body = http_message 200 ''OK'' body"
  by (simp add: file_header_def http_message_def code_str_def)

lemma conn_send_response_eq:
  "conn_send_response c res =
     (case write_all (sock_out c) (response_bytes res) of
        (Inl _, sout) \<Rightarrow> (Some RESPONSE_INTERNAL_SERVER_ERROR, c\<lparr>sock_out := sout\<rparr>)
      | (Inr _, sout) \<Rightarrow> (None, c\<lparr>sock_out := sout\<rparr>))"
  using response_bytes_short [of res] by (simp add: conn_send_response_def)

lemma conn_send_response_cases:
  assumes "conn_send_response c res = (r, c')"
  obtains (ok) sout where "r = None" "c' = c\<lparr>sock_out := sout\<rparr>"
      "odata sout = odata (sock_out c) @ response_bytes res"
      "hard_faults (osched sout) = hard_faults (osched (sock_out c))"
  | (err) sout m where "r = Some RESPONSE_INTERNAL_SERVER_ERROR" "c' = c\<lparr>sock_out := sout\<rparr>"
      "m < length (response_bytes res)"
      "odata sout = odata (sock_out c) @ take m (response_bytes res)"
      "hard_faults (osched (sock_out c)) \<noteq> {}"
proof (cases "write_all (sock_out c) (response_bytes res)")
  case (Pair w sout)
  then show ?thesis
  proof (cases rule: sink.put_cases)
    case ok
    then show ?thesis using that(1) assms Pair by (auto simp: conn_send_response_eq)
  next
    case (err e m)
    then show ?thesis using that(2) assms Pair by (auto simp: conn_send_response_eq)
  qed
qed

text \<open>
  C19: \<open>conn_send_response\<close> sends exactly one well-formed HTTP message with the response's code
  and reason, whose body is the reason phrase and a newline and whose declared length is that of
  the body; when it reports a failure, a proper prefix of this message was sent.
\<close>

theorem conn_send_response_message:
  "case conn_send_response c res of
     (None, c') \<Rightarrow> odata (sock_out c') = odata (sock_out c)
       @ http_message (unat (response_get_code res)) (response_get_message res)
           (response_get_message res @ [LF])
   | (Some r, c') \<Rightarrow> r = RESPONSE_INTERNAL_SERVER_ERROR
       \<and> strict_prefix (odata (sock_out c')) (odata (sock_out c)
          @ http_message (unat (response_get_code res)) (response_get_message res)
              (response_get_message res @ [LF]))"
proof (cases "conn_send_response c res")
  case (Pair r c')
  show ?thesis using Pair
    by (cases rule: conn_send_response_cases)
      (auto simp: Pair response_bytes_message strict_prefix_def take_is_prefix)
qed

lemma conn_send_file_eq:
  "conn_send_file c fd count =
     (case write_all (sock_out c) (file_header (unat count)) of
        (Inl _, sout) \<Rightarrow> (Some RESPONSE_INTERNAL_SERVER_ERROR, c\<lparr>sock_out := sout\<rparr>, fd)
      | (Inr _, sout) \<Rightarrow>
          if 0 < count
          then (case pass_bytes fd sout (unat count) of
                  (Inl _, fd', sout') \<Rightarrow>
                    (Some RESPONSE_INTERNAL_SERVER_ERROR, c\<lparr>sock_out := sout'\<rparr>, fd')
                | (Inr _, fd', sout') \<Rightarrow> (None, c\<lparr>sock_out := sout'\<rparr>, fd'))
          else (None, c\<lparr>sock_out := sout\<rparr>, fd))"
  using file_header_short [of count] by (simp add: conn_send_file_def)

text \<open>What was sent, on every path: the header and then the file, or a prefix of that.\<close>

lemma conn_send_file_sent:
  assumes "conn_send_file c fd count = (r, c', fd')"
  shows "\<exists>sout. c' = c\<lparr>sock_out := sout\<rparr>
    \<and> (r = None \<longrightarrow> odata sout =
         odata (sock_out c) @ file_header (unat count) @ take (unat count) (idata fd))
    \<and> prefix (odata (sock_out c)) (odata sout)
    \<and> (r \<noteq> None \<longrightarrow> r = Some RESPONSE_INTERNAL_SERVER_ERROR \<and> prefix (odata sout)
         (odata (sock_out c) @ file_header (unat count) @ take (unat count) (idata fd))
         \<and> hard_faults (isched fd) \<union> hard_faults (osched (sock_out c)) \<noteq> {})"
proof (cases "write_all (sock_out c) (file_header (unat count))")
  case (Pair w sout)
  then show ?thesis
  proof (cases rule: sink.put_cases)
    case (err e m)
    have "prefix (take m (file_header (unat count)) )
        (file_header (unat count) @ take (unat count) (idata fd))"
      by (rule prefix_prefix [OF take_is_prefix])
    with err assms Pair show ?thesis by (auto simp: conn_send_file_eq)
  next
    case ok
    obtain q fd1 sout1 where p: "pass_bytes fd sout (unat count) = (q, fd1, sout1)"
      by (metis prod_cases3)
    show ?thesis
    proof (cases "0 < count")
      case False
      then have "unat count = 0" by (metis word_neq_0_conv unat_0)
      with False ok assms Pair show ?thesis by (auto simp: conn_send_file_eq)
    next
      case True
      show ?thesis
      proof (cases q)
        case (Inl e)
        from pass_bytes_Inl [OF p [unfolded Inl]] obtain m k where
          "m \<le> k" "k \<le> unat count" "odata sout1 = odata sout @ take m (idata fd)"
          "e \<in> hard_faults (isched fd) \<union> hard_faults (osched sout)" by blast
        moreover have "prefix (take m (idata fd)) (take (unat count) (idata fd))"
          using calculation by (metis min.absorb1 le_trans take_is_prefix take_take)
        ultimately show ?thesis using True Inl ok assms Pair p
          by (auto simp: conn_send_file_eq)
      next
        case (Inr n)
        from pass_bytes_Inr [OF p [unfolded Inr]] True Inr ok assms Pair p show ?thesis
          by (auto simp: conn_send_file_eq min_def)
      qed
    qed
  qed
qed

text \<open>
  C18: when \<open>count\<close> is the size of the file, \<open>conn_send_file\<close> sends one well-formed 200 message
  whose body is the file's content; it reports a failure only on a real read or write error, and
  then a prefix of this message was sent.
\<close>

theorem conn_send_file_message:
  assumes "unat count = length (idata fd)"
  shows "case conn_send_file c fd count of
      (None, c', fd') \<Rightarrow>
        odata (sock_out c') = odata (sock_out c) @ http_message 200 ''OK'' (idata fd)
    | (Some r, c', fd') \<Rightarrow> r = RESPONSE_INTERNAL_SERVER_ERROR
        \<and> prefix (odata (sock_out c')) (odata (sock_out c) @ http_message 200 ''OK'' (idata fd))
        \<and> hard_faults (isched fd) \<union> hard_faults (osched (sock_out c)) \<noteq> {}"
proof (cases "conn_send_file c fd count")
  case (fields r c' fd')
  from conn_send_file_sent [OF this] assms fields show ?thesis
    by (cases r) (auto simp flip: file_header_message)
qed

definition sample_conn :: conn where
  "sample_conn = the (conn_new True sample_input \<lparr>odata = [], osched = [Xfer 5, Fail EINTR]\<rparr>)"

theorem conn_send_file_message_witness:
  "\<exists>c' fd'. conn_send_file sample_conn \<lparr>idata = ''hello'', isched = []\<rparr> 5 = (None, c', fd')
     \<and> odata (sock_out c') = http_message 200 ''OK'' ''hello''"
proof (cases "conn_send_file sample_conn \<lparr>idata = ''hello'', isched = []\<rparr> 5")
  case (fields r c' fd')
  with conn_send_file_message [of 5 "\<lparr>idata = ''hello'', isched = []\<rparr>" sample_conn]
  show ?thesis by (cases r) (simp_all add: sample_conn_def conn_new_def)
qed

section \<open>Receiving a body\<close>

text \<open>The part of the body that \<open>conn_parse\<close> left in the buffer.\<close>

definition buffered :: "conn \<Rightarrow> bytes" where
  "buffered c =
     (if 0 < in_message c
      then slice (buffer c) (nat (message_start c)) (nat (message_start c + in_message c))
      else [])"

lemma conn_recv_file_eq:
  "conn_recv_file c fd =
     (case write_all fd (buffered c) of
        (Inl _, fd1) \<Rightarrow> (Some RESPONSE_INTERNAL_SERVER_ERROR, c, fd1)
      | (Inr total_written, fd1) \<Rightarrow>
          let remaining = ssize_sub (content_length c) (int total_written)
          in if 0 < remaining
             then (case pass_bytes (sock_in c) fd1 (nat remaining) of
                     (Inl _, sin, fd2) \<Rightarrow>
                       (Some RESPONSE_INTERNAL_SERVER_ERROR, c\<lparr>sock_in := sin\<rparr>, fd2)
                   | (Inr _, sin, fd2) \<Rightarrow> (None, c\<lparr>sock_in := sin\<rparr>, fd2))
             else (None, c, fd1))"
proof -
  have "write_all fd [] = (Inr 0, fd)"
    by (simp add: write_all_def write_all_from.simps)
  then show ?thesis
    by (auto simp: conn_recv_file_def buffered_def Let_def split: prod.splits sum.splits)
qed

lemma ssize_sub_exact: "in_ssize (a - b) \<Longrightarrow> ssize_sub a b = a - b"
  by (simp add: ssize_sub_def)

text \<open>What a request with a declared length is to store.\<close>

definition put_body :: "conn \<Rightarrow> bytes" where
  "put_body c =
     buffered c @ take (nat (content_length c) - length (buffered c)) (idata (sock_in c))"

lemma length_buffered: "conn_wf c \<Longrightarrow> length (buffered c) \<le> CONN_BUFFER_SIZE"
  by (auto simp: buffered_def slice_def conn_wf_def)

lemma conn_recv_file_stored:
  assumes rf: "conn_recv_file c fd = (r, c', fd')" and wf: "conn_wf c"
    and nn: "0 \<le> content_length c"
  shows "(\<exists>sin. c' = c\<lparr>sock_in := sin\<rparr>)
    \<and> (r = None \<longrightarrow> odata fd' = odata fd @ put_body c)
    \<and> (r \<noteq> None \<longrightarrow> r = Some RESPONSE_INTERNAL_SERVER_ERROR
         \<and> prefix (odata fd') (odata fd @ put_body c)
         \<and> hard_faults (isched (sock_in c)) \<union> hard_faults (osched fd) \<noteq> {})"
proof (cases "write_all fd (buffered c)")
  case (Pair w fd1)
  then show ?thesis
  proof (cases rule: sink.put_cases)
    case (err e m)
    have "prefix (take m (buffered c)) (put_body c)"
      unfolding put_body_def by (rule prefix_prefix [OF take_is_prefix])
    with err rf Pair show ?thesis
      by (auto simp: conn_recv_file_eq intro: exI [of _ "sock_in c"])
  next
    case ok
    let ?k = "length (buffered c)"
    define rem where "rem = ssize_sub (content_length c) (int ?k)"
    have rem: "rem = content_length c - int ?k"
      unfolding rem_def using wf nn length_buffered [OF wf]
      by (intro ssize_sub_exact) (auto simp: conn_wf_def in_ssize_def CONN_BUFFER_SIZE_def)
    show ?thesis
    proof (cases "0 < rem")
      case False
      then have "put_body c = buffered c" using rem by (simp add: put_body_def)
      with False ok rf Pair show ?thesis
        by (auto simp: conn_recv_file_eq Let_def simp flip: rem_def intro: exI [of _ "sock_in c"])
    next
      case True
      have n: "nat rem = nat (content_length c) - ?k" using rem by simp
      obtain q sin fd2 where p: "pass_bytes (sock_in c) fd1 (nat rem) = (q, sin, fd2)"
        by (metis prod_cases3)
      show ?thesis
      proof (cases q)
        case (Inl e)
        from pass_bytes_Inl [OF p [unfolded Inl]] obtain m j where
          e: "e \<in> hard_faults (isched (sock_in c)) \<union> hard_faults (osched fd1)"
          and mj: "m \<le> j" "j \<le> nat rem" "odata fd2 = odata fd1 @ take m (idata (sock_in c))"
          by blast
        from mj have "prefix (take m (idata (sock_in c))) (take (nat rem) (idata (sock_in c)))"
          by (metis min.absorb1 le_trans take_is_prefix take_take)
        with True Inl ok rf Pair p e mj n show ?thesis
          by (auto simp: conn_recv_file_eq Let_def put_body_def simp flip: rem_def)
      next
        case (Inr k)
        from pass_bytes_Inr [OF p [unfolded Inr]] have
          "odata fd2 = odata fd1 @ take (nat rem) (idata (sock_in c))" by (auto simp: min_def)
        with True Inr ok rf Pair p n show ?thesis
          by (auto simp: conn_recv_file_eq Let_def put_body_def simp flip: rem_def)
      qed
    qed
  qed
qed

text \<open>
  C17: for a request with a non-negative declared length, \<open>conn_recv_file\<close> appends to the file the
  buffered bytes (all of them) and then the client's next bytes up to the declared length; it
  answers 500 only on a real read or write error, and then a prefix of that has been stored.
\<close>

theorem conn_recv_file_stores:
  assumes "conn_wf c" and "0 \<le> content_length c"
  shows "let body = buffered c @ take (nat (content_length c) - length (buffered c)) (idata (sock_in c))
    in case conn_recv_file c fd of
      (None, c', fd') \<Rightarrow> odata fd' = odata fd @ body
    | (Some r, c', fd') \<Rightarrow> r = RESPONSE_INTERNAL_SERVER_ERROR \<and> prefix (odata fd') (odata fd @ body)
        \<and> hard_faults (isched (sock_in c)) \<union> hard_faults (osched fd) \<noteq> {}"
proof (cases "conn_recv_file c fd")
  case (fields r c' fd')
  from conn_recv_file_stored [OF this assms] fields show ?thesis
    by (cases r) (simp_all add: Let_def put_body_def)
qed

definition sample_put :: conn where
  "sample_put = sample_conn\<lparr>sock_in := \<lparr>idata = ''lo!'', isched = [Fail EINTR]\<rparr>,
     buffer := ''xhel'', bytes_read := 4, message_start := 1, in_message := 3,
     content_length := 5\<rparr>"

theorem conn_recv_file_stores_witness:
  "case conn_recv_file sample_put \<lparr>odata = [], osched = []\<rparr> of
      (None, c', fd') \<Rightarrow> odata fd' = ''hello''
    | (Some r, c', fd') \<Rightarrow> r = RESPONSE_INTERNAL_SERVER_ERROR \<and> prefix (odata fd') ''hello''
        \<and> hard_faults (isched (sock_in sample_put)) \<noteq> {}"
proof -
  have wf: "conn_wf sample_put" "0 \<le> content_length sample_put"
    by (simp_all add: sample_put_def sample_conn_def conn_wf_def conn_new_def CONN_BUFFER_SIZE_def)
  have body: "buffered sample_put = ''hel''" "nat (content_length sample_put) = 5"
    "idata (sock_in sample_put) = ''lo!''" "take 2 ''lo!'' = ''lo''"
    by (simp_all add: sample_put_def buffered_def slice_def)
  show ?thesis
    using conn_recv_file_stores [OF wf, of "\<lparr>odata = [], osched = []\<rparr>"]
    by (cases "conn_recv_file sample_put \<lparr>odata = [], osched = []\<rparr>"; cases "fst (conn_recv_file
          sample_put \<lparr>odata = [], osched = []\<rparr>)") (simp_all add: body Let_def)
qed

section \<open>Where the parser departs from its purpose\<close>

text \<open>A first read that is not cut up takes everything that fits the buffer.\<close>

lemma read_until_at_once:
  assumes "isched s = []" and "idata s \<noteq> []" and "length (idata s) \<le> n" and "needle_found needle (idata s)"
  shows "read_until s n needle = (Inr (length (idata s)), idata s, s\<lparr>idata := []\<rparr>)"
proof -
  have "read_retry s n = (Inr (idata s), s\<lparr>idata := []\<rparr>)"
    using assms(1,3) by (simp add: read_retry.simps [of s n] sys_read_def)
  moreover have "0 < n" using assms(2,3) by (cases n) auto
  ultimately show ?thesis using assms
    by (auto simp: read_until_def read_until_from.simps [of s "[]"])
qed

text \<open>
  C25: the header search is not confined to the head of a request. When the lines of a body arrive
  together with the head and have the shape of headers, they are taken for headers: they decide the
  declared length and the request id like the lines of the head, and they and two more bytes are
  missing from the body that is left to be stored.
\<close>

theorem body_taken_for_header:
  assumes wf: "wf_method m" "wf_uri u" "is_digit a" "wf_headers hs"
    and lines: "wf_headers bl" "bl \<noteq> []" and rest: "regexec False HEADER_FIELD rest = None"
    and inp: "idata sin = request_head m u a (CHR ''1'') hs @ header_lines bl @ rest" "isched sin = []"
      "length (idata sin) \<le> CONN_BUFFER_SIZE"
    and c: "conn_new True sin sout = Some c"
  shows "\<exists>c'. conn_parse True True c = (None, c') \<and> request c' = method_of (m @ '' /'') \<and> uri c' = u
    \<and> content_length c' = declared_length (hs @ bl) \<and> request_id c' = declared_id (hs @ bl)
    \<and> buffered c' = drop 2 rest \<and> idata (sock_in c') = []"
proof -
  let ?h = "request_head m u a (CHR ''1'') hs" and ?b0 = "header_lines bl @ rest"
  have d1: "is_digit (CHR ''1'')" by (simp add: is_digit_def)
  have "suffix (crlf @ crlf) ?h"
    by (cases hs rule: rev_cases) (auto simp: request_head_def header_lines_def suffix_def)
  then have "sublist (crlf @ crlf) ?h" by (rule suffix_imp_sublist)
  then have "needle_found (crlf @ crlf) (idata sin)"
    by (simp add: needle_found_sublist inp(1) sublist_append)
  then have rd: "read_until sin CONN_BUFFER_SIZE (crlf @ crlf) =
      (Inr (length (?h @ ?b0)), ?h @ ?b0, sin\<lparr>idata := []\<rparr>)"
    using read_until_at_once [OF inp(2) _ inp(3)] inp(1) by (simp add: request_head_def)
  have nonul: "NUL \<notin> set (header_lines bl)"
    using lines(1) no_NUL_class(3,4)
    by (auto simp: header_lines_def header_line_def wf_headers_def list_all_iff)
  obtain t where "rest = cstr rest 0 @ t" using cstr_prefix by blast
  with rest have quiet: "regexec False HEADER_FIELD (cstr rest 0) = None"
    using regexec_prefix_None by metis
  have loop: "parse_headers_loop (header_lines hs @ crlf @ cstr ?b0 0) 0 c' =
      (length (header_lines hs) + (2 + length (header_lines bl)), apply_headers (hs @ bl) c')" for c'
    unfolding cstr_append [OF nonul] using parse_headers_loop_body [OF wf(4) lines quiet] by simp
  let ?c1 = "parse_read c (?h @ ?b0) (sin\<lparr>idata := []\<rparr>) (int (length (?h @ ?b0)))"
  have ne: "length (?h @ ?b0) \<noteq> 0" by (simp add: request_head_def)
  have "buffer ?c1 = ?h @ ?b0" by simp
  note pr = process_request_loop [OF wf this loop]
  note fresh = conn_new_fresh [OF c]
  have c0: "content_length c = 0" "request_id c = ''0''" using c by (auto simp: conn_new_def)
  from conn_parse_branches(4) [OF _ ne pr] rd fresh show ?thesis
    by (auto simp: buffered_def slice_def apply_headers_fields declared_length_def declared_id_def
        parse_read_def c0 nat_add_distrib)
qed

lemma sint64: "sint (w :: 64 word) = (if 2 ^ 63 \<le> unat w then int (unat w) - 2 ^ 64 else int (unat w))"
proof -
  have w: "int (unat w) = uint w" "uint w < 2 ^ 64" using uint_lt2p [of w] by simp_all
  have "bit (uint w) 63 \<longleftrightarrow> 2 ^ 63 \<le> uint w"
  proof (cases "2 ^ 63 \<le> uint w")
    case True
    with w(2) have "uint w div 2 ^ 63 = 1" by (intro int_div_pos_eq [of _ _ _ "uint w - 2 ^ 63"]) auto
    with True show ?thesis by (simp add: bit_iff_odd)
  next
    case False
    then have "uint w div 2 ^ 63 = 0" by (intro div_pos_pos_trivial) simp_all
    with False show ?thesis by (simp add: bit_iff_odd)
  qed
  moreover have "take_bit 64 (uint w) = uint w" using w(2) by (intro take_bit_int_eq_self) simp_all
  moreover have "2 ^ 63 \<le> unat w \<longleftrightarrow> 2 ^ 63 \<le> uint w"
    unfolding w(1) [symmetric] by (metis of_nat_le_iff of_nat_numeral of_nat_power)
  ultimately show ?thesis
    by (simp add: sint_uint signed_take_bit_eq_take_bit_minus w(1))
qed

text \<open>
  C26: what happens to a PUT that declares \<open>2 ^ 63\<close> bytes or more, which is a negative number as an
  \<open>ssize_t\<close>. The subtraction of the bytes already written overflows, with undefined behaviour,
  exactly when the declared length is not more than those bytes above \<open>2 ^ 63\<close>. For every larger
  one nothing more is read from the client, and unless writing the buffered bytes failed the
  transfer counts as a success.
\<close>

theorem declared_length_overflow:
  assumes "conn_wf c" and "declared = unat (strtoull10 v)" and "2 ^ 63 \<le> declared"
    and "c' = apply_header ''Content-Length'' v c"
  shows "content_length c' < 0
    \<and> (\<not> in_ssize (content_length c' - int (length (buffered c'))) \<longleftrightarrow>
         declared < 2 ^ 63 + length (buffered c'))
    \<and> (2 ^ 63 + length (buffered c') \<le> declared \<longrightarrow>
         (case conn_recv_file c' fd of
            (None, c'', fd') \<Rightarrow> c'' = c' \<and> odata fd' = odata fd @ buffered c'
          | (Some r, c'', fd') \<Rightarrow> c'' = c' \<and> r = RESPONSE_INTERNAL_SERVER_ERROR
              \<and> strict_prefix (odata fd') (odata fd @ buffered c') \<and> hard_faults (osched fd) \<noteq> {}))"
proof -
  have "declared < 2 ^ 64" using unsigned_less [where 'a = nat, of "strtoull10 v"] assms(2) by simp
  have cl: "content_length c' = int declared - 2 ^ 64"
    using assms(2,3) by (simp add: assms(4) apply_header_def sint64)
  with \<open>declared < 2 ^ 64\<close> have neg: "content_length c' < 0" by simp
  have over: "\<not> in_ssize (content_length c' - int (length (buffered c'))) \<longleftrightarrow>
      declared < 2 ^ 63 + length (buffered c')"
    using neg cl by (auto simp: in_ssize_def)
  have "case conn_recv_file c' fd of
      (None, c'', fd') \<Rightarrow> c'' = c' \<and> odata fd' = odata fd @ buffered c'
    | (Some r, c'', fd') \<Rightarrow> c'' = c' \<and> r = RESPONSE_INTERNAL_SERVER_ERROR
        \<and> strict_prefix (odata fd') (odata fd @ buffered c') \<and> hard_faults (osched fd) \<noteq> {}"
    if "2 ^ 63 + length (buffered c') \<le> declared"
  proof -
    have rem: "\<not> 0 < ssize_sub (content_length c') (int (length (buffered c')))"
      using over that neg by (auto simp: ssize_sub_exact)
    show ?thesis
    proof (cases "write_all fd (buffered c')")
      case (Pair w fd1)
      then show ?thesis
      proof (cases rule: sink.put_cases)
        case ok
        with Pair rem show ?thesis by (simp add: conn_recv_file_eq)
      next
        case (err e m)
        with Pair show ?thesis
          by (auto simp: conn_recv_file_eq strict_prefix_def take_is_prefix)
      qed
    qed
  qed
  with neg over show ?thesis by blast
qed

text \<open>A body of one line that looks like a header, and a PUT that declares all bits set.\<close>

theorem body_taken_for_header_witness:
  "\<exists>c'. conn_parse True True (the (conn_new True
      \<lparr>idata = request_head ''PUT'' ''a'' (CHR ''1'') (CHR ''1'') [] @ header_lines [(''Request-Id'', ''9'')]
         @ ''data'', isched = []\<rparr> \<lparr>odata = [], osched = []\<rparr>)) = (None, c')
     \<and> request_id c' = ''9'' \<and> buffered c' = ''ta''"
proof -
  let ?bl = "[(''Request-Id'', ''9'')]"
  let ?i = "\<lparr>idata = request_head ''PUT'' ''a'' (CHR ''1'') (CHR ''1'') [] @ header_lines ?bl @ ''data'',
    isched = []\<rparr>" and ?o = "\<lparr>odata = [], osched = []\<rparr> :: ostream"
  have wf: "wf_method ''PUT''" "wf_uri ''a''" "is_digit (CHR ''1'')" "wf_headers []" "wf_headers ?bl"
    and len: "length (idata ?i) \<le> CONN_BUFFER_SIZE"
    by (simp_all add: wf_method_def wf_uri_def wf_headers_def wf_key_def wf_value_def class_defs
        request_head_def request_line_def header_lines_def header_line_def CONN_BUFFER_SIZE_def)
  have quiet: "regexec False HEADER_FIELD ''data'' = None" by (rule no_colon_quiet) simp
  have c: "conn_new True ?i ?o = Some (the (conn_new True ?i ?o))" by (simp add: conn_new_def)
  have bl: "?bl \<noteq> []" "idata ?i = request_head ''PUT'' ''a'' (CHR ''1'') (CHR ''1'') [] @ header_lines ?bl @ ''data''"
    "isched ?i = []" by simp_all
  have id: "declared_id ([] @ ?bl) = ''9''" by (simp add: declared_id_def)
  from body_taken_for_header [OF wf bl(1) quiet bl(2,3) len c] show ?thesis
    unfolding id by (auto simp: numeral_2_eq_2)
qed

theorem declared_length_overflow_witness:
  "content_length (apply_header ''Content-Length'' ''18446744073709551615'' sample_put) < 0"
proof -
  have wf: "conn_wf sample_put"
    by (simp add: sample_put_def sample_conn_def conn_wf_def conn_new_def CONN_BUFFER_SIZE_def)
  have "(2 :: nat) ^ 63 \<le> unat (strtoull10 ''18446744073709551615'')"
    by (simp add: strtoull10_def class_defs dec_val_def digit_val_def)
  from declared_length_overflow [OF wf refl this refl] show ?thesis by blast
qed

end
