(* ===== verification/Audit_Log.thy ===== *)
theory Audit_Log
  imports Req_Resp
begin

text \<open>
  The audit log of \<open>src/log.c\<close>: the stream variable, the format of a line, the three operations,
  and the writers' protocol (mutex, one \<open>fprintf\<close>, \<open>fflush\<close>, unlock) as a transition system in
  which the bytes of a line reach the stream one by one.
\<close>

section \<open>The module state and its operations\<close>

datatype stream = Stderr | LogFile

text \<open>\<open>log_stream\<close> is \<open>None\<close> for NULL. The outputs are what \<open>fflush\<close> has handed to the kernel.\<close>

record audit_log =
  log_stream :: "stream option"
  stderr_out :: bytes
  file_out :: bytes
  file_closed :: bool

definition log_static :: audit_log where
  "log_static = \<lparr>log_stream = None, stderr_out = [], file_out = [], file_closed = False\<rparr>"

definition log_init :: "stream option \<Rightarrow> audit_log \<Rightarrow> audit_log" where
  "log_init s l = l\<lparr>log_stream := (case s of Some x \<Rightarrow> Some x | None \<Rightarrow> Some Stderr)\<rparr>"

text \<open>The format \<open>%s,%s,%d,%s\<close> and a newline.\<close>

definition audit_line :: "bytes \<Rightarrow> bytes \<Rightarrow> nat \<Rightarrow> bytes \<Rightarrow> bytes" where
  "audit_line oper u status rid =
     oper @ '','' @ u @ '','' @ dec_of_nat status @ '','' @ rid @ [LF]"

definition log_audit :: "bytes \<Rightarrow> bytes \<Rightarrow> nat \<Rightarrow> bytes \<Rightarrow> audit_log \<Rightarrow> audit_log" where
  "log_audit oper u status rid l =
     (case log_stream l of
        None \<Rightarrow> l
      | Some Stderr \<Rightarrow> l\<lparr>stderr_out := stderr_out l @ audit_line oper u status rid\<rparr>
      | Some LogFile \<Rightarrow> l\<lparr>file_out := file_out l @ audit_line oper u status rid\<rparr>)"

definition log_close :: "audit_log \<Rightarrow> audit_log" where
  "log_close l =
     (if log_stream l \<noteq> None \<and> log_stream l \<noteq> Some Stderr
      then l\<lparr>file_closed := True, log_stream := None\<rparr> else l)"

text \<open>What a reader of the log sees.\<close>

definition log_content :: "audit_log \<Rightarrow> bytes" where
  "log_content l = (case log_stream l of Some LogFile \<Rightarrow> file_out l | _ \<Rightarrow> stderr_out l)"

lemma log_audit_content [simp]:
  "log_stream l \<noteq> None \<Longrightarrow>
     log_content (log_audit oper u status rid l) = log_content l @ audit_line oper u status rid"
  by (auto simp: log_content_def log_audit_def split: stream.splits)

lemma log_audit_stream [simp]: "log_stream (log_audit oper u status rid l) = log_stream l"
  by (auto simp: log_audit_def split: option.splits stream.splits)

lemma log_init_stream [simp]: "log_stream (log_init s l) \<noteq> None"
  by (auto simp: log_init_def split: option.splits)

section \<open>Reading the log back\<close>

text \<open>A line is determined by its fields when these hold no comma and no newline.\<close>

definition plain_field :: "bytes \<Rightarrow> bool" where
  "plain_field s \<longleftrightarrow> CHR '','' \<notin> set s \<and> LF \<notin> set s"

lemma delim_inj:
  "c \<notin> set xs \<Longrightarrow> c \<notin> set xs' \<Longrightarrow> xs @ c # ys = xs' @ c # ys' \<longleftrightarrow> xs = xs' \<and> ys = ys'"
proof (induction xs arbitrary: xs')
  case Nil
  then show ?case by (cases xs') auto
next
  case (Cons x xs)
  then show ?case by (cases xs') auto
qed

lemma plain_dec_of_nat: "plain_field (dec_of_nat n)"
proof -
  have "c \<noteq> CHR '','' \<and> c \<noteq> LF" if "c \<in> set (dec_of_nat n)" for c
    using dec_of_nat_digits [OF that] by (auto simp: is_digit_def)
  then show ?thesis by (auto simp: plain_field_def)
qed

lemma audit_line_append_inj:
  assumes "plain_field o1" "plain_field u1" "plain_field r1"
    and "plain_field o2" "plain_field u2" "plain_field r2"
    and "audit_line o1 u1 s1 r1 @ t1 = audit_line o2 u2 s2 r2 @ t2"
  shows "o1 = o2 \<and> u1 = u2 \<and> s1 = s2 \<and> r1 = r2 \<and> t1 = t2"
  using assms plain_dec_of_nat [of s1] plain_dec_of_nat [of s2]
  by (auto simp: audit_line_def plain_field_def delim_inj dest: dec_of_nat_inj)

record audit_entry =
  a_oper :: bytes
  a_uri :: bytes
  a_status :: nat
  a_rid :: bytes

definition entry_line :: "audit_entry \<Rightarrow> bytes" where
  "entry_line e = audit_line (a_oper e) (a_uri e) (a_status e) (a_rid e)"

definition plain_entry :: "audit_entry \<Rightarrow> bool" where
  "plain_entry e \<longleftrightarrow> plain_field (a_oper e) \<and> plain_field (a_uri e) \<and> plain_field (a_rid e)"

lemma entry_line_nonempty: "entry_line e \<noteq> []"
  by (simp add: entry_line_def audit_line_def)

lemma log_decode_unique:
  assumes "list_all plain_entry es" and "list_all plain_entry es'"
    and "concat (map entry_line es) = concat (map entry_line es')"
  shows "es = es'"
  using assms
proof (induction es arbitrary: es')
  case Nil
  then show ?case using entry_line_nonempty by (cases es') auto
next
  case (Cons e es)
  then obtain e' es'' where es': "es' = e' # es''"
    using entry_line_nonempty [of e] by (cases es') auto
  from Cons.prems es' have "a_oper e = a_oper e' \<and> a_uri e = a_uri e' \<and> a_status e = a_status e'
      \<and> a_rid e = a_rid e' \<and> concat (map entry_line es) = concat (map entry_line es'')"
    by (intro audit_line_append_inj)
      (auto simp: plain_entry_def entry_line_def [of e] entry_line_def [of e'])
  with Cons es' show ?case by auto
qed

section \<open>Concurrent writers\<close>

text \<open>
  A thread that calls \<open>log_audit\<close> waits for \<open>log_mu\<close>, tests the stream, then its line reaches the
  stream byte by byte, then it unlocks; a thread that calls \<open>log_close\<close> clears the stream under the
  same mutex. Two histories are kept: \<open>taken\<close>, the lines of the calls of \<open>log_audit\<close> in the order in
  which they got the mutex, and \<open>done_lines\<close>, the lines that were flushed.
\<close>

datatype log_pc =
    LIdle | LLock bytes | LCheck bytes | LPrint bytes bytes | LUnlock | CLock | CClose
  \<comment> \<open>\<open>LPrint done rest\<close>: these bytes of the line are out, these are not\<close>

record log_sys =
  out_bytes :: bytes
  cur_stream :: "stream option"
  log_mu :: "nat option"
  log_pcs :: "nat \<Rightarrow> log_pc"
  taken :: "bytes list"
  done_lines :: "bytes list"

definition log_sys_init :: "log_sys \<Rightarrow> bool" where
  "log_sys_init s \<longleftrightarrow> out_bytes s = [] \<and> log_mu s = None \<and> (\<forall>t. log_pcs s t = LIdle)
     \<and> taken s = [] \<and> done_lines s = []"

inductive log_step :: "log_sys \<Rightarrow> log_sys \<Rightarrow> bool" where
  call: "log_pcs s t = LIdle \<Longrightarrow>
    log_step s (s\<lparr>log_pcs := (log_pcs s)(t := LLock (audit_line oper u status rid))\<rparr>)"
| lock: "log_pcs s t = LLock line \<Longrightarrow> log_mu s = None \<Longrightarrow>
    log_step s (s\<lparr>log_mu := Some t, log_pcs := (log_pcs s)(t := LCheck line),
                   taken := taken s @ [line]\<rparr>)"
| closed: "log_pcs s t = LCheck line \<Longrightarrow> cur_stream s = None \<Longrightarrow>
    log_step s (s\<lparr>log_pcs := (log_pcs s)(t := LUnlock)\<rparr>)"
| opened: "log_pcs s t = LCheck line \<Longrightarrow> cur_stream s \<noteq> None \<Longrightarrow>
    log_step s (s\<lparr>log_pcs := (log_pcs s)(t := LPrint [] line)\<rparr>)"
| print: "log_pcs s t = LPrint d (b # r) \<Longrightarrow>
    log_step s (s\<lparr>out_bytes := out_bytes s @ [b],
                   log_pcs := (log_pcs s)(t := LPrint (d @ [b]) r)\<rparr>)"
| flush: "log_pcs s t = LPrint d [] \<Longrightarrow>
    log_step s (s\<lparr>done_lines := done_lines s @ [d], log_pcs := (log_pcs s)(t := LUnlock)\<rparr>)"
| unlock: "log_pcs s t = LUnlock \<Longrightarrow>
    log_step s (s\<lparr>log_mu := None, log_pcs := (log_pcs s)(t := LIdle)\<rparr>)"
| close_call: "log_pcs s t = LIdle \<Longrightarrow> log_step s (s\<lparr>log_pcs := (log_pcs s)(t := CLock)\<rparr>)"
| close_lock: "log_pcs s t = CLock \<Longrightarrow> log_mu s = None \<Longrightarrow>
    log_step s (s\<lparr>log_mu := Some t, log_pcs := (log_pcs s)(t := CClose)\<rparr>)"
| close: "log_pcs s t = CClose \<Longrightarrow>
    log_step s (s\<lparr>cur_stream := (if cur_stream s = Some LogFile then None else cur_stream s),
                   log_pcs := (log_pcs s)(t := LUnlock)\<rparr>)"

fun in_log :: "log_pc \<Rightarrow> bool" where
  "in_log LIdle = False"
| "in_log (LLock _) = False"
| "in_log CLock = False"
| "in_log _ = True"

fun partial_line :: "log_pc \<Rightarrow> bytes" where
  "partial_line (LPrint d _) = d"
| "partial_line _ = []"

text \<open>The line a thread is busy with.\<close>

fun pending_line :: "log_pc \<Rightarrow> bytes option" where
  "pending_line (LLock l) = Some l"
| "pending_line (LCheck l) = Some l"
| "pending_line (LPrint d r) = Some (d @ r)"
| "pending_line _ = None"

text \<open>The line of the call that has the mutex and has not been flushed or dropped.\<close>

definition held_line :: "log_sys \<Rightarrow> bytes list" where
  "held_line s = (case log_mu s of
     None \<Rightarrow> []
   | Some t \<Rightarrow> (case pending_line (log_pcs s t) of None \<Rightarrow> [] | Some l \<Rightarrow> [l]))"

definition is_audit_line :: "bytes \<Rightarrow> bool" where
  "is_audit_line l \<longleftrightarrow> (\<exists>oper u status rid. l = audit_line oper u status rid)"

definition log_inv :: "log_sys \<Rightarrow> bool" where
  "log_inv s \<longleftrightarrow> (\<forall>t. in_log (log_pcs s t) \<longleftrightarrow> log_mu s = Some t)
     \<and> (\<forall>t d r. log_pcs s t = LPrint d r \<longrightarrow> cur_stream s \<noteq> None)
     \<and> (\<forall>t l. pending_line (log_pcs s t) = Some l \<longrightarrow> is_audit_line l)
     \<and> (\<forall>l \<in> set (done_lines s). is_audit_line l)
     \<and> prefix (done_lines s) (taken s)
     \<and> (cur_stream s \<noteq> None \<longrightarrow> taken s = done_lines s @ held_line s)
     \<and> out_bytes s = concat (done_lines s)
         @ (case log_mu s of None \<Rightarrow> [] | Some t \<Rightarrow> partial_line (log_pcs s t))"

lemma log_inv_holder:
  "log_inv s \<Longrightarrow> (in_log (log_pcs s t) \<longrightarrow> log_mu s = Some t)
     \<and> (\<not> in_log (log_pcs s t) \<longrightarrow> log_mu s \<noteq> Some t)
     \<and> (\<forall>l. pending_line (log_pcs s t) = Some l \<longrightarrow> is_audit_line l)"
  by (auto simp: log_inv_def)

lemma held_line_upd:
  "log_mu s \<noteq> Some t \<Longrightarrow> held_line (s\<lparr>log_pcs := (log_pcs s)(t := p)\<rparr>) = held_line s"
  "held_line (s\<lparr>log_mu := Some t, log_pcs := (log_pcs s)(t := p)\<rparr>) =
     (case pending_line p of None \<Rightarrow> [] | Some l \<Rightarrow> [l])"
  by (auto simp: held_line_def split: option.splits)

lemma log_step_inv: "log_step s s' \<Longrightarrow> log_inv s \<Longrightarrow> log_inv s'"
proof (induction rule: log_step.induct)
  case (call s t oper u status rid)
  then have "log_mu s \<noteq> Some t" using log_inv_holder [of s t] by simp
  moreover have "is_audit_line (audit_line oper u status rid)" by (auto simp: is_audit_line_def)
  ultimately show ?case using call
    by (auto simp: log_inv_def held_line_upd split: option.splits)
next
  case (close s t)
  then have mu: "log_mu s = Some t" using log_inv_holder [of s t] by simp
  have "log_pcs s t' \<noteq> LPrint d r" for t' d r
    using close mu log_inv_holder [of s t'] by (cases "t' = t") auto
  with close mu show ?case by (simp add: log_inv_def held_line_def)
next
  case (lock s t line)
  with log_inv_holder [of s t] show ?case
    by (auto simp: log_inv_def held_line_def prefix_def split: option.splits)
next
  case (closed s t line)
  with log_inv_holder [of s t] show ?case
    by (auto simp: log_inv_def split: option.splits)
next
  case (opened s t line)
  with log_inv_holder [of s t] show ?case
    by (auto simp: log_inv_def held_line_def split: option.splits)
next
  case (print s t d b r)
  with log_inv_holder [of s t] show ?case
    by (auto simp: log_inv_def held_line_def split: option.splits)
next
  case (flush s t d)
  with log_inv_holder [of s t] show ?case
    by (auto simp: log_inv_def held_line_def split: option.splits)
next
  case (unlock s t)
  with log_inv_holder [of s t] show ?case
    by (auto simp: log_inv_def held_line_def split: option.splits)
next
  case (close_call s t)
  with log_inv_holder [of s t] show ?case
    by (auto simp: log_inv_def held_line_upd split: option.splits)
next
  case (close_lock s t)
  with log_inv_holder [of s t] show ?case
    by (auto simp: log_inv_def held_line_def split: option.splits)
qed

interpretation log_writers: invariant_system log_sys_init log_step log_inv
  by (unfold_locales, simp add: log_inv_def log_sys_init_def held_line_def, rule log_step_inv)

text \<open>
  C23: lines of concurrent writers never interleave, whatever calls of \<open>log_audit\<close> and \<open>log_close\<close>
  overlap: in every reachable state the stream holds complete audit lines, followed by a part of
  one line of the thread that holds the mutex; when the mutex is free, it holds complete lines
  only. The lines stand in the order in which their writers took the mutex: they are the first ones
  of that order, and as long as the log is not closed only the line of the thread that has the mutex
  is missing. No thread ever prints to a closed stream.
\<close>

theorem log_lines_atomic:
  assumes "log_sys_init s" and "log_step\<^sup>*\<^sup>* s s'"
  shows "(\<exists>part. out_bytes s' = concat (done_lines s') @ part
      \<and> (log_mu s' = None \<longrightarrow> part = [])
      \<and> (part \<noteq> [] \<longrightarrow> (\<exists>t rest. log_mu s' = Some t \<and> log_pcs s' t = LPrint part rest)))
    \<and> (\<forall>l \<in> set (done_lines s'). is_audit_line l)
    \<and> prefix (done_lines s') (taken s')
    \<and> (cur_stream s' \<noteq> None \<longrightarrow> taken s' = done_lines s' @ held_line s')
    \<and> (\<forall>t d r. log_pcs s' t = LPrint d r \<longrightarrow> cur_stream s' \<noteq> None)"
proof -
  have inv: "log_inv s'" using assms by (rule log_writers.reach_inv)
  moreover have "\<exists>part. out_bytes s' = concat (done_lines s') @ part
      \<and> (log_mu s' = None \<longrightarrow> part = [])
      \<and> (part \<noteq> [] \<longrightarrow> (\<exists>t rest. log_mu s' = Some t \<and> log_pcs s' t = LPrint part rest))"
  proof (cases "log_mu s'")
    case None
    with inv show ?thesis by (simp add: log_inv_def)
  next
    case (Some t)
    with inv show ?thesis by (cases "log_pcs s' t") (auto simp: log_inv_def)
  qed
  ultimately show ?thesis by (auto simp: log_inv_def)
qed

definition log_state :: "bytes \<Rightarrow> nat option \<Rightarrow> log_pc \<Rightarrow> log_sys" where
  "log_state out mu p = \<lparr>out_bytes = out, cur_stream = Some LogFile, log_mu = mu,
     log_pcs = (\<lambda>_. LIdle)(0 := p),
     taken = (case mu of None \<Rightarrow> [] | Some _ \<Rightarrow> [audit_line ''GET'' ''a'' 200 ''7'']), done_lines = []\<rparr>"

lemma log_run:
  "log_step\<^sup>*\<^sup>* (log_state [] None LIdle)
     (log_state ''G'' (Some 0) (LPrint ''G'' (tl (audit_line ''GET'' ''a'' 200 ''7''))))"
proof -
  let ?l = "audit_line ''GET'' ''a'' 200 ''7''"
  have l: "?l = CHR ''G'' # tl ?l" by (simp add: audit_line_def)
  have 1: "log_step (log_state [] None LIdle) (log_state [] None (LLock ?l))"
    using log_step.call [of "log_state [] None LIdle" 0] by (simp add: log_state_def)
  have 2: "log_step (log_state [] None (LLock ?l)) (log_state [] (Some 0) (LCheck ?l))"
    using log_step.lock [of "log_state [] None (LLock ?l)" 0] by (simp add: log_state_def)
  have 3: "log_step (log_state [] (Some 0) (LCheck ?l)) (log_state [] (Some 0) (LPrint [] ?l))"
    using log_step.opened [of "log_state [] (Some 0) (LCheck ?l)" 0] by (simp add: log_state_def)
  have 4: "log_step (log_state [] (Some 0) (LPrint [] ?l))
      (log_state ''G'' (Some 0) (LPrint ''G'' (tl ?l)))"
    using log_step.print [of "log_state [] (Some 0) (LPrint [] ?l)" 0 "[]" "CHR ''G''" "tl ?l"] l
    by (simp add: log_state_def)
  show ?thesis
    by (rule converse_rtranclp_into_rtranclp [OF 1 converse_rtranclp_into_rtranclp
          [OF 2 converse_rtranclp_into_rtranclp [OF 3 r_into_rtranclp [where r = log_step, OF 4]]]])
qed

theorem log_lines_atomic_witness:
  "(\<exists>part t rest. part \<noteq> [] \<and>
     log_pcs (log_state ''G'' (Some 0) (LPrint ''G'' (tl (audit_line ''GET'' ''a'' 200 ''7'')))) t
       = LPrint part rest)
   \<and> held_line (log_state ''G'' (Some 0) (LPrint ''G'' (tl (audit_line ''GET'' ''a'' 200 ''7''))))
       = [audit_line ''GET'' ''a'' 200 ''7'']"
proof -
  have "log_sys_init (log_state [] None LIdle)" by (simp add: log_sys_init_def log_state_def)
  from log_lines_atomic [OF this log_run] show ?thesis by (auto simp: log_state_def)
qed

end
