(* ===== verification/Http_Server.thy ===== *)
theory Http_Server
  imports Connection_Transfer Audit_Log
begin

text \<open>
  The request handlers of \<open>src/httpserver.c\<close>: the lock directory and the per-URI lockfiles, the GET
  and PUT handlers with every early return, the audit write and the handling of one connection.
  The handlers act on a world (files, lock directory, audit log, open descriptors) and record the
  effects in the order in which they happen; what the kernel decides (failures of the calls, how
  transfers are cut up) is given by an environment record, so each handler is a function.
\<close>

section \<open>Files, kernel decisions and the world\<close>

text \<open>A regular file has its content and says whether the server may read and write it.\<close>

datatype fnode = Regular bytes bool bool | Directory

datatype lock_op = LOCK_SH | LOCK_EX

text \<open>The calls a handler makes under a lock or without it; a call on a file is recorded whether it
  succeeds or fails.\<close>

datatype event =
    EvLock bytes lock_op | EvUnlock bytes
  | EvOpen bytes | EvStat bytes | EvClose bytes | EvAccess bytes | EvTrunc bytes | EvWrite bytes
  | EvSend Response | EvSendFile bytes | EvAudit audit_entry

text \<open>\<open>resolve\<close> is the kernel's path resolution: URIs with the same value name the same file.\<close>

record world =
  files :: "bytes \<Rightarrow> fnode option"
  resolve :: "bytes \<Rightarrow> bytes"
  lock_dir :: bytes
  alog :: audit_log
  open_fds :: int
  trace :: "event list"

record kenv =
  k_alloc :: bool                  \<comment> \<open>\<open>calloc\<close> in \<open>conn_new\<close> succeeds\<close>
  k_regcomp_line :: bool           \<comment> \<open>\<open>regcomp\<close> of the request line\<close>
  k_regcomp_header :: bool         \<comment> \<open>\<open>regcomp\<close> of the header pattern\<close>
  k_lock_open :: "errno option"    \<comment> \<open>failure of \<open>open\<close> on the lockfile\<close>
  k_flock :: "errno list"          \<comment> \<open>failures of \<open>flock\<close> before it succeeds\<close>
  k_open :: "errno option"         \<comment> \<open>failure of \<open>open\<close> on the target besides those the file decides\<close>
  k_fstat :: bool
  k_ftruncate :: bool
  k_rsched :: "io_ev list"         \<comment> \<open>schedule of reads from the target\<close>
  k_wsched :: "io_ev list"         \<comment> \<open>schedule of writes to the target\<close>

definition record_ev :: "event \<Rightarrow> world \<Rightarrow> world" where
  "record_ev e w = w\<lparr>trace := trace w @ [e]\<rparr>"

definition file_at :: "world \<Rightarrow> bytes \<Rightarrow> fnode option" where
  "file_at w u = files w (resolve w u)"

definition set_file :: "bytes \<Rightarrow> fnode \<Rightarrow> world \<Rightarrow> world" where
  "set_file u n w = w\<lparr>files := (files w)(resolve w u \<mapsto> n)\<rparr>"

text \<open>\<open>open(uri, O_RDONLY)\<close>; a directory opens.\<close>

definition sys_open_rd :: "kenv \<Rightarrow> bytes \<Rightarrow> world \<Rightarrow> (errno + fnode) \<times> world" where
  "sys_open_rd env u w\<^sub>0 =
     (let w = record_ev (EvOpen u) w\<^sub>0
      in case k_open env of
        Some e \<Rightarrow> (Inl e, w)
      | None \<Rightarrow>
          (case file_at w u of
             None \<Rightarrow> (Inl ENOENT, w)
           | Some (Regular d rd wr) \<Rightarrow>
               if rd then (Inr (Regular d rd wr), w\<lparr>open_fds := open_fds w + 1\<rparr>)
               else (Inl EACCES, w)
           | Some Directory \<Rightarrow> (Inr Directory, w\<lparr>open_fds := open_fds w + 1\<rparr>)))"

text \<open>\<open>open(uri, O_CREAT | O_WRONLY, 0600)\<close>; a missing file is created empty, a directory is
  refused.\<close>

definition sys_open_creat :: "kenv \<Rightarrow> bytes \<Rightarrow> world \<Rightarrow> (errno + fnode) \<times> world" where
  "sys_open_creat env u w\<^sub>0 =
     (let w = record_ev (EvOpen u) w\<^sub>0
      in case k_open env of
        Some e \<Rightarrow> (Inl e, w)
      | None \<Rightarrow>
          (case file_at w u of
             None \<Rightarrow> (Inr (Regular [] True True),
               set_file u (Regular [] True True) (w\<lparr>open_fds := open_fds w + 1\<rparr>))
           | Some (Regular d rd wr) \<Rightarrow>
               if wr then (Inr (Regular d rd wr), w\<lparr>open_fds := open_fds w + 1\<rparr>)
               else (Inl EACCES, w)
           | Some Directory \<Rightarrow> (Inl EISDIR, w)))"

definition sys_close :: "bytes \<Rightarrow> world \<Rightarrow> world" where
  "sys_close u w = record_ev (EvClose u) (w\<lparr>open_fds := open_fds w - 1\<rparr>)"

section \<open>The lock directory and the lockfiles\<close>

text \<open>The name \<open>lockdir_init\<close> prints into the 96-byte \<open>lock_dir\<close>.\<close>

definition lock_dir_name :: "64 word \<Rightarrow> 64 word \<Rightarrow> bytes" where
  "lock_dir_name dev ino =
     take 95 (''/tmp/.httpserver.locks.'' @ dec_of_nat (unat dev) @ ''.'' @ dec_of_nat (unat ino))"

text \<open>
  What a name in the world-writable \<open>/tmp\<close> can stand for: a directory, another file, or a symbolic
  link with its target; each has an owner. \<open>lstat\<close> looks at the name itself, \<open>stat\<close> at what it leads
  to, over at most 40 links.
\<close>

datatype inode = IDir nat | IFile nat | ILink bytes nat

type_synonym names = "bytes \<Rightarrow> inode option"

fun inode_stat :: "inode \<Rightarrow> bool \<times> nat" where
  "inode_stat (IDir uid) = (True, uid)"
| "inode_stat (IFile uid) = (False, uid)"
| "inode_stat (ILink target uid) = (False, uid)"

definition sys_lstat :: "names \<Rightarrow> bytes \<Rightarrow> (bool \<times> nat) option" where
  "sys_lstat ns p = map_option inode_stat (ns p)"

fun follow :: "nat \<Rightarrow> names \<Rightarrow> bytes \<Rightarrow> inode option" where
  "follow n ns p = (case ns p of
     Some (ILink target uid) \<Rightarrow> (case n of 0 \<Rightarrow> None | Suc k \<Rightarrow> follow k ns target)
   | x \<Rightarrow> x)"

declare follow.simps [simp del]

definition sys_stat :: "names \<Rightarrow> bytes \<Rightarrow> (bool \<times> nat) option" where
  "sys_stat ns p = map_option inode_stat (follow 40 ns p)"

text \<open>What the system answers to \<open>lockdir_init\<close>: device and inode of the working directory, failures
  of \<open>mkdir\<close> and \<open>lstat\<close> that the names do not decide, and what other processes do to the names
  between the two calls.\<close>

record lockdir_env =
  ld_stat :: "(64 word \<times> 64 word) option"
  ld_mkdir :: "errno option"
  ld_others :: "names \<Rightarrow> names"
  ld_lstat :: bool
  ld_euid :: nat

definition sys_mkdir :: "lockdir_env \<Rightarrow> bytes \<Rightarrow> names \<Rightarrow> errno option \<times> names" where
  "sys_mkdir env p ns =
     (case ld_mkdir env of
        Some e \<Rightarrow> (Some e, ns)
      | None \<Rightarrow> if ns p = None then (None, ns(p \<mapsto> IDir (ld_euid env))) else (Some EEXIST, ns))"

text \<open>The result is the directory name, or \<open>None\<close> for -1, and the names.\<close>

definition lockdir_init :: "lockdir_env \<Rightarrow> names \<Rightarrow> bytes option \<times> names" where
  "lockdir_init env ns =
     (case ld_stat env of
        None \<Rightarrow> (None, ns)
      | Some (dev, ino) \<Rightarrow>
          let dir = lock_dir_name dev ino
          in case sys_mkdir env dir ns of
               (None, ns1) \<Rightarrow> (Some dir, ns1)
             | (Some e, ns1) \<Rightarrow>
                 if e \<noteq> EEXIST then (None, ns1)
                 else let ns2 = ld_others env ns1
                   in if \<not> ld_lstat env then (None, ns2)
                      else (case sys_lstat ns2 dir of
                              None \<Rightarrow> (None, ns2)
                            | Some (is_dir, uid) \<Rightarrow>
                                if \<not> is_dir \<or> uid \<noteq> ld_euid env then (None, ns2)
                                else (Some dir, ns2)))"

text \<open>The copying loop of \<open>lock_path_for\<close>, at offset \<open>off\<close> of an \<open>n\<close>-byte array.\<close>

fun lock_copy :: "bytes \<Rightarrow> nat \<Rightarrow> nat \<Rightarrow> bytes" where
  "lock_copy [] off n = []"
| "lock_copy (c # cs) off n =
     (if c \<noteq> NUL \<and> off + 1 < n
      then (if c = CHR ''/'' then CHR ''%'' else c) # lock_copy cs (off + 1) n
      else [])"

definition lock_path_for :: "bytes \<Rightarrow> bytes \<Rightarrow> nat \<Rightarrow> bytes" where
  "lock_path_for dir u n = take (n - 1) (dir @ ''/'') @ lock_copy u (length dir + 1) n"

fun flock_retry :: "errno list \<Rightarrow> bool" where
  "flock_retry [] = True"
| "flock_retry (e # es) = (if e = EINTR then flock_retry es else False)"

text \<open>The result is the locked lockfile's path, standing for its descriptor, or \<open>None\<close> for -1.\<close>

definition uri_lock :: "kenv \<Rightarrow> bytes \<Rightarrow> lock_op \<Rightarrow> world \<Rightarrow> bytes option \<times> world" where
  "uri_lock env u op w =
     (let path = lock_path_for (lock_dir w) u 192
      in case k_lock_open env of
           Some _ \<Rightarrow> (None, w)
         | None \<Rightarrow>
             let w1 = w\<lparr>open_fds := open_fds w + 1\<rparr>
             in if flock_retry (k_flock env) then (Some path, record_ev (EvLock path op) w1)
                else (None, w1\<lparr>open_fds := open_fds w1 - 1\<rparr>))"

definition uri_unlock :: "bytes option \<Rightarrow> world \<Rightarrow> world" where
  "uri_unlock lockfd w =
     (case lockfd of
        None \<Rightarrow> w
      | Some path \<Rightarrow> record_ev (EvUnlock path) (w\<lparr>open_fds := open_fds w - 1\<rparr>))"

section \<open>The handlers\<close>

definition audit_entry_of :: "conn \<Rightarrow> Response \<Rightarrow> audit_entry" where
  "audit_entry_of c res =
     \<lparr>a_oper = request_get_str (conn_get_request c), a_uri = conn_get_uri c,
      a_status = unat (response_get_code res),
      a_rid = (case fst (conn_get_header c ''Request-Id'') of Some rid \<Rightarrow> rid | None \<Rightarrow> [])\<rparr>"

definition audit_send_response :: "conn \<Rightarrow> Response \<Rightarrow> world \<Rightarrow> world" where
  "audit_send_response c res w =
     (let e = audit_entry_of c res
      in record_ev (EvAudit e)
           (w\<lparr>alog := log_audit (a_oper e) (a_uri e) (a_status e) (a_rid e) (alog w)\<rparr>))"

text \<open>\<open>conn_send_response(conn, res); audit_send_response(conn, res);\<close>\<close>

definition respond :: "conn \<Rightarrow> Response \<Rightarrow> world \<Rightarrow> conn \<times> world" where
  "respond c res w =
     (let c1 = snd (conn_send_response c res)
      in (c1, audit_send_response c1 res (record_ev (EvSend res) w)))"

definition get_open_error :: "errno \<Rightarrow> Response" where
  "get_open_error e =
     (if e = EACCES \<or> e = EISDIR then RESPONSE_FORBIDDEN
      else if e = ENOENT then RESPONSE_NOT_FOUND
      else RESPONSE_INTERNAL_SERVER_ERROR)"

definition put_open_error :: "errno \<Rightarrow> Response" where
  "put_open_error e =
     (if e = EACCES \<or> e = EISDIR \<or> e = ENOENT then RESPONSE_FORBIDDEN
      else RESPONSE_INTERNAL_SERVER_ERROR)"

definition handle_get :: "kenv \<Rightarrow> conn \<Rightarrow> world \<Rightarrow> conn \<times> world" where
  "handle_get env c w =
     (let u = conn_get_uri c
      in case uri_lock env u LOCK_SH w of
           (None, w1) \<Rightarrow> respond c RESPONSE_INTERNAL_SERVER_ERROR w1
         | (Some lockfd, w1) \<Rightarrow>
             (case sys_open_rd env u w1 of
                (Inl e, w2) \<Rightarrow>
                  let (c1, w3) = respond c (get_open_error e) w2
                  in (c1, uri_unlock (Some lockfd) w3)
              | (Inr node, w2) \<Rightarrow>
                  let w3 = record_ev (EvStat u) w2
                  in if \<not> k_fstat env then
                    let (c1, w4) = respond c RESPONSE_INTERNAL_SERVER_ERROR w3
                    in (c1, uri_unlock (Some lockfd) (sys_close u w4))
                  else (case node of
                     Directory \<Rightarrow>
                       let (c1, w4) = respond c RESPONSE_FORBIDDEN w3
                       in (c1, uri_unlock (Some lockfd) (sys_close u w4))
                   | Regular d _ _ \<Rightarrow>
                       let (_, c1, _) = conn_send_file c \<lparr>idata = d, isched = k_rsched env\<rparr>
                                          (of_nat (length d));
                           w4 = audit_send_response c1 RESPONSE_OK (record_ev (EvSendFile d) w3)
                       in (c1, uri_unlock (Some lockfd) (sys_close u w4)))))"

definition handle_unsupported :: "conn \<Rightarrow> world \<Rightarrow> conn \<times> world" where
  "handle_unsupported c w = respond c RESPONSE_NOT_IMPLEMENTED w"

text \<open>The rest of \<open>handle_put\<close> once the target is open: truncate, receive, answer.\<close>

definition put_into :: "kenv \<Rightarrow> conn \<Rightarrow> bool \<Rightarrow> bytes \<Rightarrow> fnode \<Rightarrow> world \<Rightarrow> conn \<times> world" where
  "put_into env c existed lockfd node w =
     (let u = conn_get_uri c;
          (rd, wr) = (case node of Regular _ rd wr \<Rightarrow> (rd, wr) | Directory \<Rightarrow> (True, True))
      in if \<not> k_ftruncate env then
           let (c1, w3) = respond c RESPONSE_INTERNAL_SERVER_ERROR (record_ev (EvTrunc u) w)
           in (c1, uri_unlock (Some lockfd) (sys_close u w3))
         else
           let w2 = record_ev (EvTrunc u) (set_file u (Regular [] rd wr) w);
               (r, c1, fd) = conn_recv_file c \<lparr>odata = [], osched = k_wsched env\<rparr>;
               w3 = record_ev (EvWrite u) (set_file u (Regular (odata fd) rd wr) w2);
               res = (case r of Some x \<Rightarrow> x
                      | None \<Rightarrow> if existed then RESPONSE_OK else RESPONSE_CREATED);
               (c2, w4) = respond c1 res w3
           in (c2, uri_unlock (Some lockfd) (sys_close u w4)))"

definition handle_put :: "kenv \<Rightarrow> conn \<Rightarrow> world \<Rightarrow> conn \<times> world" where
  "handle_put env c w =
     (let u = conn_get_uri c
      in case uri_lock env u LOCK_EX w of
           (None, w1) \<Rightarrow> respond c RESPONSE_INTERNAL_SERVER_ERROR w1
         | (Some lockfd, w1) \<Rightarrow>
             let existed = (file_at w1 u \<noteq> None);
                 w2 = record_ev (EvAccess u) w1
             in (case sys_open_creat env u w2 of
                   (Inl e, w3) \<Rightarrow>
                     let (c1, w4) = respond c (put_open_error e) w3
                     in (c1, uri_unlock (Some lockfd) w4)
                 | (Inr node, w3) \<Rightarrow> put_into env c existed lockfd node w3))"

text \<open>The two halves of \<open>handle_connection\<close> after parsing: the status of a refused request, and
  the dispatch of an accepted one.\<close>

definition parse_status :: "Response \<Rightarrow> conn \<Rightarrow> Response" where
  "parse_status res c =
     (if res = RESPONSE_VERSION_NOT_SUPPORTED \<and> conn_get_request c = REQUEST_UNSUPPORTED
      then RESPONSE_NOT_IMPLEMENTED else res)"

definition dispatch :: "kenv \<Rightarrow> conn \<Rightarrow> world \<Rightarrow> conn \<times> world" where
  "dispatch env c w =
     (if conn_get_request c = REQUEST_GET then handle_get env c w
      else if conn_get_request c = REQUEST_PUT then handle_put env c w
      else handle_unsupported c w)"

text \<open>
  \<open>handle_connection\<close>: the client's streams stand for \<open>connfd\<close>; the result is what the client has
  been sent and the new world. \<open>close(connfd)\<close> ends every path.
\<close>

definition close_conn :: "world \<Rightarrow> world" where
  "close_conn w = w\<lparr>open_fds := open_fds w - 1\<rparr>"

definition handle_connection :: "kenv \<Rightarrow> istream \<Rightarrow> ostream \<Rightarrow> world \<Rightarrow> ostream \<times> world" where
  "handle_connection env sin sout w =
     (case conn_new (k_alloc env) sin sout of
        None \<Rightarrow> (sout, close_conn w)
      | Some c \<Rightarrow>
          (case conn_parse (k_regcomp_line env) (k_regcomp_header env) c of
             (Some res, c1) \<Rightarrow>
               if conn_is_empty c1 then (sock_out c1, close_conn w)
               else let (c2, w1) = respond c1 (parse_status res c1) w
                    in (sock_out c2, close_conn w1)
           | (None, c1) \<Rightarrow>
               let (c2, w1) = dispatch env c1 w
               in (sock_out c2, close_conn w1)))"

end
