(* ===== verification/Server_Locks.thy ===== *)
theory Server_Locks
  imports Http_Server
begin

text \<open>
  The lock namespace of \<open>src/httpserver.c\<close>: the lock directory's name and the lockfile names are
  never cut off by their arrays, and different URIs and different served directories get different
  lockfiles; and what start-up does to the name of the lock directory.
\<close>

section \<open>Names\<close>

definition lock_char :: "byte \<Rightarrow> byte" where
  "lock_char c = (if c = CHR ''/'' then CHR ''%'' else c)"

lemma uri_char_plain: "is_uri_char c \<Longrightarrow> c \<noteq> NUL \<and> c \<noteq> CHR ''%''"
  by (auto simp: class_defs)

lemma lock_char_inj: "is_uri_char c \<Longrightarrow> is_uri_char d \<Longrightarrow> lock_char c = lock_char d \<Longrightarrow> c = d"
  using uri_char_plain [of c] uri_char_plain [of d] by (simp add: lock_char_def split: if_splits)

lemma lock_copy_fits:
  "list_all is_uri_char u \<Longrightarrow> off + length u < n \<Longrightarrow> lock_copy u off n = map lock_char u"
  by (induction u arbitrary: off) (auto simp: lock_char_def dest: uri_char_plain)

lemma unat64_decimal: "length (dec_of_nat (unat (x :: 64 word))) \<le> 20"
proof -
  have "unat x < 2 ^ 64" using unsigned_less [where 'a = nat, of x] by simp
  then show ?thesis by (intro length_dec_of_nat) simp_all
qed

lemma lock_dir_name_fits:
  "lock_dir_name dev ino =
     ''/tmp/.httpserver.locks.'' @ dec_of_nat (unat dev) @ ''.'' @ dec_of_nat (unat ino)"
  using unat64_decimal [of dev] unat64_decimal [of ino] by (simp add: lock_dir_name_def)

lemma length_lock_dir_name: "length (lock_dir_name dev ino) \<le> 64"
  using unat64_decimal [of dev] unat64_decimal [of ino] by (simp add: lock_dir_name_fits)

lemma lock_path_eq:
  assumes "list_all is_uri_char u" and "length u < 64"
  shows "lock_path_for (lock_dir_name dev ino) u 192 =
    lock_dir_name dev ino @ ''/'' @ map lock_char u"
  using length_lock_dir_name [of dev ino] assms
  by (simp add: lock_path_for_def lock_copy_fits)

lemma map_lock_char_inj:
  "list_all is_uri_char u \<Longrightarrow> list_all is_uri_char v \<Longrightarrow> map lock_char u = map lock_char v \<Longrightarrow> u = v"
proof (induction u arbitrary: v)
  case (Cons c u)
  then obtain d v' where v: "v = d # v'" "lock_char c = lock_char d" by (cases v) auto
  have "c = d" using lock_char_inj [of c d] Cons.prems v by simp
  moreover have "u = v'" using Cons.IH [of v'] Cons.prems v by simp
  ultimately show ?case using v(1) by simp
qed simp

lemma digit_run_inj:
  assumes "dec_of_nat a @ c # xs = dec_of_nat b @ c # ys" and "\<not> is_digit c"
  shows "a = b \<and> xs = ys"
  using assms dec_of_nat_digits dec_of_nat_inj by (metis delim_inj)

lemma lock_dir_name_inj:
  assumes "lock_dir_name dev ino @ ''/'' @ xs = lock_dir_name dev' ino' @ ''/'' @ ys"
  shows "dev = dev' \<and> ino = ino' \<and> xs = ys"
proof -
  have "dec_of_nat (unat dev) @ CHR ''.'' # dec_of_nat (unat ino) @ ''/'' @ xs =
      dec_of_nat (unat dev') @ CHR ''.'' # dec_of_nat (unat ino') @ ''/'' @ ys"
    using assms by (simp add: lock_dir_name_fits)
  from digit_run_inj [OF this] have "unat dev = unat dev'"
    "dec_of_nat (unat ino) @ CHR ''/'' # xs = dec_of_nat (unat ino') @ CHR ''/'' # ys"
    by (simp_all add: is_digit_def)
  with digit_run_inj [OF this(2)] show ?thesis by (simp add: is_digit_def word_unat_eq_iff)
qed

section \<open>Properties\<close>

text \<open>A path that names an entry of the directory, neither the directory itself nor its parent.\<close>

definition entry_of :: "bytes \<Rightarrow> bytes \<Rightarrow> bool" where
  "entry_of dir p \<longleftrightarrow> (\<exists>name. p = dir @ ''/'' @ name \<and> CHR ''/'' \<notin> set name \<and> name \<notin> {[], ''.'', ''..''})"

lemma lock_char_dots:
  assumes "list_all is_uri_char u"
  shows "map lock_char u = ''.'' \<longleftrightarrow> u = ''.''" "map lock_char u = ''..'' \<longleftrightarrow> u = ''..''"
proof -
  have "map lock_char ''.'' = ''.''" "map lock_char ''..'' = ''..''" by (simp_all add: lock_char_def)
  moreover have "list_all is_uri_char ''.''" "list_all is_uri_char ''..''" by (simp_all add: class_defs)
  ultimately show "map lock_char u = ''.'' \<longleftrightarrow> u = ''.''" "map lock_char u = ''..'' \<longleftrightarrow> u = ''..''"
    using map_lock_char_inj [OF assms] by metis+
qed

text \<open>
  C27: the lockfile of a URI is never ambiguous. For the URIs the parser lets through, the path
  that \<open>uri_lock\<close> builds is complete, nothing is cut off, and two paths are equal only for the same
  URI and the same served directory. The path names an entry of the lock directory, except for the
  URIs \<open>.\<close> and \<open>..\<close>, which the parser lets through too: their lockfiles would be the lock directory
  itself and its parent.
\<close>

theorem lock_path_injective:
  assumes "list_all is_uri_char u" and "length u < 64" and "list_all is_uri_char v" and "length v < 64"
  shows "(lock_path_for (lock_dir_name dev ino) u 192 = lock_path_for (lock_dir_name dev' ino') v 192
      \<longleftrightarrow> u = v \<and> dev = dev' \<and> ino = ino')
    \<and> (\<exists>name. lock_path_for (lock_dir_name dev ino) u 192 = lock_dir_name dev ino @ ''/'' @ name
         \<and> CHR ''/'' \<notin> set name \<and> length name = length u)
    \<and> (entry_of (lock_dir_name dev ino) (lock_path_for (lock_dir_name dev ino) u 192)
         \<longleftrightarrow> u \<notin> {[], ''.'', ''..''})
    \<and> length (lock_path_for (lock_dir_name dev ino) u 192) < 192"
proof -
  have slash: "CHR ''/'' \<notin> set (map lock_char u)" by (auto simp: lock_char_def split: if_splits)
  have path: "lock_path_for (lock_dir_name dev ino) u 192 = lock_dir_name dev ino @ ''/'' @ map lock_char u"
    for dev ino by (rule lock_path_eq [OF assms(1,2)])
  have "lock_dir_name dev ino @ ''/'' @ map lock_char u = lock_dir_name dev' ino' @ ''/'' @ map lock_char v
      \<longleftrightarrow> u = v \<and> dev = dev' \<and> ino = ino'"
    using lock_dir_name_inj map_lock_char_inj [OF assms(1,3)] by metis
  moreover have "entry_of (lock_dir_name dev ino) (lock_path_for (lock_dir_name dev ino) u 192)
      \<longleftrightarrow> u \<notin> {[], ''.'', ''..''}"
    unfolding entry_of_def path using slash lock_char_dots [OF assms(1)] by simp
  ultimately show ?thesis
    using assms length_lock_dir_name [of dev ino] slash
    by (simp add: lock_path_eq del: append_Cons)
qed

theorem lock_path_injective_witness:
  "lock_path_for (lock_dir_name 5 6) ''a/b'' 192 \<noteq> lock_path_for (lock_dir_name 5 6) ''a_b'' 192
   \<and> \<not> entry_of (lock_dir_name 5 6) (lock_path_for (lock_dir_name 5 6) ''..'' 192)"
  using lock_path_injective [of "''a/b''" "''a_b''" 5 6 5 6]
    lock_path_injective [of "''..''" "''..''" 5 6 5 6]
  by (simp add: class_defs)

section \<open>The lock directory\<close>

lemma sys_lstat_dir: "sys_lstat ns p = Some (True, uid) \<longleftrightarrow> ns p = Some (IDir uid)"
proof (cases "ns p")
  case (Some n)
  then show ?thesis by (cases n) (auto simp: sys_lstat_def)
qed (simp add: sys_lstat_def)

lemma lockdir_init_cases:
  assumes "lockdir_init env ns = (r, ns')" and "ld_stat env = Some (dev, ino)"
    and "d = lock_dir_name dev ino"
  obtains (created) "ld_mkdir env = None" "ns d = None" "r = Some d" "ns' = ns(d \<mapsto> IDir (ld_euid env))"
  | (found) "ld_mkdir env = None \<or> ld_mkdir env = Some EEXIST" "ld_mkdir env = None \<Longrightarrow> ns d \<noteq> None" "ld_lstat env"
      "ns' = ld_others env ns" "r = (if ns' d = Some (IDir (ld_euid env)) then Some d else None)"
  | (failed) "ld_mkdir env \<noteq> None \<or> \<not> ld_lstat env" "ld_mkdir env = None \<Longrightarrow> ns d \<noteq> None"
      "r = None" "ns' = ns \<or> ns' = ld_others env ns"
proof (cases "fst (sys_mkdir env d ns)")
  case None
  then show thesis
    using created assms by (auto simp: lockdir_init_def sys_mkdir_def Let_def split: option.splits if_splits)
next
  case (Some e)
  then have m: "sys_mkdir env d ns = (Some e, ns)"
    by (auto simp: sys_mkdir_def split: option.splits if_splits)
  show thesis
  proof (cases "e = EEXIST \<and> ld_lstat env")
    case True
    have "r = (if ns' d = Some (IDir (ld_euid env)) then Some d else None)" "ns' = ld_others env ns"
      using assms m True
      by (auto simp: lockdir_init_def Let_def simp flip: sys_lstat_dir split: option.splits if_splits)
    with found True m show thesis
      by (auto simp: sys_mkdir_def split: option.splits if_splits)
  next
    case False
    with failed assms m show thesis
      by (auto simp: lockdir_init_def sys_mkdir_def Let_def split: option.splits if_splits)
  qed
qed

lemma lockdir_owned:
  assumes "lockdir_init env ns = (Some d, ns')"
  shows "ns' d = Some (IDir (ld_euid env))"
proof (cases "ld_stat env")
  case None
  with assms show ?thesis by (simp add: lockdir_init_def)
next
  case (Some x)
  then obtain dev ino where "ld_stat env = Some (dev, ino)" by (cases x) simp
  from assms this refl show ?thesis by (cases rule: lockdir_init_cases) (auto split: if_splits)
qed

text \<open>A symbolic link to a directory passes for that directory with \<open>stat\<close> and not with \<open>lstat\<close>.\<close>

lemma planted_link:
  assumes "ns p = Some (ILink target owner)" and "ns target = Some (IDir uid)"
  shows "sys_stat ns p = Some (True, uid) \<and> sys_lstat ns p = Some (False, owner)"
  using assms follow.simps [of 40 ns p] follow.simps [of 39 ns target]
  by (simp add: sys_stat_def sys_lstat_def)

text \<open>
  C28: the server starts only with a lock directory it may trust. When \<open>lockdir_init\<close> succeeds, its
  name stands for a real directory of the server's own user: one that it has just created, or one
  that was there. It succeeds exactly in these cases, as far as no call fails. A symbolic link that
  somebody has planted under the name is refused and left alone, even one that leads to a directory
  of the server's user and would pass with \<open>stat\<close>.
\<close>

theorem lockdir_init_trusted:
  assumes "lockdir_init env ns = (r, ns')"
  shows "(\<forall>d. r = Some d \<longrightarrow> ns' d = Some (IDir (ld_euid env)))
    \<and> (\<forall>dev ino d. ld_stat env = Some (dev, ino) \<and> ld_mkdir env = None \<and> ld_lstat env
         \<and> d = lock_dir_name dev ino \<longrightarrow>
         (r = Some d \<longleftrightarrow> ns d = None \<or> ld_others env ns d = Some (IDir (ld_euid env))))
    \<and> (\<forall>dev ino d target owner. ld_stat env = Some (dev, ino) \<and> d = lock_dir_name dev ino
         \<and> ns d = Some (ILink target owner) \<and> ld_others env ns = ns \<longrightarrow>
         r = None \<and> ns' = ns
         \<and> (ns target = Some (IDir (ld_euid env)) \<longrightarrow> sys_stat ns d = Some (True, ld_euid env)))"
proof (cases "ld_stat env")
  case None
  with assms show ?thesis by (auto simp: lockdir_init_def)
next
  case (Some x)
  then obtain dev ino where st: "ld_stat env = Some (dev, ino)" by (cases x) simp
  note d = refl [of "lock_dir_name dev ino"]
  have trusted: "ns' e = Some (IDir (ld_euid env))" if "r = Some e" for e
    using lockdir_owned assms that by blast
  have exact: "r = Some (lock_dir_name dev ino) \<longleftrightarrow>
      ns (lock_dir_name dev ino) = None \<or> ld_others env ns (lock_dir_name dev ino) = Some (IDir (ld_euid env))"
    if "ld_mkdir env = None" "ld_lstat env"
    using assms st d by (cases rule: lockdir_init_cases) (use that in auto)
  have link: "r = None \<and> ns' = ns"
    if "ns (lock_dir_name dev ino) = Some (ILink target owner)" "ld_others env ns = ns" for target owner
    using assms st d by (cases rule: lockdir_init_cases) (use that in auto)
  show ?thesis
  proof (intro conjI)
    show "\<forall>d. r = Some d \<longrightarrow> ns' d = Some (IDir (ld_euid env))" using trusted by blast
  qed (use exact link planted_link st in auto)
qed

theorem lockdir_init_trusted_witness:
  "let env = \<lparr>ld_stat = Some (1, 2), ld_mkdir = None, ld_others = id, ld_lstat = True, ld_euid = 7\<rparr>;
       ns = [lock_dir_name 1 2 \<mapsto> ILink ''/home/me'' 8, ''/home/me'' \<mapsto> IDir 7]
   in lockdir_init env ns = (None, ns) \<and> sys_stat ns (lock_dir_name 1 2) = Some (True, 7)"
proof -
  let ?env = "\<lparr>ld_stat = Some (1, 2), ld_mkdir = None, ld_others = id, ld_lstat = True, ld_euid = 7\<rparr>"
  let ?ns = "[lock_dir_name 1 2 \<mapsto> ILink ''/home/me'' 8, ''/home/me'' \<mapsto> IDir 7]"
  have "lock_dir_name 1 2 \<noteq> ''/home/me''" by (simp add: lock_dir_name_fits)
  then have ns: "?ns (lock_dir_name 1 2) = Some (ILink ''/home/me'' 8)" "?ns ''/home/me'' = Some (IDir 7)"
    by simp_all
  obtain r ns' where init: "lockdir_init ?env ?ns = (r, ns')" by fastforce
  from lockdir_init_trusted [OF init] ns show ?thesis by (simp add: init)
qed

end
