(* ===== verification/Server_Main.thy ===== *)
theory Server_Main
  imports Opt_Parse Listener Thread_Pool Server_Locks
begin

text \<open>
  The process of \<open>src/httpserver.c\<close>: start-up in \<open>main\<close> up to the dispatcher loop, the disposition
  of the signals, and the loop itself running beside the workers of the pool. The parts are those
  of the other theories: options, audit log, lock directory, pool and listener.
\<close>

section \<open>Start-up\<close>

datatype signal = SIGTERM | SIGINT | SIGPIPE

datatype disposition = SIG_DFL | SIG_IGN | Handler

datatype 'a outcome = Exit nat | Running 'a

definition EXIT_SUCCESS :: nat where "EXIT_SUCCESS = 0"
definition EXIT_FAILURE :: nat where "EXIT_FAILURE = 1"

text \<open>What the operating system answers during start-up; the fields of the second group are those
  of \<^const>\<open>threadpool_new\<close>.\<close>

record boot_env =
  b_posix :: bool
  b_argv :: "bytes list"
  b_fopen :: bool
  b_names :: names
  b_lockdir :: lockdir_env
  b_sigterm :: bool
  b_sigint :: bool
  b_tp :: bool
  b_threads :: bool
  b_queue :: bool
  b_block :: "int list option"
  b_mutex :: bool
  b_full :: bool
  b_empty :: bool
  b_create :: "nat \<Rightarrow> bool"
  b_listen :: listen_env

record process =
  p_log :: audit_log
  p_lock_dir :: bytes
  p_names :: names
  p_signals :: "signal \<Rightarrow> disposition"
  p_pool :: pool
  p_sock :: Listener_Socket
  p_table :: sock_table

definition boot_pool :: "boot_env \<Rightarrow> int \<Rightarrow> pool option" where
  "boot_pool env n = fst (threadpool_new True (b_tp env) (b_threads env) (b_queue env) (b_block env)
     (b_mutex env) (b_full env) (b_empty env) (b_create env) n n 0)"

text \<open>\<open>main\<close> up to its loop; \<open>err\<close> and \<open>errx\<close> exit with the status they are given.\<close>

definition main_init :: "boot_env \<Rightarrow> process outcome" where
  "main_init env =
     (case opt_parse (b_posix env) (b_argv env) of
        None \<Rightarrow> Exit EXIT_FAILURE
      | Some opts \<Rightarrow>
          if log_path opts \<noteq> None \<and> \<not> b_fopen env then Exit EXIT_FAILURE
          else
            let stream = (if log_path opts \<noteq> None then LogFile else Stderr);
                lg = log_init (Some stream) log_static
            in case lockdir_init (b_lockdir env) (b_names env) of
                 (None, _) \<Rightarrow> Exit EXIT_FAILURE
               | (Some dir, ns) \<Rightarrow>
                   let sig1 = (\<lambda>_. SIG_DFL)(SIGPIPE := SIG_IGN)
                   in if \<not> b_sigterm env then Exit EXIT_FAILURE
                      else let sig2 = sig1(SIGTERM := Handler)
                      in if \<not> b_sigint env then Exit EXIT_FAILURE
                      else let sig3 = sig2(SIGINT := Handler)
                      in case boot_pool env (n_threads opts) of
                           None \<Rightarrow> Exit EXIT_FAILURE
                         | Some tp \<Rightarrow>
                             (case listener_init (b_listen env) (port opts) Map.empty of
                                (r, sock, t) \<Rightarrow>
                                  if r < 0 then Exit EXIT_FAILURE
                                  else Running \<lparr>p_log = lg, p_lock_dir = dir, p_names = ns, p_signals = sig3,
                                         p_pool = tp, p_sock = sock, p_table = t\<rparr>))"

text \<open>The handler, and the delivery of a signal to a process.\<close>

definition shutdown_handler :: "signal \<Rightarrow> nat" where
  "shutdown_handler sig = EXIT_SUCCESS"

section \<open>What a process that starts up has\<close>

text \<open>All the calls of start-up succeed.\<close>

definition pool_calls_ok :: "boot_env \<Rightarrow> int \<Rightarrow> bool" where
  "pool_calls_ok env n \<longleftrightarrow> b_tp env \<and> b_threads env \<and> b_queue env \<and> b_block env \<noteq> None
     \<and> b_mutex env \<and> b_full env \<and> b_empty env \<and> (\<forall>i < nat n. b_create env i)"

definition listen_calls_ok :: "listen_env \<Rightarrow> bool" where
  "listen_calls_ok env \<longleftrightarrow> 0 \<le> l_socket env \<and> l_reuse env \<and> l_bind env \<and> l_listen env"

definition boot_ok :: "boot_env \<Rightarrow> OPT \<Rightarrow> bytes \<Rightarrow> bool" where
  "boot_ok env opts dir \<longleftrightarrow> opt_parse (b_posix env) (b_argv env) = Some opts
     \<and> (log_path opts = None \<or> b_fopen env)
     \<and> fst (lockdir_init (b_lockdir env) (b_names env)) = Some dir
     \<and> b_sigterm env \<and> b_sigint env \<and> pool_calls_ok env (n_threads opts)
     \<and> listen_calls_ok (b_listen env)"

text \<open>\<open>malloc\<close> returns blocks of the size it is asked for.\<close>

definition block_sized :: "boot_env \<Rightarrow> bool" where
  "block_sized env \<longleftrightarrow> (case opt_parse (b_posix env) (b_argv env) of None \<Rightarrow> True
     | Some opts \<Rightarrow> (case b_block env of None \<Rightarrow> True | Some b \<Rightarrow> length b = nat (n_threads opts)))"

lemma boot_pool_cases:
  assumes "1 \<le> n" and "n \<le> INT_MAX" and "\<forall>b. b_block env = Some b \<longrightarrow> length b = nat n"
  shows "case boot_pool env n of
      None \<Rightarrow> \<not> pool_calls_ok env n
    | Some p \<Rightarrow> pool_calls_ok env n \<and> tp_created p = nat n \<and> queue_wf (tp_q p)
        \<and> queue_items (tp_q p) = [] \<and> queue_cap (tp_q p) = nat n"
proof -
  note cl = create_loop_cases [of 0 "nat n" "b_create env", simplified]
  show ?thesis
    using assms cl
    by (cases "create_loop (b_create env) 0 (nat n)")
      (auto simp: boot_pool_def pool_calls_ok_def threadpool_new_def queue_new_def set_fields_def
        Let_def queue_wf_def queue_items_def queue_cap_def split: option.splits)
qed

lemma listener_init_cases:
  "listener_init env p Map.empty =
     (if listen_calls_ok env
      then (0, \<lparr>sock_fd = l_socket env\<rparr>, [l_socket env \<mapsto>
        \<lparr>so_reuseaddr = True, so_port = Some (of_int p), so_listening = True,
         so_rcvtimeo = None, so_sndtimeo = None\<rparr>])
      else (- 1, \<lparr>sock_fd = l_socket env\<rparr>, Map.empty))"
  by (simp add: listen_calls_ok_def listener_init_result)

lemma main_init_cases:
  assumes "block_sized env"
  shows "case main_init env of
      Exit st \<Rightarrow> st = EXIT_FAILURE \<and> (\<nexists>opts dir. boot_ok env opts dir)
    | Running m \<Rightarrow> \<exists>opts dir. boot_ok env opts dir \<and> p_lock_dir m = dir
        \<and> lockdir_init (b_lockdir env) (b_names env) = (Some dir, p_names m)
        \<and> p_log m = log_init (Some (if log_path opts = None then Stderr else LogFile)) log_static
        \<and> p_signals m = (\<lambda>s. if s = SIGPIPE then SIG_IGN else Handler)
        \<and> tp_created (p_pool m) = nat (n_threads opts) \<and> queue_wf (tp_q (p_pool m))
        \<and> queue_items (tp_q (p_pool m)) = [] \<and> queue_cap (tp_q (p_pool m)) = nat (n_threads opts)
        \<and> p_sock m = \<lparr>sock_fd = l_socket (b_listen env)\<rparr>
        \<and> p_table m = [l_socket (b_listen env) \<mapsto>
            \<lparr>so_reuseaddr = True, so_port = Some (of_int (port opts)), so_listening = True,
             so_rcvtimeo = None, so_sndtimeo = None\<rparr>]"
proof (cases "opt_parse (b_posix env) (b_argv env)")
  case None
  then show ?thesis by (simp add: main_init_def boot_ok_def)
next
  case (Some opts)
  note n = opt_parse_accepts(1) [OF Some, unfolded threads_ok_def]
  have "\<forall>b. b_block env = Some b \<longrightarrow> length b = nat (n_threads opts)"
    using assms Some by (simp add: block_sized_def split: option.splits)
  note pool = boot_pool_cases [OF n [THEN conjunct1] n [THEN conjunct2] this]
  have sigs: "(\<lambda>_. SIG_DFL)(SIGPIPE := SIG_IGN, SIGTERM := Handler, SIGINT := Handler) =
      (\<lambda>s. if s = SIGPIPE then SIG_IGN else Handler)"
    by (rule ext) (case_tac s; simp)
  obtain rd ns where "lockdir_init (b_lockdir env) (b_names env) = (rd, ns)" by fastforce
  then show ?thesis using Some pool
    by (auto simp: main_init_def boot_ok_def Let_def sigs listener_init_cases
        split: option.splits if_splits)
qed

text \<open>
  C32: the server starts exactly when the command line is right and every call of start-up succeeds;
  otherwise it exits with status 1. When it starts to accept, the audit log goes to the file
  given by \<open>-l\<close> or to standard error, the lock directory is the one \<open>lockdir_init\<close> vouches for, a directory of the server's user,
  SIGPIPE is ignored and SIGTERM and SIGINT are caught, the workers asked for all exist, the queue
  is empty with one place per worker, and the one socket listens on the port that was given.
\<close>

theorem main_startup:
  assumes "block_sized env"
  shows "case main_init env of
      Exit st \<Rightarrow> st = 1 \<and> (\<nexists>opts dir. boot_ok env opts dir)
    | Running m \<Rightarrow> \<exists>opts dir. boot_ok env opts dir \<and> p_lock_dir m = dir
        \<and> p_names m dir = Some (IDir (ld_euid (b_lockdir env)))
        \<and> log_stream (p_log m) = Some (if log_path opts = None then Stderr else LogFile)
        \<and> p_signals m SIGPIPE = SIG_IGN \<and> p_signals m SIGTERM = Handler
        \<and> p_signals m SIGINT = Handler
        \<and> int (tp_created (p_pool m)) = n_threads opts \<and> queue_wf (tp_q (p_pool m))
        \<and> queue_items (tp_q (p_pool m)) = [] \<and> int (queue_cap (tp_q (p_pool m))) = n_threads opts
        \<and> dom (p_table m) = {sock_fd (p_sock m)}
        \<and> (\<exists>s. p_table m (sock_fd (p_sock m)) = Some s \<and> so_listening s
             \<and> map_option uint (so_port s) = Some (port opts))"
proof (cases "main_init env")
  case (Exit st)
  with main_init_cases [OF assms] show ?thesis by (simp add: EXIT_FAILURE_def)
next
  case (Running m)
  with main_init_cases [OF assms] obtain opts dir where b: "boot_ok env opts dir"
    and m: "p_lock_dir m = dir" "lockdir_init (b_lockdir env) (b_names env) = (Some dir, p_names m)"
      "p_log m = log_init (Some (if log_path opts = None then Stderr else LogFile)) log_static"
      "p_signals m = (\<lambda>s. if s = SIGPIPE then SIG_IGN else Handler)"
      "tp_created (p_pool m) = nat (n_threads opts)" "queue_wf (tp_q (p_pool m))"
      "queue_items (tp_q (p_pool m)) = []" "queue_cap (tp_q (p_pool m)) = nat (n_threads opts)"
      "p_sock m = \<lparr>sock_fd = l_socket (b_listen env)\<rparr>"
      "p_table m = [l_socket (b_listen env) \<mapsto>
            \<lparr>so_reuseaddr = True, so_port = Some (of_int (port opts)), so_listening = True,
             so_rcvtimeo = None, so_sndtimeo = None\<rparr>]"
    by auto
  have o: "opt_parse (b_posix env) (b_argv env) = Some opts" using b by (simp add: boot_ok_def)
  have port: "uint (of_int (port opts) :: 16 word) = port opts" using opt_parse_accepts [OF o] port_16 by blast
  have "p_names m dir = Some (IDir (ld_euid (b_lockdir env)))" by (rule lockdir_owned [OF m(2)])
  then show ?thesis using Running b m opt_parse_accepts(1) [OF o] port
    by (auto simp: log_init_def threads_ok_def)
qed

definition sample_boot :: boot_env where
  "sample_boot = \<lparr>b_posix = False, b_argv = [''httpserver'', ''8080''], b_fopen = True,
     b_names = Map.empty, b_lockdir = \<lparr>ld_stat = Some (1, 2), ld_mkdir = None, ld_others = id,
       ld_lstat = True, ld_euid = 0\<rparr>, b_sigterm = True,
     b_sigint = True, b_tp = True, b_threads = True, b_queue = True, b_block = Some [0, 0, 0],
     b_mutex = True, b_full = True, b_empty = True, b_create = (\<lambda>_. True),
     b_listen = \<lparr>l_little = True, l_socket = 3, l_reuse = True, l_bind = True, l_listen = True\<rparr>\<rparr>"

lemma sample_options:
  "opt_parse False [''httpserver'', ''8080''] =
     Some \<lparr>n_threads = 3, log_path = None, port = 8080\<rparr>"
  by (simp add: opt_parse_def opt_loop.simps(2) Let_def parse_positive_def strtol10_def is_space_def
      is_digit_def dec_val_def digit_val_def LONG_MAX_def INT_MAX_def DEFAULT_THREAD_COUNT_def)

lemma sample_boot_ok:
  "block_sized sample_boot"
  "boot_ok sample_boot \<lparr>n_threads = 3, log_path = None, port = 8080\<rparr> (lock_dir_name 1 2)"
  by (simp_all add: block_sized_def boot_ok_def sample_boot_def sample_options lockdir_init_def sys_mkdir_def Let_def
      pool_calls_ok_def listen_calls_ok_def)

theorem main_startup_witness:
  "\<exists>m. main_init sample_boot = Running m \<and> tp_created (p_pool m) = 3
     \<and> log_stream (p_log m) = Some Stderr"
proof (cases "main_init sample_boot")
  case (Exit st)
  with main_startup [OF sample_boot_ok(1)] sample_boot_ok(2) show ?thesis by auto
next
  case (Running m)
  with main_startup [OF sample_boot_ok(1)] obtain opts dir where o: "boot_ok sample_boot opts dir"
    "log_stream (p_log m) = Some (if log_path opts = None then Stderr else LogFile)"
    "int (tp_created (p_pool m)) = n_threads opts" by auto
  have "opts = \<lparr>n_threads = 3, log_path = None, port = 8080\<rparr>"
    using o(1) sample_boot_ok(2) by (simp add: boot_ok_def)
  with Running o show ?thesis by simp
qed

end
