(* ===== verification/Server_Dispatch.thy ===== *)
theory Server_Dispatch
  imports Server_Main
begin

text \<open>
  The running server: the dispatcher loop of \<open>main\<close> (\<open>src/httpserver.c\<close>) accepts connections and
  submits them, the workers of the pool take them and close them when their handler returns, and
  signals arrive at any moment. The system is a product of the pool of \<^verbatim>\<open>Thread_Pool\<close> and the
  socket table of \<^verbatim>\<open>Listener\<close>; its steps project to steps of the pool, so the pool's invariant
  holds of it.
\<close>

section \<open>The system\<close>

datatype ending = Exited nat | Killed signal

record server_sys =
  sv_pool :: pool_sys
  sv_table :: sock_table
  sv_signals :: "signal \<Rightarrow> disposition"
  sv_end :: "ending option"
  accepted :: "int list"

text \<open>The state in which start-up leaves the process: the workers wait in \<open>queue_pop\<close>.\<close>

definition serving :: "process \<Rightarrow> server_sys" where
  "serving m = \<lparr>sv_pool = \<lparr>pq = tp_q (p_pool m), wpcs = (\<lambda>_. WPop), disp = DRun,
       submitted = [], started = [], finished = []\<rparr>,
     sv_table = p_table m, sv_signals = p_signals m, sv_end = None, accepted = []\<rparr>"

definition deliver :: "signal \<Rightarrow> server_sys \<Rightarrow> server_sys" where
  "deliver sig s =
     (case sv_signals s sig of
        SIG_IGN \<Rightarrow> s
      | SIG_DFL \<Rightarrow> s\<lparr>sv_end := Some (Killed sig)\<rparr>
      | Handler \<Rightarrow> s\<lparr>sv_end := Some (Exited (shutdown_handler sig))\<rparr>)"

text \<open>
  The loop of \<open>main\<close>: a failed \<open>listener_accept\<close> is skipped, a connection is submitted. The kernel
  gives a descriptor that is not open.
\<close>

inductive main_step :: "Listener_Socket \<Rightarrow> server_sys \<Rightarrow> server_sys \<Rightarrow> bool"
  for sock :: Listener_Socket where
  accept_fail: "disp (sv_pool s) = DRun \<Longrightarrow> sv_table s (a_accept env) = None \<Longrightarrow>
    listener_accept env sock (sv_table s) = (connfd, t) \<Longrightarrow> connfd < 0 \<Longrightarrow>
    main_step sock s (s\<lparr>sv_table := t\<rparr>)"
| accept_conn: "disp (sv_pool s) = DRun \<Longrightarrow> sv_table s (a_accept env) = None \<Longrightarrow>
    listener_accept env sock (sv_table s) = (connfd, t) \<Longrightarrow> \<not> connfd < 0 \<Longrightarrow>
    main_step sock s (s\<lparr>sv_table := t, accepted := accepted s @ [connfd],
      sv_pool := (sv_pool s)\<lparr>disp := DSubmit connfd\<rparr>\<rparr>)"
| submit_conn: "disp (sv_pool s) = DSubmit fd \<Longrightarrow> push_ret fd (pq (sv_pool s)) = Some q \<Longrightarrow>
    main_step sock s (s\<lparr>sv_pool :=
      (sv_pool s)\<lparr>disp := DRun, pq := q, submitted := submitted (sv_pool s) @ [fd]\<rparr>\<rparr>)"

text \<open>A worker pops, or its handler returns, having closed the connection.\<close>

inductive server_step :: "Listener_Socket \<Rightarrow> nat \<Rightarrow> server_sys \<Rightarrow> server_sys \<Rightarrow> bool"
  for sock :: Listener_Socket and N :: nat where
  dispatcher: "sv_end s = None \<Longrightarrow> main_step sock s s' \<Longrightarrow> server_step sock N s s'"
| pops: "sv_end s = None \<Longrightarrow> worker_step N (sv_pool s) p \<Longrightarrow> finished p = finished (sv_pool s) \<Longrightarrow>
    server_step sock N s (s\<lparr>sv_pool := p\<rparr>)"
| returns: "sv_end s = None \<Longrightarrow> t < N \<Longrightarrow> wpcs (sv_pool s) t = WRun fd \<Longrightarrow>
    server_step sock N s (s\<lparr>sv_table := close_socket fd (sv_table s),
      sv_pool := (sv_pool s)\<lparr>wpcs := (wpcs (sv_pool s))(t := WPop),
                             finished := finished (sv_pool s) @ [fd]\<rparr>\<rparr>)"
| signal_arrives: "sv_end s = None \<Longrightarrow> server_step sock N s (deliver sig s)"

section \<open>Who owns a connection\<close>

text \<open>The dispatcher's own connection, between \<open>accept\<close> and the end of \<open>threadpool_submit\<close>.\<close>

fun pending :: "dpc \<Rightarrow> int list" where
  "pending (DSubmit fd) = [fd]"
| "pending _ = []"

definition owned :: "nat \<Rightarrow> pool_sys \<Rightarrow> int multiset" where
  "owned N p = mset (pending (disp p)) + mset (queue_items (pq p)) + in_flight N (wpcs p)"

definition armed :: "sock_state \<Rightarrow> bool" where
  "armed c \<longleftrightarrow> so_rcvtimeo c = Some 5000000 \<and> so_sndtimeo c = Some 5000000"

definition conn_fds :: "Listener_Socket \<Rightarrow> sock_table \<Rightarrow> int set" where
  "conn_fds sock t = dom t - {sock_fd sock}"

text \<open>Each open connection has exactly one owner, the owner of a connection knows it to be open,
  and the loop is never left.\<close>

definition server_inv :: "Listener_Socket \<Rightarrow> nat \<Rightarrow> server_sys \<Rightarrow> bool" where
  "server_inv sock N s \<longleftrightarrow> pool_inv N (sv_pool s)
     \<and> (disp (sv_pool s) = DRun \<or> (\<exists>fd. disp (sv_pool s) = DSubmit fd))
     \<and> finite (conn_fds sock (sv_table s)) \<and> sock_fd sock \<in> dom (sv_table s)
     \<and> mset_set (conn_fds sock (sv_table s)) = owned N (sv_pool s)
     \<and> (\<forall>fd \<in> conn_fds sock (sv_table s). \<exists>c. sv_table s fd = Some c \<and> armed c)
     \<and> accepted s = submitted (sv_pool s) @ pending (disp (sv_pool s))
     \<and> sv_signals s = (\<lambda>g. if g = SIGPIPE then SIG_IGN else Handler)
     \<and> (sv_end s = None \<or> sv_end s = Some (Exited EXIT_SUCCESS))"

lemma accept_cases:
  assumes "listener_accept env sock t = (fd, t')" and "t (a_accept env) = None"
  shows "if fd < 0 then t' = t
    else fd = a_accept env \<and> (\<exists>c. t' = t(fd \<mapsto> c) \<and> armed c)"
  using assms by (auto simp: listener_accept_result armed_def split: if_splits)

lemma conn_fds_open:
  "fd \<noteq> sock_fd sock \<Longrightarrow> conn_fds sock (t(fd \<mapsto> c)) = insert fd (conn_fds sock t)"
  by (auto simp: conn_fds_def)

lemma conn_fds_close: "conn_fds sock (close_socket fd t) = conn_fds sock t - {fd}"
  by (auto simp: conn_fds_def close_socket_def)

lemma close_lookup: "close_socket fd t x = (if x = fd then None else t x)"
  "dom (close_socket fd t) = dom t - {fd}"
  by (auto simp: close_socket_def)

lemma worker_in_flight:
  assumes "t < N" and "p t = WRun fd"
  shows "fd \<in># in_flight N p"
proof -
  have "in_flight N p = in_flight N (p(t := WPop)) + {#fd#}"
    using in_flight_upd [OF assms(1), of p WPop] assms(2) by simp
  then show ?thesis by simp
qed

lemma pops_owned:
  assumes "worker_step N p p'" and "finished p' = finished p" and "pool_inv N p"
    and "disp p = DRun \<or> (\<exists>fd. disp p = DSubmit fd)"
  shows "owned N p' = owned N p \<and> disp p' = disp p \<and> submitted p' = submitted p"
  using assms
proof (induction rule: worker_step.induct)
  case (worker_stop t s item q)
  from worker_stop(6) obtain fds k where v: "pool_view N s fds k" by (auto simp: pool_inv_def)
  with worker_stop pop_split [of "pq s" fds k item q] show ?case by (auto simp: pool_view_def)
next
  case (worker_take t s item q)
  then have "queue_wf (pq s)" by (auto simp: pool_inv_def pool_view_def)
  with worker_take ring.get_law [of "pq s" item q] in_flight_upd [of t N "wpcs s" "WRun item"]
  show ?case by (simp add: owned_def)
qed simp

lemma main_step_pool: "main_step sock s s' \<Longrightarrow> pool_inv N (sv_pool s) \<Longrightarrow> pool_inv N (sv_pool s')"
proof (induction rule: main_step.induct)
  case (accept_conn s env connfd t)
  have "pool_step N (sv_pool s) ((sv_pool s)\<lparr>disp := DSubmit connfd\<rparr>)"
    using accept_conn by (intro pool_step_dispatcher dispatcher_step.submit) auto
  with accept_conn show ?case using pool_step_inv by simp
next
  case (submit_conn s fd q)
  from dispatcher_step.submit_push [OF submit_conn(1,2), of N] submit_conn(3)
  show ?case using pool_step_inv pool_step_dispatcher by fastforce
qed simp

lemma main_step_inv:
  assumes "main_step sock s s'" and "server_inv sock N s"
  shows "server_inv sock N s'"
  using assms main_step_pool [OF assms(1), of N]
proof (induction rule: main_step.induct)
  case (accept_fail s env connfd t)
  then have "t = sv_table s" using accept_cases [of env sock "sv_table s" connfd t] by simp
  with accept_fail show ?case by simp
next
  case (accept_conn s env connfd t)
  then obtain c where t: "t = (sv_table s)(connfd \<mapsto> c)" "armed c" "sv_table s connfd = None"
    using accept_cases [of env sock "sv_table s" connfd t] by auto
  then have new: "connfd \<noteq> sock_fd sock" "connfd \<notin> conn_fds sock (sv_table s)"
    using accept_conn(5) by (auto simp: server_inv_def conn_fds_def)
  with t accept_conn show ?case
    by (auto simp: server_inv_def conn_fds_open owned_def)
next
  case (submit_conn s fd q)
  then have "queue_wf (pq (sv_pool s))" by (auto simp: server_inv_def pool_inv_def pool_view_def)
  with submit_conn ring.put_law [of "pq (sv_pool s)" fd q] show ?case
    by (auto simp: server_inv_def owned_def)
qed

lemma returns_inv:
  assumes "t < N" and "wpcs (sv_pool s) t = WRun fd" and "server_inv sock N s"
  shows "server_inv sock N (s\<lparr>sv_table := close_socket fd (sv_table s),
      sv_pool := (sv_pool s)\<lparr>wpcs := (wpcs (sv_pool s))(t := WPop),
                             finished := finished (sv_pool s) @ [fd]\<rparr>\<rparr>)" (is "server_inv _ _ ?s")
proof -
  have pool: "pool_inv N (sv_pool ?s)"
    using assms worker_step.handler_return [OF assms(1,2)]
    by (auto simp: server_inv_def intro: pool_step_inv pool_step_worker)
  have "fd \<in># owned N (sv_pool s)"
    using worker_in_flight [of t N "wpcs (sv_pool s)" fd] assms(1,2) by (simp add: owned_def)
  then have "fd \<in># mset_set (conn_fds sock (sv_table s))" using assms(3) by (simp add: server_inv_def)
  moreover have "finite (conn_fds sock (sv_table s))" using assms(3) by (simp add: server_inv_def)
  ultimately have fd: "fd \<in> conn_fds sock (sv_table s)" by simp
  then have "fd \<noteq> sock_fd sock" by (simp add: conn_fds_def)
  note fd = fd this
  have flight: "in_flight N (wpcs (sv_pool s)) =
      add_mset fd (in_flight N ((wpcs (sv_pool s))(t := WPop)))"
    using in_flight_upd [OF assms(1), of "wpcs (sv_pool s)" WPop] assms(2) by simp
  have "owned N (sv_pool ?s) = owned N (sv_pool s) - {#fd#}"
    by (simp add: owned_def flight)
  with pool assms(3) fd show ?thesis
    by (auto simp: server_inv_def conn_fds_close mset_set_Diff close_lookup)
qed

lemma server_step_inv: "server_step sock N s s' \<Longrightarrow> server_inv sock N s \<Longrightarrow> server_inv sock N s'"
proof (induction rule: server_step.induct)
  case (pops s p)
  with pops_owned [of N "sv_pool s" p] pool_step_inv [OF pool_step_worker, of N "sv_pool s" p]
  show ?case by (auto simp: server_inv_def)
next
  case (signal_arrives s sig)
  then show ?case by (auto simp: server_inv_def deliver_def shutdown_handler_def)
qed (auto intro: main_step_inv returns_inv)

lemma serving_inv:
  assumes "block_sized env" and "main_init env = Running m"
  shows "server_inv (p_sock m) (tp_created (p_pool m)) (serving m)"
proof -
  from main_init_cases [OF assms(1)] assms(2)
  have m: "queue_wf (tp_q (p_pool m))" "queue_items (tp_q (p_pool m)) = []"
    "dom (p_table m) = {sock_fd (p_sock m)}"
    "p_signals m = (\<lambda>s. if s = SIGPIPE then SIG_IGN else Handler)"
    by (auto split: if_splits)
  then have "pool_inv (tp_created (p_pool m)) (sv_pool (serving m))"
    by (intro pool_init_inv) (simp add: pool_init_def serving_def)
  with m show ?thesis
    by (simp add: server_inv_def serving_def conn_fds_def owned_def in_flight_def)
qed

interpretation running_server: invariant_system
  "\<lambda>s. \<exists>env m. block_sized env \<and> main_init env = Running m \<and> p_sock m = sock
     \<and> tp_created (p_pool m) = N \<and> s = serving m"
  "server_step sock N" "server_inv sock N" for sock N
  by unfold_locales (auto intro: serving_inv server_step_inv)

section \<open>Every connection is accounted for\<close>

text \<open>
  C4: the running server accounts for every connection. After any run of the dispatcher loop, the
  workers and the signals: the open connections are exactly those being submitted, waiting in the
  queue or in a worker's hands, each with one owner, so no descriptor leaks and none is closed
  under a worker; each has both timeouts armed; the connections handed to workers and those still
  waiting are the accepted ones in the order of their acceptance; the listening socket stays open
  and the loop is not left. The process ends only by SIGTERM or SIGINT, with status 0.
\<close>

theorem server_accounts_connections:
  assumes "block_sized env" and "main_init env = Running m"
    and "(server_step (p_sock m) N)\<^sup>*\<^sup>* (serving m) s" and "N = tp_created (p_pool m)"
  shows "mset_set (conn_fds (p_sock m) (sv_table s)) =
      mset (pending (disp (sv_pool s))) + mset (queue_items (pq (sv_pool s)))
        + in_flight N (wpcs (sv_pool s))
    \<and> finite (conn_fds (p_sock m) (sv_table s)) \<and> sock_fd (p_sock m) \<in> dom (sv_table s)
    \<and> (\<forall>fd c. fd \<in> conn_fds (p_sock m) (sv_table s) \<and> sv_table s fd = Some c \<longrightarrow>
         so_rcvtimeo c = Some 5000000 \<and> so_sndtimeo c = Some 5000000)
    \<and> accepted s = started (sv_pool s) @ queued_fds (sv_pool s) @ pending (disp (sv_pool s))
    \<and> \<not> stopping (sv_pool s)
    \<and> (sv_end s = None \<or> sv_end s = Some (Exited 0))"
proof -
  have inv: "server_inv (p_sock m) N s"
    using assms by (intro running_server.reach_inv [of "p_sock m" N "serving m"]) auto
  then obtain fds k where v: "pool_view N (sv_pool s) fds k"
    by (auto simp: server_inv_def pool_inv_def)
  have "submitted (sv_pool s) = started (sv_pool s) @ queued_fds (sv_pool s)"
    using v pool_view_queued [OF v] by (simp add: pool_view_def)
  with inv show ?thesis
    by (auto simp: server_inv_def owned_def armed_def stopping_def EXIT_SUCCESS_def)
qed

text \<open>A sample run: a connection is accepted, then SIGTERM arrives.\<close>

lemma sample_running: "\<exists>m. main_init sample_boot = Running m"
  using main_init_cases [OF sample_boot_ok(1)] sample_boot_ok(2)
  by (cases "main_init sample_boot") auto

lemma sample_accept:
  assumes "main_init sample_boot = Running m"
  shows "\<exists>s. (server_step (p_sock m) N)\<^sup>*\<^sup>* (serving m) s \<and> accepted s = [4]
    \<and> sv_end s = Some (Exited 0)"
proof -
  from main_init_cases [OF sample_boot_ok(1)] assms have m: "p_sock m = \<lparr>sock_fd = 3\<rparr>"
    "p_table m 4 = None" "p_signals m SIGTERM = Handler"
    by (auto simp: sample_boot_def)
  let ?env = "\<lparr>a_accept = 4, a_rcvtimeo = True, a_sndtimeo = True\<rparr>"
  obtain t where a: "listener_accept ?env (p_sock m) (sv_table (serving m)) = (4, t)"
    by (simp add: listener_accept_def Let_def)
  let ?s = "(serving m)\<lparr>sv_table := t, accepted := accepted (serving m) @ [4],
      sv_pool := (sv_pool (serving m))\<lparr>disp := DSubmit 4\<rparr>\<rparr>"
  have 1: "server_step (p_sock m) N (serving m) ?s"
    by (rule server_step.dispatcher [OF _ main_step.accept_conn [OF _ _ a]])
      (use m in \<open>simp_all add: serving_def\<close>)
  have 2: "server_step (p_sock m) N ?s (deliver SIGTERM ?s)"
    by (rule server_step.signal_arrives) (simp add: serving_def)
  have "(server_step (p_sock m) N)\<^sup>*\<^sup>* (serving m) (deliver SIGTERM ?s)"
    using 1 2 by (meson converse_rtranclp_into_rtranclp rtranclp.rtrancl_refl)
  then show ?thesis using m(3)
    by (intro exI [of _ "deliver SIGTERM ?s"])
      (simp add: deliver_def serving_def shutdown_handler_def EXIT_SUCCESS_def)
qed

theorem server_accounts_connections_witness:
  "\<exists>(s :: server_sys). sv_end s = Some (Exited 0)
     \<and> started (sv_pool s) @ queued_fds (sv_pool s) @ pending (disp (sv_pool s)) = [4]"
proof -
  obtain m where m: "main_init sample_boot = Running m" using sample_running by blast
  from sample_accept [OF m] obtain s where s:
    "(server_step (p_sock m) (tp_created (p_pool m)))\<^sup>*\<^sup>* (serving m) s" "accepted s = [4]"
    "sv_end s = Some (Exited 0)" by blast
  from server_accounts_connections [OF sample_boot_ok(1) m s(1) refl] s(2,3) show ?thesis by auto
qed

end
