(* ===== verification/Server_Handlers.thy ===== *)
theory Server_Handlers
  imports Server_Locks
begin

text \<open>
  Correctness of the handlers of \<open>src/httpserver.c\<close>: what each leaves of the files, the descriptors,
  the lock and the audit log on every path, and what it answers.
\<close>

section \<open>Answering\<close>

text \<open>Handlers change only the streams of a connection, which the audit line does not show.\<close>

lemma audit_entry_of_streams [simp]:
  "audit_entry_of (c\<lparr>sock_out := so\<rparr>) res = audit_entry_of c res"
  "audit_entry_of (c\<lparr>sock_in := si\<rparr>) res = audit_entry_of c res"
  by (simp_all add: audit_entry_of_def conn_get_request_def conn_get_uri_def conn_get_header_def)

text \<open>The world after an entry has gone to the log.\<close>

definition audited :: "audit_entry \<Rightarrow> event list \<Rightarrow> world \<Rightarrow> world" where
  "audited e es w = w\<lparr>alog := log_audit (a_oper e) (a_uri e) (a_status e) (a_rid e) (alog w),
     trace := trace w @ es @ [EvAudit e]\<rparr>"

lemma audited_frame [simp]:
  "files (audited e es w) = files w" "resolve (audited e es w) = resolve w"
  "lock_dir (audited e es w) = lock_dir w" "open_fds (audited e es w) = open_fds w"
  "trace (audited e es w) = trace w @ es @ [EvAudit e]"
  by (simp_all add: audited_def)

lemma audited_log [simp]:
  "log_stream (alog (audited e es w)) = log_stream (alog w)"
  "log_stream (alog w) \<noteq> None \<Longrightarrow>
     log_content (alog (audited e es w)) = log_content (alog w) @ entry_line e"
  by (simp_all add: audited_def entry_line_def)

text \<open>The client's stream after a canned response and after a file.\<close>

definition resp_out :: "conn \<Rightarrow> Response \<Rightarrow> ostream" where
  "resp_out c res = sock_out (snd (conn_send_response c res))"

definition file_sent :: "conn \<Rightarrow> kenv \<Rightarrow> bytes \<Rightarrow> ostream" where
  "file_sent c env d =
     sock_out (fst (snd (conn_send_file c \<lparr>idata = d, isched = k_rsched env\<rparr> (of_nat (length d)))))"

lemma respond_eq:
  "respond c res w =
     (c\<lparr>sock_out := resp_out c res\<rparr>, audited (audit_entry_of c res) [EvSend res] w)"
proof (cases "conn_send_response c res")
  case (Pair r c')
  then show ?thesis
    by (cases rule: conn_send_response_cases)
      (auto simp: respond_def resp_out_def Pair audit_send_response_def audited_def record_ev_def
        Let_def)
qed

lemma resp_out_data:
  assumes "hard_faults (osched (sock_out c)) = {}"
  shows "odata (resp_out c res) = odata (sock_out c) @ response_bytes res"
proof (cases "conn_send_response c res")
  case (Pair r c')
  then show ?thesis using assms
    by (cases rule: conn_send_response_cases) (auto simp: resp_out_def Pair)
qed

lemma send_file_eq:
  "\<exists>r fd. conn_send_file c \<lparr>idata = d, isched = k_rsched env\<rparr> (of_nat (length d))
     = (r, c\<lparr>sock_out := file_sent c env d\<rparr>, fd)"
proof (cases "conn_send_file c \<lparr>idata = d, isched = k_rsched env\<rparr> (of_nat (length d))")
  case (fields r c' fd')
  from conn_send_file_sent [OF fields] obtain sout where "c' = c\<lparr>sock_out := sout\<rparr>" by blast
  with fields show ?thesis by (simp add: file_sent_def)
qed

lemma file_sent_data:
  assumes "length d < 2 ^ 64" and "hard_faults (osched (sock_out c)) = {}"
    and "hard_faults (k_rsched env) = {}"
  shows "odata (file_sent c env d) = odata (sock_out c) @ http_message 200 ''OK'' d"
proof (cases "conn_send_file c \<lparr>idata = d, isched = k_rsched env\<rparr> (of_nat (length d))")
  case (fields r c' fd')
  have len: "unat (of_nat (length d) :: 64 word) = length d"
    using assms(1) by (simp add: unat_of_nat take_bit_nat_eq_self)
  from conn_send_file_sent [OF fields] assms(2,3) show ?thesis
    by (cases r) (auto simp: len file_sent_def fields file_header_message)
qed

section \<open>The critical section\<close>

text \<open>The calls on the file of a URI, and the ways of answering with a status.\<close>

definition accesses :: "bytes \<Rightarrow> event set" where
  "accesses u = {EvAccess u, EvOpen u, EvStat u, EvTrunc u, EvWrite u}"

fun answer_with :: "Response \<Rightarrow> event \<Rightarrow> bool" where
  "answer_with res (EvSend r) \<longleftrightarrow> r = res"
| "answer_with res (EvSendFile d) \<longleftrightarrow> res = RESPONSE_OK"
| "answer_with res _ \<longleftrightarrow> False"

text \<open>One lock; under it the calls on the file, then one answer, then the audit line with the status of
  the answer; nothing but closing the file before the one unlock of the same lockfile.\<close>

definition critical :: "bytes \<Rightarrow> lock_op \<Rightarrow> bytes \<Rightarrow> Response \<Rightarrow> audit_entry \<Rightarrow> event list \<Rightarrow> bool" where
  "critical path op u res e t \<longleftrightarrow>
     (\<exists>work answer after. t = EvLock path op # work @ [answer, EvAudit e] @ after @ [EvUnlock path]
        \<and> work \<noteq> [] \<and> set work \<subseteq> accesses u \<and> answer_with res answer \<and> set after \<subseteq> {EvClose u}
        \<and> a_status e = unat (response_get_code res))"

definition unlocked_answer :: "audit_entry \<Rightarrow> event list \<Rightarrow> bool" where
  "unlocked_answer e t \<longleftrightarrow> (\<exists>res. t = [EvSend res, EvAudit e] \<and> a_status e = unat (response_get_code res))"

definition handled :: "(event list \<Rightarrow> bool) \<Rightarrow> audit_entry \<Rightarrow> world \<Rightarrow> world \<Rightarrow> bool" where
  "handled ok e w w' \<longleftrightarrow>
     resolve w' = resolve w \<and> lock_dir w' = lock_dir w \<and> open_fds w' = open_fds w
     \<and> log_stream (alog w') = log_stream (alog w)
     \<and> (log_stream (alog w) \<noteq> None \<longrightarrow> log_content (alog w') = log_content (alog w) @ entry_line e)
     \<and> (\<exists>t. trace w' = trace w @ t \<and> ok t)"

lemma handled_mono: "handled ok e w w' \<Longrightarrow> (\<And>t. ok t \<Longrightarrow> ok' t) \<Longrightarrow> handled ok' e w w'"
  by (auto simp: handled_def)

lemma audit_entry_status [simp]: "a_status (audit_entry_of c res) = unat (response_get_code res)"
  by (simp add: audit_entry_of_def)

lemma handled_audited: "handled (\<lambda>t. t = [EvSend res, EvAudit e]) e w (audited e [EvSend res] w)"
  by (auto simp: handled_def)

lemma record_ev_frame [simp]:
  "files (record_ev e w) = files w" "resolve (record_ev e w) = resolve w"
  by (simp_all add: record_ev_def)

lemmas sys_defs = sys_open_rd_def sys_open_creat_def sys_close_def record_ev_def set_file_def
  uri_unlock_def

text \<open>The world after a locked handler that leaves the files \<open>fs\<close>.\<close>

definition section_world :: "bytes \<Rightarrow> lock_op \<Rightarrow> event list \<Rightarrow> event \<Rightarrow> audit_entry \<Rightarrow> event list
    \<Rightarrow> (bytes \<Rightarrow> fnode option) \<Rightarrow> world \<Rightarrow> world" where
  "section_world path op work answer e after fs w = w\<lparr>files := fs,
      alog := log_audit (a_oper e) (a_uri e) (a_status e) (a_rid e) (alog w),
      trace := trace w @ EvLock path op # work @ [answer, EvAudit e] @ after @ [EvUnlock path]\<rparr>"

lemma section_world_handled:
  assumes "work \<noteq> []" and "set work \<subseteq> accesses u" and "answer_with res answer" and "set after \<subseteq> {EvClose u}"
  shows "handled (critical path op u res (audit_entry_of c res)) (audit_entry_of c res) w
    (section_world path op work answer (audit_entry_of c res) after fs w)"
proof -
  have "critical path op u res (audit_entry_of c res)
      (EvLock path op # work @ [answer, EvAudit (audit_entry_of c res)] @ after @ [EvUnlock path])"
    unfolding critical_def using assms audit_entry_status by blast
  then show ?thesis by (auto simp: handled_def entry_line_def section_world_def)
qed

lemma section_world_files [simp]: "files (section_world path op work answer e after fs w) = fs"
  by (simp add: section_world_def)

definition locks_ok :: "kenv \<Rightarrow> bool" where
  "locks_ok env \<longleftrightarrow> k_lock_open env = None \<and> flock_retry (k_flock env)"

definition lock_path :: "conn \<Rightarrow> world \<Rightarrow> bytes" where
  "lock_path c w = lock_path_for (lock_dir w) (conn_get_uri c) 192"

lemma file_at_frame [simp]:
  "file_at (w\<lparr>open_fds := n\<rparr>) u = file_at w u" "file_at (w\<lparr>trace := t\<rparr>) u = file_at w u"
  by (simp_all add: file_at_def)

lemma world_unlock:
  "\<lparr>files = fs, resolve = resolve w, lock_dir = lock_dir w, alog = al, open_fds = open_fds w,
     trace = t, \<dots> = world.more w\<rparr> = w\<lparr>files := fs, alog := al, trace := t\<rparr>"
  by simp

text \<open>Without the lock both handlers answer 500 and touch nothing.\<close>

lemma unlocked_handlers:
  assumes "\<not> locks_ok env"
  shows "handle_get env c w = respond c RESPONSE_INTERNAL_SERVER_ERROR w"
    and "handle_put env c w = respond c RESPONSE_INTERNAL_SERVER_ERROR w"
  using assms
  by (auto simp: locks_ok_def handle_get_def handle_put_def uri_lock_def Let_def
      split: option.splits)

text \<open>What a GET does once it holds the lock.\<close>

lemma handle_get_locked:
  assumes "locks_ok env" and u: "u = conn_get_uri c"
  shows "handle_get env c w =
    (case fst (sys_open_rd env u w) of
       Inl e \<Rightarrow>
         (c\<lparr>sock_out := resp_out c (get_open_error e)\<rparr>,
          section_world (lock_path c w) LOCK_SH [EvOpen u] (EvSend (get_open_error e))
            (audit_entry_of c (get_open_error e)) [] (files w) w)
     | Inr node \<Rightarrow>
         (case (k_fstat env, node) of
            (True, Regular d _ _) \<Rightarrow>
              (c\<lparr>sock_out := file_sent c env d\<rparr>,
               section_world (lock_path c w) LOCK_SH [EvOpen u, EvStat u] (EvSendFile d)
                 (audit_entry_of c RESPONSE_OK) [EvClose u] (files w) w)
          | _ \<Rightarrow>
              let res = (if k_fstat env then RESPONSE_FORBIDDEN else RESPONSE_INTERNAL_SERVER_ERROR)
              in (c\<lparr>sock_out := resp_out c res\<rparr>,
                  section_world (lock_path c w) LOCK_SH [EvOpen u, EvStat u] (EvSend res)
                    (audit_entry_of c res) [EvClose u] (files w) w)))"
proof -
  obtain R F where send: "\<And>d. conn_send_file c \<lparr>idata = d, isched = k_rsched env\<rparr>
      (of_nat (length d)) = (R d, c\<lparr>sock_out := file_sent c env d\<rparr>, F d)"
    using send_file_eq [of c _ env] by (metis fst_conv snd_conv)
  show ?thesis
    using assms
    by (auto simp: handle_get_def uri_lock_def locks_ok_def lock_path_def respond_eq sys_defs send
        audited_def section_world_def audit_send_response_def Let_def
        split: option.splits fnode.splits bool.splits)
qed

text \<open>What a PUT receives: the result of \<open>conn_recv_file\<close> and the bytes stored.\<close>

definition recv_result :: "conn \<Rightarrow> kenv \<Rightarrow> Response option" where
  "recv_result c env = fst (conn_recv_file c \<lparr>odata = [], osched = k_wsched env\<rparr>)"

definition recv_data :: "conn \<Rightarrow> kenv \<Rightarrow> bytes" where
  "recv_data c env = odata (snd (snd (conn_recv_file c \<lparr>odata = [], osched = k_wsched env\<rparr>)))"

lemma resp_out_sock_in [simp]: "resp_out (c\<lparr>sock_in := si\<rparr>) res = resp_out c res"
  by (auto simp: resp_out_def conn_send_response_def split: prod.splits sum.splits)

lemma recv_file_eq:
  "\<exists>si fd. conn_recv_file c \<lparr>odata = [], osched = k_wsched env\<rparr>
     = (recv_result c env, c\<lparr>sock_in := si\<rparr>, fd) \<and> odata fd = recv_data c env"
proof -
  have "\<exists>si. c = c\<lparr>sock_in := si\<rparr>" by (rule exI [of _ "sock_in c"]) simp
  then show ?thesis
    by (auto simp: recv_result_def recv_data_def conn_recv_file_def Let_def
        split: prod.splits sum.splits)
qed

definition put_status :: "conn \<Rightarrow> kenv \<Rightarrow> bool \<Rightarrow> Response" where
  "put_status c env existed = (case recv_result c env of Some r \<Rightarrow> r
     | None \<Rightarrow> if existed then RESPONSE_OK else RESPONSE_CREATED)"

text \<open>What a PUT does once it holds the lock.\<close>

lemma handle_put_locked:
  assumes "locks_ok env" and u: "u = conn_get_uri c"
  shows "\<exists>si. handle_put env c w =
    (case fst (sys_open_creat env u w) of
       Inl e \<Rightarrow>
         (c\<lparr>sock_out := resp_out c (put_open_error e)\<rparr>,
          section_world (lock_path c w) LOCK_EX [EvAccess u, EvOpen u] (EvSend (put_open_error e))
            (audit_entry_of c (put_open_error e)) [] (files w) w)
     | Inr node \<Rightarrow>
         let (rd, wr) = (case node of Regular _ rd wr \<Rightarrow> (rd, wr) | Directory \<Rightarrow> (True, True))
         in if \<not> k_ftruncate env then
              (c\<lparr>sock_out := resp_out c RESPONSE_INTERNAL_SERVER_ERROR\<rparr>,
               section_world (lock_path c w) LOCK_EX
                 [EvAccess u, EvOpen u, EvTrunc u] (EvSend RESPONSE_INTERNAL_SERVER_ERROR)
                 (audit_entry_of c RESPONSE_INTERNAL_SERVER_ERROR) [EvClose u]
                 (if file_at w u = None then (files w)(resolve w u \<mapsto> node) else files w) w)
            else let res = put_status c env (file_at w u \<noteq> None)
              in (c\<lparr>sock_in := si, sock_out := resp_out c res\<rparr>,
                  section_world (lock_path c w) LOCK_EX
                    [EvAccess u, EvOpen u, EvTrunc u, EvWrite u] (EvSend res)
                    (audit_entry_of c res) [EvClose u]
                    ((files w)(resolve w u \<mapsto> Regular (recv_data c env) rd wr)) w))"
proof -
  obtain si fd where rf: "conn_recv_file c \<lparr>odata = [], osched = k_wsched env\<rparr>
      = (recv_result c env, c\<lparr>sock_in := si\<rparr>, fd)" "odata fd = recv_data c env"
    using recv_file_eq by blast
  have "conn_get_uri (c\<lparr>sock_in := si\<rparr>) = conn_get_uri c" by (simp add: conn_get_uri_def)
  then show ?thesis
    using assms
    by (intro exI [of _ si])
      (auto simp: handle_put_def put_into_def uri_lock_def locks_ok_def lock_path_def respond_eq
        sys_defs rf put_status_def audited_def section_world_def Let_def
        split: option.splits fnode.splits)
qed

section \<open>What every path keeps\<close>

text \<open>The client was sent an HTTP message with the status; only a part of it when writing to the client
  or reading the file fails.\<close>

definition answered :: "kenv \<Rightarrow> Response \<Rightarrow> ostream \<Rightarrow> ostream \<Rightarrow> bool" where
  "answered env res so so' \<longleftrightarrow> (\<exists>sent body. odata so' = odata so @ sent
     \<and> prefix sent (http_message (unat (response_get_code res)) (response_get_message res) body)
     \<and> (hard_faults (osched so) \<union> hard_faults (k_rsched env) = {} \<longrightarrow>
          sent = http_message (unat (response_get_code res)) (response_get_message res) body))"

lemma resp_out_answered: "answered env res (sock_out c) (resp_out c res)"
proof (cases "conn_send_response c res")
  case (Pair r c')
  then show ?thesis
    by (cases rule: conn_send_response_cases)
      (auto simp: resp_out_def Pair answered_def response_bytes_message
        intro!: exI [of _ "response_get_message res @ [LF]"] take_is_prefix)
qed

lemma file_sent_answered: "answered env RESPONSE_OK (sock_out c) (file_sent c env d)"
proof (cases "conn_send_file c \<lparr>idata = d, isched = k_rsched env\<rparr> (of_nat (length d))")
  case (fields r c' fd')
  let ?n = "unat (of_nat (length d) :: 64 word)"
  have "?n \<le> length d" by (simp add: unat_of_nat take_bit_nat_less_eq_self)
  then have msg: "file_header ?n @ take ?n d = http_message 200 ''OK'' (take ?n d)"
    using file_header_message [of "take ?n d"] by simp
  from conn_send_file_sent [OF fields] obtain sout where c': "c' = c\<lparr>sock_out := sout\<rparr>"
    and pre: "prefix (odata (sock_out c)) (odata sout)"
    and sent: "prefix (odata sout) (odata (sock_out c) @ http_message 200 ''OK'' (take ?n d))"
      "hard_faults (osched (sock_out c)) \<union> hard_faults (k_rsched env) = {} \<Longrightarrow>
         odata sout = odata (sock_out c) @ http_message 200 ''OK'' (take ?n d)"
    unfolding istream.simps msg by (cases r) auto
  from pre obtain b where b: "odata sout = odata (sock_out c) @ b" by (auto simp: prefix_def)
  with sent have "prefix b (http_message 200 ''OK'' (take ?n d))"
    "hard_faults (osched (sock_out c)) \<union> hard_faults (k_rsched env) = {} \<Longrightarrow>
       b = http_message 200 ''OK'' (take ?n d)" by simp_all
  with b show ?thesis
    unfolding answered_def file_sent_def fields c'
    by (intro exI [of _ b] exI [of _ "take ?n d"]) simp
qed

text \<open>Handling a request under the lock, or refusing it without the lock when that cannot be had.\<close>

definition locked_section :: "kenv \<Rightarrow> lock_op \<Rightarrow> conn \<Rightarrow> world \<Rightarrow> conn \<times> world \<Rightarrow> bool" where
  "locked_section env op c w r \<longleftrightarrow> (\<exists>res. answered env res (sock_out c) (sock_out (fst r))
     \<and> handled (if locks_ok env
         then critical (lock_path c w) op (conn_get_uri c) res (audit_entry_of c res)
         else (\<lambda>t. res = RESPONSE_INTERNAL_SERVER_ERROR \<and> t = [EvSend res, EvAudit (audit_entry_of c res)]))
       (audit_entry_of c res) w (snd r))"

lemma locked_sectionI:
  assumes "locks_ok env" and "answered env res (sock_out c) so" and "work \<noteq> []"
    and "set work \<subseteq> accesses (conn_get_uri c)" and "answer_with res answer"
    and "set after \<subseteq> {EvClose (conn_get_uri c)}"
  shows "locked_section env op c w (c\<lparr>sock_out := so\<rparr>,
      section_world (lock_path c w) op work answer (audit_entry_of c res) after fs w)"
    and "locked_section env op c w (c\<lparr>sock_in := si, sock_out := so\<rparr>,
      section_world (lock_path c w) op work answer (audit_entry_of c res) after fs w)"
  using assms section_world_handled [OF assms(3-6)] by (auto simp: locked_section_def)

lemma refused_section:
  "\<not> locks_ok env \<Longrightarrow> locked_section env op c w (respond c RESPONSE_INTERNAL_SERVER_ERROR w)"
  unfolding locked_section_def respond_eq
  by (intro exI [of _ RESPONSE_INTERNAL_SERVER_ERROR])
    (simp add: resp_out_answered handled_audited)

lemma get_section: "locked_section env LOCK_SH c w (handle_get env c w)"
proof (cases "locks_ok env")
  case False
  then show ?thesis by (simp add: unlocked_handlers refused_section)
next
  case True
  then show ?thesis unfolding handle_get_locked [OF True refl]
    by (auto simp: Let_def accesses_def resp_out_answered file_sent_answered
        intro!: locked_sectionI split: sum.splits bool.splits fnode.splits)
qed

lemma put_section: "locked_section env LOCK_EX c w (handle_put env c w)"
proof (cases "locks_ok env")
  case False
  then show ?thesis by (simp add: unlocked_handlers refused_section)
next
  case True
  from handle_put_locked [OF True refl, of c w] True show ?thesis
    by (elim exE ssubst) (auto simp: Let_def accesses_def resp_out_answered
        intro!: locked_sectionI split: sum.splits bool.splits fnode.splits prod.splits)
qed

text \<open>The discipline of one answered request, with or without the lock.\<close>

definition disciplined :: "bytes \<Rightarrow> lock_op \<Rightarrow> audit_entry \<Rightarrow> world \<Rightarrow> world \<Rightarrow> bool" where
  "disciplined path op e w w' \<longleftrightarrow>
     handled (\<lambda>t. unlocked_answer e t \<or> (\<exists>u res. critical path op u res e t)) e w w'"

lemma locked_section_disciplined:
  assumes "locked_section env op c w r"
  shows "\<exists>res. disciplined (lock_path c w) op (audit_entry_of c res) w (snd r)
    \<and> answered env res (sock_out c) (sock_out (fst r))"
proof -
  from assms obtain res where "answered env res (sock_out c) (sock_out (fst r))"
    and h: "handled (if locks_ok env
         then critical (lock_path c w) op (conn_get_uri c) res (audit_entry_of c res)
         else (\<lambda>t. res = RESPONSE_INTERNAL_SERVER_ERROR \<and> t = [EvSend res, EvAudit (audit_entry_of c res)]))
       (audit_entry_of c res) w (snd r)"
    by (auto simp: locked_section_def)
  moreover have "disciplined (lock_path c w) op (audit_entry_of c res) w (snd r)"
    unfolding disciplined_def
    by (rule handled_mono [OF h]) (auto simp: unlocked_answer_def split: if_splits)
  ultimately show ?thesis by blast
qed

lemma disciplined_respond:
  "disciplined path op (audit_entry_of c res) w (snd (respond c res w))"
  unfolding disciplined_def respond_eq snd_conv
  by (rule handled_mono [OF handled_audited]) (simp add: unlocked_answer_def)

lemma handle_get_files: "files (snd (handle_get env c w)) = files w"
proof (cases "locks_ok env")
  case True
  show ?thesis unfolding handle_get_locked [OF True refl]
    by (auto simp: Let_def split: sum.splits bool.splits fnode.splits)
qed (simp add: unlocked_handlers respond_eq)

lemma handle_put_files:
  assumes "p \<noteq> resolve w (conn_get_uri c)"
  shows "files (snd (handle_put env c w)) p = files w p"
proof (cases "locks_ok env")
  case True
  from handle_put_locked [OF True refl, of c w] show ?thesis
    by (elim exE ssubst) (use assms in \<open>auto simp: Let_def
        split: sum.splits bool.splits fnode.splits prod.splits\<close>)
qed (simp add: unlocked_handlers respond_eq)

text \<open>
  C8: on every path through \<open>handle_get\<close> and \<open>handle_put\<close>, whatever the kernel does. If the lockfile
  can be locked, the handler takes it once (shared for GET, exclusive for PUT), makes all its calls
  on the file of the URI, failing ones included, then answers once, then writes one audit line with
  the status it answered, then at most closes the file, and unlocks the same lockfile. If it cannot
  be locked, the handler answers 500, writes one audit line with 500 and calls nothing on any file.
  In both cases the client is sent the message of the audited status, all of it unless a transfer
  fails, and no descriptor is leaked. GET changes no file; PUT changes no file but the
  one its URI names, and none without the lock.
\<close>

theorem handlers_critical_section:
  "locked_section env LOCK_SH c w (handle_get env c w)
   \<and> files (snd (handle_get env c w)) = files w
   \<and> locked_section env LOCK_EX c w (handle_put env c w)
   \<and> (\<forall>p. p = resolve w (conn_get_uri c) \<or> files (snd (handle_put env c w)) p = files w p)
   \<and> (locks_ok env \<or> files (snd (handle_put env c w)) = files w)"
proof (intro conjI allI)
  fix p
  show "p = resolve w (conn_get_uri c) \<or> files (snd (handle_put env c w)) p = files w p"
    using handle_put_files by blast
  show "locks_ok env \<or> files (snd (handle_put env c w)) = files w"
    by (cases "locks_ok env") (simp_all add: unlocked_handlers respond_eq)
qed (fact get_section handle_get_files put_section)+

section \<open>A whole connection\<close>

lemma disciplined_close:
  "disciplined path op e w w' \<Longrightarrow> disciplined path op e (close_conn w) (close_conn w')"
  by (auto simp: disciplined_def handled_def close_conn_def)

lemma parse_empty:
  assumes "conn_new a sin sout = Some c" and "conn_parse rl hf c = (r, c')"
  shows "conn_is_empty c' \<longleftrightarrow> fst (read_until sin CONN_BUFFER_SIZE (crlf @ crlf)) = Inr 0"
proof -
  note fresh = conn_new_fresh [OF assms(1)]
  obtain q buf s' where rd: "read_until (sock_in c) CONN_BUFFER_SIZE (crlf @ crlf) = (q, buf, s')"
    by (metis prod_cases3)
  from conn_parse_reads [OF _ _ this assms(2)] fresh rd show ?thesis
    by (cases q) (auto simp: conn_is_empty_def)
qed

lemma parse_none_nonempty:
  assumes "conn_new a sin sout = Some c" and "conn_parse rl hf c = (None, c')"
  shows "\<not> conn_is_empty c'"
  using conn_parse_step_wf [of c rl hf] conn_new_fresh [OF assms(1)] assms(2)
  by (simp add: conn_is_empty_def)

lemma handle_connection_cases:
  assumes "conn_new (k_alloc env) sin sout = Some c"
    and "conn_parse (k_regcomp_line env) (k_regcomp_header env) c = (r, c')"
  shows "handle_connection env sin sout w =
    (case r of
       Some res \<Rightarrow>
         if conn_is_empty c' then (sock_out c', close_conn w)
         else (sock_out (fst (respond c' (parse_status res c') w)),
               close_conn (snd (respond c' (parse_status res c') w)))
     | None \<Rightarrow> (sock_out (fst (dispatch env c' w)), close_conn (snd (dispatch env c' w))))"
  using assms
  by (auto simp: handle_connection_def Let_def split_beta split: option.splits)

lemma dispatch_answered:
  "\<exists>res op. disciplined (lock_path c w) op (audit_entry_of c res) w (snd (dispatch env c w))
     \<and> answered env res (sock_out c) (sock_out (fst (dispatch env c w)))"
proof (cases "conn_get_request c")
  case REQUEST_GET
  then show ?thesis using locked_section_disciplined [OF get_section] by (fastforce simp: dispatch_def)
next
  case REQUEST_PUT
  then show ?thesis using locked_section_disciplined [OF put_section] by (fastforce simp: dispatch_def)
next
  case REQUEST_UNSUPPORTED
  then show ?thesis using disciplined_respond [of "lock_path c w" _ c RESPONSE_NOT_IMPLEMENTED w] resp_out_answered
    by (auto simp: dispatch_def handle_unsupported_def respond_eq intro!: exI [of _ RESPONSE_NOT_IMPLEMENTED])
qed

lemma dispatch_disciplined:
  "\<exists>res op. disciplined (lock_path c w) op (audit_entry_of c res) w (snd (dispatch env c w))"
  using dispatch_answered by blast

text \<open>
  C7: whatever a client sends and whatever the kernel does, \<open>handle_connection\<close> closes the
  connection's descriptor and leaks no other. When the client closes without sending a byte (or the
  connection object cannot be allocated) nothing is sent, nothing is audited and nothing else
  changes; in every other case exactly one audit line is written, in a critical section or, when
  the request was refused before one, beside the answer.
\<close>

theorem connection_accounted:
  "case handle_connection env sin sout w of (out, w') \<Rightarrow>
     open_fds w' = open_fds w - 1
     \<and> (if k_alloc env \<and> fst (read_until sin CONN_BUFFER_SIZE (crlf @ crlf)) \<noteq> Inr 0
        then \<exists>path op e. disciplined path op e (w\<lparr>open_fds := open_fds w - 1\<rparr>) w'
        else out = sout \<and> w' = w\<lparr>open_fds := open_fds w - 1\<rparr>)"
proof (cases "conn_new (k_alloc env) sin sout")
  case None
  then show ?thesis by (auto simp: handle_connection_def conn_new_def close_conn_def split: if_splits)
next
  case (Some c)
  obtain r c' where cp: "conn_parse (k_regcomp_line env) (k_regcomp_header env) c = (r, c')"
    by fastforce
  note hc = handle_connection_cases [OF Some cp, of w]
    and empty = parse_empty [OF Some cp]
    and out = conn_parse_step_wf [of c "k_regcomp_line env" "k_regcomp_header env"]
  have fds: "disciplined path op e (close_conn w) w' \<Longrightarrow> open_fds w' = open_fds w - 1"
    for path op e w' by (simp add: disciplined_def handled_def close_conn_def)
  have d: "\<exists>path op e. disciplined path op e (close_conn w) (close_conn (snd (dispatch env c' w)))"
    using dispatch_disciplined disciplined_close by blast
  have e: "\<exists>path op e. disciplined path op e (close_conn w) (close_conn (snd (respond c' res w)))" for res
    using disciplined_respond disciplined_close by blast
  show ?thesis
  proof (cases r)
    case None
    with parse_none_nonempty [OF Some] cp empty d fds hc conn_new_fresh [OF Some] show ?thesis
      by (fastforce simp: close_conn_def)
  next
    case (Some res)
    with empty e [of "parse_status res c'"] fds hc out cp conn_new_fresh [OF \<open>conn_new _ _ _ = Some c\<close>]
    show ?thesis by (fastforce simp: close_conn_def)
  qed
qed

end
