(* ===== verification/Server_Refinement.thy ===== *)
theory Server_Refinement
  imports Server_Handlers
begin

text \<open>
  What a client can rely on: an abstract server that maps a request to a status, an answer and a
  new file system in one step, and the proof that the handlers implement it. On top of it, a file
  stored by one connection is what the next connection gets.
\<close>

section \<open>The abstract server\<close>

definition canned :: "Response \<Rightarrow> bytes" where
  "canned res = http_message (unat (response_get_code res)) (response_get_message res)
     (response_get_message res @ [LF])"

fun serve :: "(bytes \<Rightarrow> fnode option) \<Rightarrow> Request \<Rightarrow> bytes \<Rightarrow> bytes
    \<Rightarrow> Response \<times> bytes \<times> (bytes \<Rightarrow> fnode option)" where
  "serve fs REQUEST_GET p body =
     (case fs p of
        None \<Rightarrow> (RESPONSE_NOT_FOUND, canned RESPONSE_NOT_FOUND, fs)
      | Some (Regular d True _) \<Rightarrow> (RESPONSE_OK, http_message 200 ''OK'' d, fs)
      | _ \<Rightarrow> (RESPONSE_FORBIDDEN, canned RESPONSE_FORBIDDEN, fs))"
| "serve fs REQUEST_PUT p body =
     (case fs p of
        None \<Rightarrow> (RESPONSE_CREATED, canned RESPONSE_CREATED, fs(p \<mapsto> Regular body True True))
      | Some (Regular d rd True) \<Rightarrow>
          (RESPONSE_OK, canned RESPONSE_OK, fs(p \<mapsto> Regular body rd True))
      | _ \<Rightarrow> (RESPONSE_FORBIDDEN, canned RESPONSE_FORBIDDEN, fs))"
| "serve fs REQUEST_UNSUPPORTED p body =
     (RESPONSE_NOT_IMPLEMENTED, canned RESPONSE_NOT_IMPLEMENTED, fs)"

text \<open>A kernel without failures: signals may interrupt any call and transfers may be cut up at
  will, but nothing runs out and no call fails for reasons beyond the file's own state.\<close>

definition benign :: "kenv \<Rightarrow> bool" where
  "benign env \<longleftrightarrow> k_alloc env \<and> k_regcomp_line env \<and> k_regcomp_header env \<and> k_lock_open env = None
     \<and> set (k_flock env) \<subseteq> {EINTR} \<and> k_open env = None \<and> k_fstat env \<and> k_ftruncate env
     \<and> hard_faults (k_rsched env) = {} \<and> hard_faults (k_wsched env) = {}"

definition calm :: "conn \<Rightarrow> bool" where
  "calm c \<longleftrightarrow> hard_faults (osched (sock_out c)) = {} \<and> hard_faults (isched (sock_in c)) = {}"

definition small_files :: "world \<Rightarrow> bool" where
  "small_files w \<longleftrightarrow> (\<forall>p d rd wr. files w p = Some (Regular d rd wr) \<longrightarrow> length d < 2 ^ 64)"

lemma flock_retry_EINTR: "set es \<subseteq> {EINTR} \<Longrightarrow> flock_retry es"
  by (induction es) auto

lemma benign_locks: "benign env \<Longrightarrow> locks_ok env"
  by (simp add: benign_def locks_ok_def flock_retry_EINTR)

lemma section_world_alog [simp]:
  "alog (section_world path op work answer e after fs w) =
     log_audit (a_oper e) (a_uri e) (a_status e) (a_rid e) (alog w)"
  "resolve (section_world path op work answer e after fs w) = resolve w"
  by (simp_all add: section_world_def)

lemma resp_out_canned:
  "calm c \<Longrightarrow> odata (resp_out c res) = odata (sock_out c) @ canned res"
  by (simp add: calm_def resp_out_data response_bytes_message canned_def)

lemma recv_calm:
  assumes "benign env" and "calm c" and "conn_wf c" and "0 \<le> content_length c"
  shows "recv_result c env = None \<and> recv_data c env = put_body c"
proof (cases "conn_recv_file c \<lparr>odata = [], osched = k_wsched env\<rparr>")
  case (fields r c' fd')
  from conn_recv_file_stored [OF fields assms(3,4)] assms(1,2) show ?thesis
    by (auto simp: recv_result_def recv_data_def fields calm_def benign_def)
qed

text \<open>The three agreements between a handler and \<open>serve\<close>.\<close>

definition implements :: "conn \<Rightarrow> world \<Rightarrow> conn \<times> world \<Rightarrow> bool" where
  "implements c w r \<longleftrightarrow>
     (case serve (files w) (conn_get_request c) (resolve w (conn_get_uri c)) (put_body c) of
        (res, reply, fs) \<Rightarrow>
          files (snd r) = fs \<and> odata (sock_out (fst r)) = odata (sock_out c) @ reply
          \<and> (let e = audit_entry_of c res
             in alog (snd r) = log_audit (a_oper e) (a_uri e) (a_status e) (a_rid e) (alog w)))"

lemma handle_get_implements:
  assumes "benign env" and "calm c" and "small_files w" and "conn_get_request c = REQUEST_GET"
  shows "implements c w (handle_get env c w)"
proof -
  have env: "k_open env = None" "k_fstat env" "hard_faults (k_rsched env) = {}"
    using assms(1) by (simp_all add: benign_def)
  have sent: "odata (file_sent c env d) = odata (sock_out c) @ http_message 200 ''OK'' d"
    if "files w (resolve w (conn_get_uri c)) = Some (Regular d rd wr)" for d rd wr
    using file_sent_data [of d c env] that assms(2,3) env by (auto simp: calm_def small_files_def)
  show ?thesis
    using env assms(4) sent
    by (auto simp: implements_def handle_get_locked [OF benign_locks [OF assms(1)] refl]
        sys_open_rd_def file_at_def resp_out_canned [OF assms(2)] get_open_error_def Let_def
        split: option.splits fnode.splits bool.splits)
qed

lemma handle_put_implements:
  assumes "benign env" and "calm c" and "conn_wf c" and "0 \<le> content_length c"
    and "conn_get_request c = REQUEST_PUT"
  shows "implements c w (handle_put env c w)"
proof -
  have env: "k_open env = None" "k_ftruncate env" using assms(1) by (simp_all add: benign_def)
  note rc = recv_calm [OF assms(1-4)]
  from handle_put_locked [OF benign_locks [OF assms(1)] refl, of c w] show ?thesis
    by (elim exE ssubst) (use env assms(5) in \<open>auto simp: implements_def sys_open_creat_def file_at_def
        resp_out_canned [OF assms(2)] put_open_error_def put_status_def rc Let_def
        split: option.splits fnode.splits bool.splits\<close>)
qed

lemma dispatch_implements:
  assumes "benign env" and "calm c" and "conn_wf c" and "0 \<le> content_length c" and "small_files w"
  shows "implements c w (dispatch env c w)"
proof (cases "conn_get_request c")
  case REQUEST_UNSUPPORTED
  then show ?thesis
    by (simp add: implements_def dispatch_def handle_unsupported_def respond_eq audited_def
        resp_out_canned [OF assms(2)] Let_def)
qed (use assms in \<open>simp_all add: dispatch_def handle_get_implements handle_put_implements\<close>)

section \<open>Whole connections\<close>

text \<open>A request as it arrives: a well-formed head of version x.1 that fits the buffer, and a body
  that does not look like header lines and is not longer than declared.\<close>

definition well_formed_request ::
  "istream \<Rightarrow> bytes \<Rightarrow> bytes \<Rightarrow> (bytes \<times> bytes) list \<Rightarrow> bytes \<Rightarrow> bool" where
  "well_formed_request sin m u hs body \<longleftrightarrow>
     wf_method m \<and> wf_uri u \<and> wf_headers hs
     \<and> length (request_head m u (CHR ''1'') (CHR ''1'') hs) \<le> CONN_BUFFER_SIZE
     \<and> regexec False HEADER_FIELD (crlf @ body) = None
     \<and> int (length body) \<le> declared_length hs
     \<and> idata sin = request_head m u (CHR ''1'') (CHR ''1'') hs @ body
     \<and> hard_faults (isched sin) = {}"

lemma parsed_request:
  assumes "well_formed_request sin m u hs body" and "hard_faults (osched sout) = {}"
    and c: "conn_new True sin sout = Some c"
  shows "\<exists>c'. conn_parse True True c = (None, c') \<and> calm c' \<and> conn_wf c' \<and> 0 \<le> content_length c'
    \<and> conn_get_request c' = method_of (m @ '' /'') \<and> conn_get_uri c' = u
    \<and> request_id c' = declared_id hs \<and> sock_out c' = sout \<and> put_body c' = body"
proof -
  have d: "is_digit (CHR ''1'')" by (simp add: is_digit_def)
  from assms(1) have len: "int (length body) \<le> declared_length hs"
    by (simp add: well_formed_request_def)
  from assms(1) d obtain c' b0 where p: "conn_parse True True c = (None, c')"
    and f: "request c' = method_of (m @ '' /'')" "uri c' = u" "content_length c' = declared_length hs"
      "request_id c' = declared_id hs" "in_message c' = int (length b0)" "sock_out c' = sout"
      "slice (buffer c') (nat (message_start c')) (nat (message_start c' + in_message c')) = b0"
      "body = b0 @ idata (sock_in c')"
    using conn_parse_wellformed [OF _ _ d _ _ _ _ _ c, of m u hs body]
    by (auto simp: well_formed_request_def)
  note fresh = conn_new_fresh [OF c]
  have wf: "conn_wf c'" using conn_parse_step_wf [of c True True] fresh p by simp
  obtain q buf s' where rd: "read_until (sock_in c) CONN_BUFFER_SIZE (crlf @ crlf) = (q, buf, s')"
    by (metis prod_cases3)
  have s': "sock_in c' = s'" using conn_parse_reads [OF _ _ rd p] fresh by simp
  have "hard_faults (isched s') = {}"
  proof (cases q)
    case (Inl e)
    with conn_parse_branches(1) [OF rd [unfolded Inl], of True True] p show ?thesis by simp
  next
    case (Inr n)
    with rd read_until_Inr [of "sock_in c"] fresh assms(1) show ?thesis
      by (fastforce simp: well_formed_request_def)
  qed
  then have "calm c'" using assms(2) f(6) s' by (simp add: calm_def)
  moreover have "put_body c' = body"
    using f len by (auto simp: put_body_def buffered_def)
  ultimately show ?thesis using p wf f len
    by (auto simp: conn_get_request_def conn_get_uri_def)
qed

lemma connection_implements:
  assumes "benign env" and "small_files w" and "well_formed_request sin m u hs body"
    and "hard_faults (osched sout) = {}"
  shows "case handle_connection env sin sout w of (out, w') \<Rightarrow>
    (case serve (files w) (method_of (m @ '' /'')) (resolve w u) body of (res, reply, fs) \<Rightarrow>
       files w' = fs \<and> odata out = odata sout @ reply
       \<and> alog w' = log_audit (request_get_str (method_of (m @ '' /''))) u
           (unat (response_get_code res)) (declared_id hs) (alog w)
       \<and> resolve w' = resolve w)"
proof -
  obtain c where c: "conn_new True sin sout = Some c" by (simp add: conn_new_def)
  from parsed_request [OF assms(3,4) c] obtain c' where
    p: "conn_parse True True c = (None, c')" and ok: "calm c'" "conn_wf c'" "0 \<le> content_length c'"
    and f: "conn_get_request c' = method_of (m @ '' /'')" "conn_get_uri c' = u"
      "request_id c' = declared_id hs" "sock_out c' = sout" "put_body c' = body"
    by blast
  have env: "k_alloc env" "k_regcomp_line env" "k_regcomp_header env"
    using assms(1) by (simp_all add: benign_def)
  have hc: "handle_connection env sin sout w =
      (sock_out (fst (dispatch env c' w)), close_conn (snd (dispatch env c' w)))"
    using handle_connection_cases [of env sin sout c None c' w] c p env by simp
  have "resolve (snd (dispatch env c' w)) = resolve w"
    using dispatch_disciplined [of c' w env] by (auto simp: disciplined_def handled_def)
  with dispatch_implements [OF assms(1) ok assms(2)] f show ?thesis
    by (auto simp: hc implements_def close_conn_def audit_entry_of_def conn_get_header_def Let_def
        split: prod.splits)
qed

text \<open>
  C5: \<open>handle_connection\<close> implements the abstract server. Under a kernel without failures, for
  every well-formed request however the network cuts it up, the files change, the client is
  answered and the audit log grows exactly as \<open>serve\<close> says for the request's method, URI and body:
  404, 403, 200 with the content, 201 for a new file, 200 for a replaced one, 501.
\<close>

theorem connection_refines_serve:
  assumes "benign env" and "small_files w" and "well_formed_request sin m u hs body"
    and "hard_faults (osched sout) = {}"
  shows "case handle_connection env sin sout w of (out, w') \<Rightarrow>
    (case serve (files w) (method_of (m @ '' /'')) (resolve w u) body of (res, reply, fs) \<Rightarrow>
       files w' = fs \<and> odata out = odata sout @ reply
       \<and> alog w' = log_audit (request_get_str (method_of (m @ '' /''))) u
           (unat (response_get_code res)) (declared_id hs) (alog w)
       \<and> resolve w' = resolve w)"
  using assms by (rule connection_implements)

definition calm_env :: kenv where
  "calm_env = \<lparr>k_alloc = True, k_regcomp_line = True, k_regcomp_header = True, k_lock_open = None,
     k_flock = [EINTR], k_open = None, k_fstat = True, k_ftruncate = True, k_rsched = [Xfer 0],
     k_wsched = [Fail EINTR]\<rparr>"

definition empty_world :: world where
  "empty_world = \<lparr>files = (\<lambda>_. None), resolve = id, lock_dir = lock_dir_name 1 2,
     alog = log_init (Some LogFile) log_static, open_fds = 1, trace = []\<rparr>"

definition no_out :: ostream where
  "no_out = \<lparr>odata = [], osched = [Xfer 3]\<rparr>"

definition get_input :: istream where
  "get_input = \<lparr>idata = request_head ''GET'' ''a.txt'' (CHR ''1'') (CHR ''1'') [], isched = []\<rparr>"

lemma calm_env_benign: "benign calm_env"
  by (simp add: benign_def calm_env_def)

lemma empty_world_small: "small_files empty_world"
  by (simp add: small_files_def empty_world_def)

lemma no_out_calm: "hard_faults (osched no_out) = {}"
  by (simp add: no_out_def)

lemma sample_input_wf:
  "well_formed_request sample_input ''PUT'' ''a.txt''
     [(''Content-Length'', ''2''), (''Request-Id'', ''7'')] ''hi''"
  unfolding well_formed_request_def
  by (simp add: wf_method_def wf_uri_def wf_headers_def wf_key_def wf_value_def class_defs
      request_head_def request_line_def header_lines_def header_line_def CONN_BUFFER_SIZE_def
      declared_length_def strtoull10_def dec_val_def digit_val_def sample_input_def no_colon_quiet)

lemma get_input_wf: "well_formed_request get_input ''GET'' ''a.txt'' [] []"
  unfolding well_formed_request_def
  by (simp add: wf_method_def wf_uri_def wf_headers_def class_defs request_head_def
      request_line_def header_lines_def CONN_BUFFER_SIZE_def declared_length_def get_input_def
      no_colon_quiet)

theorem connection_refines_serve_witness:
  "files (snd (handle_connection calm_env sample_input no_out empty_world)) ''a.txt''
     = Some (Regular ''hi'' True True)"
  using connection_refines_serve [OF calm_env_benign empty_world_small sample_input_wf no_out_calm]
  by (auto simp: empty_world_def method_of_def split: prod.splits)

lemma declared_length_bound: "declared_length hs < 2 ^ 63"
proof -
  have "n < 2 ^ 63 \<Longrightarrow> fold (\<lambda>h n. if fst h = ''Content-Length'' then sint (strtoull10 (snd h))
      else n) hs n < 2 ^ 63" for n
    by (induction hs arbitrary: n) (simp_all add: sint64_bounds [simplified])
  from this [of 0] show ?thesis unfolding declared_length_def by simp
qed

lemma well_formed_request_short: "well_formed_request sin m u hs body \<Longrightarrow> length body < 2 ^ 64"
  using declared_length_bound [of hs] by (simp add: well_formed_request_def)

text \<open>
  C6: what is stored is what is served. After a PUT of any body, a GET of the same URI on another
  connection answers 200 with exactly that body; the PUT was answered 201 if the file did not
  exist and 200 if it did, no other file changed, and the audit log holds the two lines in that
  order.
\<close>

theorem put_get_roundtrip:
  assumes env: "benign env\<^sub>1" "benign env\<^sub>2" and small: "small_files w"
    and put: "well_formed_request sin\<^sub>1 ''PUT'' u hs\<^sub>1 body"
    and get: "well_formed_request sin\<^sub>2 ''GET'' u hs\<^sub>2 []"
    and out: "hard_faults (osched sout\<^sub>1) = {}" "hard_faults (osched sout\<^sub>2) = {}"
    and target: "file_at w u = None \<or> (\<exists>d. file_at w u = Some (Regular d True True))"
    and log: "log_stream (alog w) \<noteq> None"
  shows "case handle_connection env\<^sub>1 sin\<^sub>1 sout\<^sub>1 w of (out\<^sub>1, w\<^sub>1) \<Rightarrow>
    (case handle_connection env\<^sub>2 sin\<^sub>2 sout\<^sub>2 w\<^sub>1 of (out\<^sub>2, w\<^sub>2) \<Rightarrow>
      let st = (if file_at w u = None then RESPONSE_CREATED else RESPONSE_OK)
      in odata out\<^sub>1 = odata sout\<^sub>1 @ canned st
         \<and> odata out\<^sub>2 = odata sout\<^sub>2 @ http_message 200 ''OK'' body
         \<and> files w\<^sub>2 = (files w)(resolve w u \<mapsto> Regular body True True)
         \<and> log_content (alog w\<^sub>2) = log_content (alog w)
             @ audit_line ''PUT'' u (unat (response_get_code st)) (declared_id hs\<^sub>1)
             @ audit_line ''GET'' u 200 (declared_id hs\<^sub>2))"
proof -
  obtain out\<^sub>1 w\<^sub>1 where c1: "handle_connection env\<^sub>1 sin\<^sub>1 sout\<^sub>1 w = (out\<^sub>1, w\<^sub>1)" by fastforce
  obtain out\<^sub>2 w\<^sub>2 where c2: "handle_connection env\<^sub>2 sin\<^sub>2 sout\<^sub>2 w\<^sub>1 = (out\<^sub>2, w\<^sub>2)" by fastforce
  let ?st = "if file_at w u = None then RESPONSE_CREATED else RESPONSE_OK"
  have m: "method_of (''PUT'' @ '' /'') = REQUEST_PUT" "method_of (''GET'' @ '' /'') = REQUEST_GET"
    by (simp_all add: method_of_def)
  have s1: "serve (files w) REQUEST_PUT (resolve w u) body =
      (?st, canned ?st, (files w)(resolve w u \<mapsto> Regular body True True))"
    using target by (auto simp: file_at_def)
  note r1 = connection_implements [OF env(1) small put out(1), unfolded c1 m s1, simplified]
  have "small_files w\<^sub>1"
    using small r1 well_formed_request_short [OF put] by (auto simp: small_files_def)
  note r2 = connection_implements [OF env(2) this get out(2), unfolded c2 m, simplified]
  from r1 r2 log show ?thesis by (auto simp: c1 c2 Let_def)
qed

theorem put_get_roundtrip_witness:
  "odata (fst (handle_connection calm_env get_input no_out
     (snd (handle_connection calm_env sample_input no_out empty_world))))
     = http_message 200 ''OK'' ''hi''"
  using put_get_roundtrip [OF calm_env_benign calm_env_benign empty_world_small sample_input_wf
      get_input_wf no_out_calm no_out_calm]
  by (auto simp: empty_world_def file_at_def no_out_def Let_def log_init_def split: prod.splits)

section \<open>Requests of another version\<close>

lemma process_request_bad_version:
  assumes wf: "wf_method m" "wf_uri u" "is_digit a" "is_digit b" "wf_headers hs"
    and b: "b \<noteq> CHR ''1''" and buf: "buffer c = request_head m u a b hs @ b0"
  shows "process_request True hf c =
    (Some RESPONSE_VERSION_NOT_SUPPORTED, c\<lparr>request := method_of (m @ '' /''), uri := u\<rparr>)"
proof -
  let ?rl = "request_line m u a b" and ?t = "header_lines hs @ crlf @ cstr b0 0"
  have cs: "cstr (buffer c) 0 = ?rl @ crlf @ ?t"
    using request_head_no_NUL [OF wf] by (simp add: buf cstr_append) (simp add: request_head_def)
  have buf': "buffer c = ?rl @ crlf @ header_lines hs @ crlf @ b0"
    by (simp add: buf request_head_def)
  define P where "P = m @ '' /'' @ u @ '' HTTP/'' @ [a, CHR ''.'']"
  have "buffer c = P @ b # crlf @ header_lines hs @ crlf @ b0"
    by (simp add: buf' request_line_def P_def)
  moreover have "length m + length u + 10 = length P" by (simp add: P_def)
  ultimately have minor: "take 1 (drop (length m + length u + 10) (buffer c)) = [b]" by simp
  have uri: "slice (buffer c) (length m + 2) (length m + 2 + length u) = u"
    by (simp add: buf' request_line_def slice_def)
  have meth: "method_of (buffer c) = method_of (m @ '' /'')"
    using wf(1) by (auto simp: method_of_def buf' request_line_def wf_method_def take_Cons')
  show ?thesis
    using wf(2) b cs uri minor meth request_match [OF wf(1-4), of ?t]
    by (simp add: process_request_def wf_uri_def Let_def)
qed

lemma parse_bad_version:
  assumes wf: "wf_method m" "wf_uri u" "is_digit a" "is_digit b" "wf_headers hs"
    and b: "b \<noteq> CHR ''1''"
    and head: "length (request_head m u a b hs) \<le> CONN_BUFFER_SIZE"
    and inp: "idata sin = request_head m u a b hs @ body" "hard_faults (isched sin) = {}"
    and c: "conn_new True sin sout = Some c"
  shows "\<exists>c'. conn_parse True hf c = (Some RESPONSE_VERSION_NOT_SUPPORTED, c')
    \<and> conn_get_request c' = method_of (m @ '' /'') \<and> conn_get_uri c' = u \<and> request_id c' = ''0''
    \<and> sock_out c' = sout \<and> \<not> conn_is_empty c'"
proof -
  from read_until_head [OF request_head_wf_lines [OF wf] request_head_lines head inp]
  obtain b0 s' where rd: "read_until sin CONN_BUFFER_SIZE (crlf @ crlf)
      = (Inr (length (request_head m u a b hs @ b0)), request_head m u a b hs @ b0, s')" by blast
  let ?buf = "request_head m u a b hs @ b0"
  let ?c1 = "parse_read c ?buf s' (int (length ?buf))"
  have ne: "length ?buf \<noteq> 0" and pos: "0 < length (request_head m u a b hs)"
    by (simp_all add: request_head_def)
  note fresh = conn_new_fresh [OF c]
  have "process_request True hf ?c1 = (Some RESPONSE_VERSION_NOT_SUPPORTED,
      ?c1\<lparr>request := method_of (m @ '' /''), uri := u\<rparr>)"
    by (rule process_request_bad_version [OF wf b]) (simp add: parse_read_def)
  with conn_parse_branches(3) [OF _ ne this] rd fresh
  have "conn_parse True hf c = (Some RESPONSE_VERSION_NOT_SUPPORTED,
      ?c1\<lparr>request := method_of (m @ '' /''), uri := u\<rparr>)" by simp
  moreover have "int (length (request_head m u a b hs)) + int (length b0) \<noteq> 0" using pos by linarith
  ultimately show ?thesis using fresh
    by (simp add: parse_read_def conn_get_request_def conn_get_uri_def conn_is_empty_def)
qed

text \<open>
  C29: a well-formed request of another minor version is refused without touching a file: with 501
  when its method is not supported either, else with 505; the refusal is audited with the method
  and the URI of the request, but always with request id 0, since the headers are not read.
\<close>

theorem version_refused:
  assumes wf: "wf_method m" "wf_uri u" "is_digit a" "is_digit b" "wf_headers hs"
    and b: "b \<noteq> CHR ''1''"
    and head: "length (request_head m u a b hs) \<le> CONN_BUFFER_SIZE"
    and inp: "idata sin = request_head m u a b hs @ body" "hard_faults (isched sin) = {}"
    and env: "k_alloc env" "k_regcomp_line env" and out: "hard_faults (osched sout) = {}"
  shows "case handle_connection env sin sout w of (out, w') \<Rightarrow>
    let res = (if method_of (m @ '' /'') = REQUEST_UNSUPPORTED then RESPONSE_NOT_IMPLEMENTED
               else RESPONSE_VERSION_NOT_SUPPORTED)
    in odata out = odata sout @ canned res \<and> files w' = files w
       \<and> alog w' = log_audit (request_get_str (method_of (m @ '' /''))) u
           (unat (response_get_code res)) ''0'' (alog w)"
proof -
  obtain c where c: "conn_new True sin sout = Some c" by (simp add: conn_new_def)
  from parse_bad_version [OF wf b head inp c] obtain c' where
    p: "conn_parse True (k_regcomp_header env) c = (Some RESPONSE_VERSION_NOT_SUPPORTED, c')"
    and f: "conn_get_request c' = method_of (m @ '' /'')" "conn_get_uri c' = u"
      "request_id c' = ''0''" "sock_out c' = sout" "\<not> conn_is_empty c'" by blast
  have "odata (resp_out c' res) = odata sout @ canned res" for res
    using resp_out_data [of c'] f(4) out by (simp add: response_bytes_message canned_def)
  with f show ?thesis
    using handle_connection_cases [of env sin sout c "Some RESPONSE_VERSION_NOT_SUPPORTED" c' w]
      c p env
    by (simp add: respond_eq parse_status_def close_conn_def audited_def audit_entry_of_def
        conn_get_header_def Let_def)
qed

theorem version_refused_witness:
  "odata (fst (handle_connection calm_env
     \<lparr>idata = request_head ''PUT'' ''a'' (CHR ''1'') (CHR ''0'') [], isched = []\<rparr> no_out empty_world))
     = canned RESPONSE_VERSION_NOT_SUPPORTED"
proof -
  let ?i = "\<lparr>idata = request_head ''PUT'' ''a'' (CHR ''1'') (CHR ''0'') [], isched = []\<rparr>"
  have wf: "wf_method ''PUT''" "wf_uri ''a''" "is_digit (CHR ''1'')" "is_digit (CHR ''0'')"
    "wf_headers []" "CHR ''0'' \<noteq> CHR ''1''"
    "length (request_head ''PUT'' ''a'' (CHR ''1'') (CHR ''0'') []) \<le> CONN_BUFFER_SIZE"
    by (simp_all add: wf_method_def wf_uri_def wf_headers_def class_defs request_head_def
        request_line_def header_lines_def CONN_BUFFER_SIZE_def)
  have inp: "idata ?i = request_head ''PUT'' ''a'' (CHR ''1'') (CHR ''0'') [] @ []"
    "hard_faults (isched ?i) = {}" by simp_all
  have env: "k_alloc calm_env" "k_regcomp_line calm_env" by (simp_all add: calm_env_def)
  from version_refused [OF wf inp env no_out_calm, of empty_world] show ?thesis
    by (auto simp: method_of_def no_out_def Let_def split: prod.splits)
qed

end
