(* ===== verification/Server_Linearization.thy ===== *)
theory Server_Linearization
  imports Server_Refinement "HOL-Library.Multiset"
begin

text \<open>
  Many connections at once. Each thread runs \<open>handle_get\<close> or \<open>handle_put\<close> on a parsed request, step
  by step: it waits for the lockfile, looks at and opens the file, truncates and writes it byte by
  byte or reads it chunk by chunk, writes its audit line and unlocks; a request that was refused
  before is only answered and audited. Any call can fail: the lockfile cannot be locked, the target
  not opened (with any error, answered 403 or 500), inspected or truncated, the body stops coming,
  the client goes away. The theory shows that the order of the audit lines explains every answer: it
  is a linearization of the requests, those that failed included, as long as different URIs name
  different files.
\<close>

section \<open>Requests and their sequential meaning\<close>

text \<open>A GET or PUT that the parser has let through, with the body that the client sends, or a request
  that is refused before it touches a file, with its method, its URI and the status of the refusal.\<close>

datatype job = Get bytes | Put bytes bytes | Refuse Request bytes Response

fun job_uri :: "job \<Rightarrow> bytes" where
  "job_uri (Get u) = u"
| "job_uri (Put u b) = u"
| "job_uri (Refuse m u r) = u"

fun job_op :: "job \<Rightarrow> lock_op" where
  "job_op (Put u b) = LOCK_EX"
| "job_op _ = LOCK_SH"

fun refusal :: "job \<Rightarrow> bool" where
  "refusal (Refuse m u r) = True"
| "refusal _ = False"

text \<open>What \<open>serve\<close> does to the one file a request names.\<close>

definition serve_at :: "fnode option \<Rightarrow> Request \<Rightarrow> bytes \<Rightarrow> Response \<times> bytes \<times> fnode option" where
  "serve_at n m b = (case serve (\<lambda>_. n) m [] b of (res, reply, fs) \<Rightarrow> (res, reply, fs []))"

lemma serve_serve_at:
  "serve fs m p b = (case serve_at (fs p) m b of (res, reply, n) \<Rightarrow> (res, reply, fs(p := n)))"
  by (cases m) (auto simp: serve_at_def split: option.splits fnode.splits bool.splits)

text \<open>Status, answer and node of a request on the node \<open>n\<close>.\<close>

fun serve_job :: "fnode option \<Rightarrow> job \<Rightarrow> Response \<times> bytes \<times> fnode option" where
  "serve_job n (Get u) = serve_at n REQUEST_GET []"
| "serve_job n (Put u b) = serve_at n REQUEST_PUT b"
| "serve_job n (Refuse m u r) = (r, canned r, n)"

text \<open>What reached the client: the answer, or the part of it before the connection broke.\<close>

datatype reply = Whole bytes | Cut bytes

fun answers :: "bytes \<Rightarrow> reply \<Rightarrow> bool" where
  "answers full (Whole b) \<longleftrightarrow> b = full"
| "answers full (Cut b) \<longleftrightarrow> prefix b full"

type_synonym audit_rec = "job \<times> Response \<times> reply"

text \<open>The requests of an audit log, one after the other: \<open>None\<close> when some recorded answer is not the
  one the sequential server gives at that point.\<close>

fun replay :: "(bytes \<Rightarrow> bytes) \<Rightarrow> (bytes \<Rightarrow> fnode option) \<Rightarrow> audit_rec list
    \<Rightarrow> (bytes \<Rightarrow> fnode option) option" where
  "replay res fs [] = Some fs"
| "replay res fs ((j, st, reply) # es) =
     (case serve_job (fs (res (job_uri j))) j of
        (st', full, n) \<Rightarrow> if st' = st \<and> answers full reply
          then replay res (fs(res (job_uri j) := n)) es else None)"

text \<open>What a writer that found the node \<open>n\<close> knows about it: whether it existed, and the read
  permission its file has.\<close>

definition opened :: "fnode option \<Rightarrow> bool \<Rightarrow> bool \<Rightarrow> bool" where
  "opened n ex rd \<longleftrightarrow> (n = None \<and> \<not> ex \<and> rd) \<or> (\<exists>d. n = Some (Regular d rd True) \<and> ex)"

lemma opened_old: "\<exists>rd. opened (Some (Regular d rd' True)) True rd"
  by (auto simp: opened_def)

text \<open>
  How a request on the node \<open>n\<close> fails when a call fails that the node does not decide, with the node
  it leaves. Opening can fail with 403 or 500 and changes nothing. A PUT fails with 500 also later:
  then it leaves the file as it was, or a file with the part of the body that was stored.
\<close>

definition left_behind :: "fnode option \<Rightarrow> bytes \<Rightarrow> fnode option \<Rightarrow> bool" where
  "left_behind n b f \<longleftrightarrow> f = n \<or> (\<exists>w ex rd. opened n ex rd \<and> prefix w b \<and> f = Some (Regular w rd True))"

lemma opened_left_behind:
  "opened n ex rd \<Longrightarrow> left_behind n b (if ex then n else Some (Regular [] True True))"
  by (auto simp: opened_def left_behind_def)

fun fails :: "fnode option \<Rightarrow> job \<Rightarrow> Response \<Rightarrow> fnode option \<Rightarrow> bool" where
  "fails n (Get u) st f \<longleftrightarrow> (st = RESPONSE_FORBIDDEN \<or> st = RESPONSE_INTERNAL_SERVER_ERROR) \<and> f = n"
| "fails n (Put u b) st f \<longleftrightarrow> st = RESPONSE_FORBIDDEN \<and> f = n
     \<or> st = RESPONSE_INTERNAL_SERVER_ERROR \<and> left_behind n b f"
| "fails n (Refuse m u r) st f \<longleftrightarrow> False"

text \<open>A request on the node \<open>n\<close> is answered as the sequential server answers it, or fails.\<close>

definition outcome :: "fnode option \<Rightarrow> job \<Rightarrow> Response \<Rightarrow> reply \<Rightarrow> fnode option \<Rightarrow> bool" where
  "outcome n j st reply f \<longleftrightarrow> (\<exists>full. serve_job n j = (st, full, f) \<and> answers full reply)
   \<or> (fails n j st f \<and> answers (canned st) reply)"

text \<open>The requests of an audit log, one after the other, lead from the files \<open>fs\<close> to the files \<open>sp\<close>.\<close>

fun explains :: "(bytes \<Rightarrow> bytes) \<Rightarrow> (bytes \<Rightarrow> fnode option) \<Rightarrow> audit_rec list
    \<Rightarrow> (bytes \<Rightarrow> fnode option) \<Rightarrow> bool" where
  "explains res fs [] sp \<longleftrightarrow> sp = fs"
| "explains res fs ((j, st, reply) # es) sp \<longleftrightarrow>
     (\<exists>f. outcome (fs (res (job_uri j))) j st reply f \<and> explains res (fs(res (job_uri j) := f)) es sp)"

lemma explains_snoc:
  "explains res fs (es @ [(j, st, reply)]) sp \<longleftrightarrow>
     (\<exists>sp' f. explains res fs es sp' \<and> outcome (sp' (res (job_uri j))) j st reply f
        \<and> sp = sp'(res (job_uri j) := f))"
proof (induction es arbitrary: fs)
  case (Cons e es)
  obtain j' st' reply' where e: "e = (j', st', reply')" by (metis prod_cases3)
  show ?case unfolding e append_Cons explains.simps Cons.IH by blast
qed simp

text \<open>No GET and no PUT was answered with a status that a failing call can cause.\<close>

definition no_failures :: "audit_rec list \<Rightarrow> bool" where
  "no_failures es \<longleftrightarrow> list_all (\<lambda>(j, st, reply). refusal j
     \<or> st \<noteq> RESPONSE_FORBIDDEN \<and> st \<noteq> RESPONSE_INTERNAL_SERVER_ERROR) es"

lemma fails_status:
  "fails n j st f \<Longrightarrow> \<not> refusal j \<and> (st = RESPONSE_FORBIDDEN \<or> st = RESPONSE_INTERNAL_SERVER_ERROR)"
  by (cases j) auto

text \<open>Where no request failed there is only one explanation, the sequential run.\<close>

lemma explains_replay: "explains res fs es sp \<Longrightarrow> no_failures es \<Longrightarrow> replay res fs es = Some sp"
proof (induction es arbitrary: fs)
  case (Cons e es)
  obtain j st reply where e: "e = (j, st, reply)" by (metis prod_cases3)
  with Cons.prems fails_status obtain f full where
    "serve_job (fs (res (job_uri j))) j = (st, full, f)"
    "answers full reply" "explains res (fs(res (job_uri j) := f)) es sp"
    by (fastforce simp: outcome_def no_failures_def)
  moreover have "replay res (fs(res (job_uri j) := f)) es = Some sp"
    using calculation(3) by (rule Cons.IH) (use Cons.prems(2) in \<open>simp add: no_failures_def\<close>)
  ultimately show ?case by (simp add: e)
qed (simp add: no_failures_def)

section \<open>The threads\<close>

datatype jpc =
    JIdle
  | JWait job                              \<comment> \<open>about to \<open>flock\<close>\<close>
  | JOpenR bytes                           \<comment> \<open>GET: about to open\<close>
  | JStat bytes                            \<comment> \<open>GET: about to \<open>fstat\<close>\<close>
  | JRead bytes nat bytes                  \<comment> \<open>GET: size, bytes sent so far\<close>
  | JAccess bytes bytes                    \<comment> \<open>PUT: about to test for existence\<close>
  | JOpenW bytes bytes bool                \<comment> \<open>PUT: existed\<close>
  | JTrunc bytes bytes bool
  | JWrite bytes bytes bool bytes bytes    \<comment> \<open>PUT: written, still to write\<close>
  | JAudit job Response reply              \<comment> \<open>answered, about to audit\<close>
  | JRefused job Response                  \<comment> \<open>about to answer without the lock and audit\<close>
  | JUnlock job

record lin_sys =
  lfs :: "bytes \<Rightarrow> fnode option"
  flocks :: "bytes \<Rightarrow> nat \<Rightarrow> lock_op option"
  jpcs :: "nat \<Rightarrow> jpc"
  audits :: "audit_rec list"

definition content :: "fnode option \<Rightarrow> bytes" where
  "content n = (case n of Some (Regular d _ _) \<Rightarrow> d | _ \<Rightarrow> [])"

definition set_content :: "bytes \<Rightarrow> fnode option \<Rightarrow> fnode option" where
  "set_content d n = (case n of Some (Regular _ rd wr) \<Rightarrow> Some (Regular d rd wr) | _ \<Rightarrow> n)"

text \<open>\<open>write\<close> at a file offset.\<close>

definition write_at :: "bytes \<Rightarrow> nat \<Rightarrow> bytes \<Rightarrow> bytes" where
  "write_at d off bs = take off d @ bs @ drop (off + length bs) d"

definition lockfile :: "bytes \<Rightarrow> job \<Rightarrow> bytes" where
  "lockfile dir j = lock_path_for dir (job_uri j) 192"

text \<open>When the kernel grants a \<open>flock\<close>: a shared one beside other shared ones, an exclusive one
  alone.\<close>

definition may_flock :: "lock_op \<Rightarrow> (nat \<Rightarrow> lock_op option) \<Rightarrow> bool" where
  "may_flock op h \<longleftrightarrow> (case op of
     LOCK_SH \<Rightarrow> \<forall>t. h t \<noteq> Some LOCK_EX
   | LOCK_EX \<Rightarrow> \<forall>t. h t = None)"

definition move :: "nat \<Rightarrow> jpc \<Rightarrow> lin_sys \<Rightarrow> lin_sys" where
  "move t c s = s\<lparr>jpcs := (jpcs s)(t := c)\<rparr>"

abbreviation said :: "Response \<Rightarrow> reply" where
  "said st \<equiv> Whole (canned st)"

text \<open>Where the handling of a request starts: a refused one has only to be answered and audited.\<close>

fun start_pc :: "job \<Rightarrow> jpc" where
  "start_pc (Refuse m u r) = JRefused (Refuse m u r) r"
| "start_pc j = JWait j"

definition job_in :: "bytes set \<Rightarrow> job \<Rightarrow> bool" where
  "job_in U j \<longleftrightarrow> refusal j \<or> job_uri j \<in> U"

text \<open>
  The flag of the following relations is set in the steps in which a call fails for a reason that
  the file itself does not decide. What both handlers do around their work: a request arrives, the
  lockfile is locked, the audit line is written, the lockfile is unlocked. A handler that cannot
  lock answers and audits without the lock, and so is a refused request. The client may have gone
  before it got the whole answer.
\<close>

inductive frame_step :: "bytes set \<Rightarrow> bytes \<Rightarrow> bool \<Rightarrow> lin_sys \<Rightarrow> lin_sys \<Rightarrow> bool"
  for U :: "bytes set" and dir :: bytes where
  arrive: "jpcs s t = JIdle \<Longrightarrow> job_in U j \<Longrightarrow> frame_step U dir False s (move t (start_pc j) s)"
| lock_get: "jpcs s t = JWait (Get u) \<Longrightarrow> may_flock LOCK_SH (flocks s (lockfile dir (Get u))) \<Longrightarrow>
    frame_step U dir False s (move t (JOpenR u)
      (s\<lparr>flocks := (flocks s)(lockfile dir (Get u) :=
          (flocks s (lockfile dir (Get u)))(t \<mapsto> LOCK_SH))\<rparr>))"
| lock_put: "jpcs s t = JWait (Put u b) \<Longrightarrow> may_flock LOCK_EX (flocks s (lockfile dir (Put u b))) \<Longrightarrow>
    frame_step U dir False s (move t (JAccess u b)
      (s\<lparr>flocks := (flocks s)(lockfile dir (Put u b) :=
          (flocks s (lockfile dir (Put u b)))(t \<mapsto> LOCK_EX))\<rparr>))"
| audit: "jpcs s t = JAudit j st reply \<Longrightarrow>
    frame_step U dir False s (move t (JUnlock j) (s\<lparr>audits := audits s @ [(j, st, reply)]\<rparr>))"
| unlock: "jpcs s t = JUnlock j \<Longrightarrow>
    frame_step U dir False s (move t JIdle
      (s\<lparr>flocks := (flocks s)(lockfile dir j := (flocks s (lockfile dir j))(t := None))\<rparr>))"
| audit_refused: "jpcs s t = JRefused j st \<Longrightarrow>
    frame_step U dir False s (move t JIdle (s\<lparr>audits := audits s @ [(j, st, said st)]\<rparr>))"
| lock_fails: "jpcs s t = JWait j \<Longrightarrow>
    frame_step U dir True s (move t (JRefused j RESPONSE_INTERNAL_SERVER_ERROR) s)"
| refused_gone: "jpcs s t = JRefused j st \<Longrightarrow> k < length (canned st) \<Longrightarrow>
    frame_step U dir True s (move t JIdle
      (s\<lparr>audits := audits s @ [(j, st, Cut (take k (canned st)))]\<rparr>))"
| client_gone: "jpcs s t = JAudit j st (Whole full) \<Longrightarrow> k < length full \<Longrightarrow>
    frame_step U dir True s (move t (JAudit j st (Cut (take k full))) s)"

text \<open>The body of \<open>handle_get\<close>. \<open>open\<close> can fail with any error beyond those the file decides; that a
  file is missing is decided by the file. A transfer that breaks off is audited with 200 all the
  same.\<close>

inductive get_step :: "(bytes \<Rightarrow> bytes) \<Rightarrow> bool \<Rightarrow> lin_sys \<Rightarrow> lin_sys \<Rightarrow> bool"
  for res :: "bytes \<Rightarrow> bytes" where
  open_none: "jpcs s t = JOpenR u \<Longrightarrow> lfs s (res u) = None \<Longrightarrow>
    get_step res False s (move t (JAudit (Get u) (get_open_error ENOENT) (said (get_open_error ENOENT))) s)"
| open_denied: "jpcs s t = JOpenR u \<Longrightarrow> lfs s (res u) = Some (Regular d False wr) \<Longrightarrow>
    get_step res False s (move t (JAudit (Get u) (get_open_error EACCES) (said (get_open_error EACCES))) s)"
| open_file: "jpcs s t = JOpenR u \<Longrightarrow>
    lfs s (res u) = Some Directory \<or> lfs s (res u) = Some (Regular d True wr) \<Longrightarrow>
    get_step res False s (move t (JStat u) s)"
| open_fails: "jpcs s t = JOpenR u \<Longrightarrow> e \<noteq> ENOENT \<Longrightarrow>
    get_step res True s (move t (JAudit (Get u) (get_open_error e) (said (get_open_error e))) s)"
| stat_dir: "jpcs s t = JStat u \<Longrightarrow> lfs s (res u) = Some Directory \<Longrightarrow>
    get_step res False s (move t (JAudit (Get u) RESPONSE_FORBIDDEN (said RESPONSE_FORBIDDEN)) s)"
| stat_file: "jpcs s t = JStat u \<Longrightarrow> lfs s (res u) = Some (Regular d rd wr) \<Longrightarrow>
    get_step res False s (move t (JRead u (length d) []) s)"
| stat_fails: "jpcs s t = JStat u \<Longrightarrow> get_step res True s
    (move t (JAudit (Get u) RESPONSE_INTERNAL_SERVER_ERROR (said RESPONSE_INTERNAL_SERVER_ERROR)) s)"
| read_chunk: "jpcs s t = JRead u n got \<Longrightarrow> 0 < k \<Longrightarrow> length got + k \<le> n \<Longrightarrow>
    length got + k \<le> length (content (lfs s (res u))) \<Longrightarrow>
    get_step res False s
      (move t (JRead u n (got @ take k (drop (length got) (content (lfs s (res u)))))) s)"
| read_end: "jpcs s t = JRead u n got \<Longrightarrow>
    length got = n \<or> length (content (lfs s (res u))) \<le> length got \<Longrightarrow>
    get_step res False s (move t (JAudit (Get u) RESPONSE_OK (Whole (file_header n @ got))) s)"
| send_fails: "jpcs s t = JRead u n got \<Longrightarrow>
    get_step res True s (move t (JAudit (Get u) RESPONSE_OK (Cut (take k (file_header n @ got)))) s)"

text \<open>The body of \<open>handle_put\<close>. Opening for writing can fail with any error beyond those the file
  decides, with \<open>ENOENT\<close> only where there is no file: a directory on the path is missing.\<close>

inductive put_step :: "(bytes \<Rightarrow> bytes) \<Rightarrow> bool \<Rightarrow> lin_sys \<Rightarrow> lin_sys \<Rightarrow> bool"
  for res :: "bytes \<Rightarrow> bytes" where
  exists: "jpcs s t = JAccess u b \<Longrightarrow>
    put_step res False s (move t (JOpenW u b (lfs s (res u) \<noteq> None)) s)"
| create: "jpcs s t = JOpenW u b ex \<Longrightarrow> lfs s (res u) = None \<Longrightarrow>
    put_step res False s (move t (JTrunc u b ex)
      (s\<lparr>lfs := (lfs s)(res u \<mapsto> Regular [] True True)\<rparr>))"
| open_write: "jpcs s t = JOpenW u b ex \<Longrightarrow> lfs s (res u) = Some (Regular d rd True) \<Longrightarrow>
    put_step res False s (move t (JTrunc u b ex) s)"
| open_directory: "jpcs s t = JOpenW u b ex \<Longrightarrow> lfs s (res u) = Some Directory \<Longrightarrow>
    put_step res False s (move t (JAudit (Put u b) (put_open_error EISDIR) (said (put_open_error EISDIR))) s)"
| denied: "jpcs s t = JOpenW u b ex \<Longrightarrow> lfs s (res u) = Some (Regular d rd False) \<Longrightarrow>
    put_step res False s (move t (JAudit (Put u b) (put_open_error EACCES) (said (put_open_error EACCES))) s)"
| put_open_fails: "jpcs s t = JOpenW u b ex \<Longrightarrow> e \<noteq> ENOENT \<or> lfs s (res u) = None \<Longrightarrow>
    put_step res True s (move t (JAudit (Put u b) (put_open_error e) (said (put_open_error e))) s)"
| truncate: "jpcs s t = JTrunc u b ex \<Longrightarrow>
    put_step res False s (move t (JWrite u b ex [] b)
      (s\<lparr>lfs := (lfs s)(res u := set_content [] (lfs s (res u)))\<rparr>))"
| truncate_fails: "jpcs s t = JTrunc u b ex \<Longrightarrow> put_step res True s
    (move t (JAudit (Put u b) RESPONSE_INTERNAL_SERVER_ERROR (said RESPONSE_INTERNAL_SERVER_ERROR)) s)"
| write_byte: "jpcs s t = JWrite u b ex wr (c # rest) \<Longrightarrow>
    put_step res False s (move t (JWrite u b ex (wr @ [c]) rest)
      (s\<lparr>lfs := (lfs s)(res u :=
          set_content (write_at (content (lfs s (res u))) (length wr) [c]) (lfs s (res u)))\<rparr>))"
| written: "jpcs s t = JWrite u b ex wr [] \<Longrightarrow>
    put_step res False s (move t (JAudit (Put u b) (if ex then RESPONSE_OK else RESPONSE_CREATED)
      (said (if ex then RESPONSE_OK else RESPONSE_CREATED))) s)"
| receive_fails: "jpcs s t = JWrite u b ex wr rest \<Longrightarrow> put_step res True s
    (move t (JAudit (Put u b) RESPONSE_INTERNAL_SERVER_ERROR (said RESPONSE_INTERNAL_SERVER_ERROR)) s)"

definition lin_move :: "bytes set \<Rightarrow> bytes \<Rightarrow> (bytes \<Rightarrow> bytes) \<Rightarrow> bool \<Rightarrow> lin_sys \<Rightarrow> lin_sys \<Rightarrow> bool" where
  "lin_move U dir res failing s s' \<longleftrightarrow>
     frame_step U dir failing s s' \<or> get_step res failing s s' \<or> put_step res failing s s'"

definition lin_step :: "bytes set \<Rightarrow> bytes \<Rightarrow> (bytes \<Rightarrow> bytes) \<Rightarrow> lin_sys \<Rightarrow> lin_sys \<Rightarrow> bool" where
  "lin_step U dir res s s' \<longleftrightarrow> (\<exists>failing. lin_move U dir res failing s s')"

lemma lin_stepI:
  "frame_step U dir failing s s' \<Longrightarrow> lin_step U dir res s s'"
  "get_step res failing s s' \<Longrightarrow> lin_step U dir res s s'"
  "put_step res failing s s' \<Longrightarrow> lin_step U dir res s s'"
  by (auto simp: lin_step_def lin_move_def)

definition lin_init :: "(bytes \<Rightarrow> fnode option) \<Rightarrow> lin_sys \<Rightarrow> bool" where
  "lin_init fs s \<longleftrightarrow> lfs s = fs \<and> (\<forall>path t. flocks s path t = None) \<and> (\<forall>t. jpcs s t = JIdle)
     \<and> audits s = []"

section \<open>The invariant\<close>

text \<open>The request a thread holds the lockfile for, and the request it has at all.\<close>

fun pc_job :: "jpc \<Rightarrow> job option" where
  "pc_job JIdle = None"
| "pc_job (JWait j) = None"
| "pc_job (JOpenR u) = Some (Get u)"
| "pc_job (JStat u) = Some (Get u)"
| "pc_job (JRead u n got) = Some (Get u)"
| "pc_job (JAccess u b) = Some (Put u b)"
| "pc_job (JOpenW u b ex) = Some (Put u b)"
| "pc_job (JTrunc u b ex) = Some (Put u b)"
| "pc_job (JWrite u b ex wr rest) = Some (Put u b)"
| "pc_job (JAudit j st reply) = Some j"
| "pc_job (JUnlock j) = Some j"
| "pc_job (JRefused j st) = None"

definition pc_any :: "jpc \<Rightarrow> job option" where
  "pc_any c = (case c of JWait j \<Rightarrow> Some j | JRefused j st \<Rightarrow> Some j | _ \<Rightarrow> pc_job c)"

text \<open>Requests that may touch a file are for the URIs considered, and what is answered without the lock
  is the status of a refusal, or 500.\<close>

fun pc_in :: "bytes set \<Rightarrow> jpc \<Rightarrow> bool" where
  "pc_in U (JWait j) \<longleftrightarrow> \<not> refusal j \<and> job_uri j \<in> U"
| "pc_in U (JRefused j st) \<longleftrightarrow> st = (case j of Refuse m u r \<Rightarrow> r | _ \<Rightarrow> RESPONSE_INTERNAL_SERVER_ERROR)"
| "pc_in U c \<longleftrightarrow> (case pc_job c of None \<Rightarrow> True | Some j \<Rightarrow> job_uri j \<in> U)"

lemma pc_in_job: "pc_job c = Some j \<Longrightarrow> pc_in U c \<longleftrightarrow> job_uri j \<in> U"
  by (cases c) auto

lemma start_pc_in: "job_in U j \<Longrightarrow> pc_in U (start_pc j)" "pc_job (start_pc j) = None"
  by (cases j; simp add: job_in_def)+

text \<open>The file may be ahead of the audit log.\<close>

fun pc_dirty :: "jpc \<Rightarrow> bool" where
  "pc_dirty (JTrunc u b ex) = True"
| "pc_dirty (JWrite u b ex wr rest) = True"
| "pc_dirty (JAudit (Put u b) st reply) = True"
| "pc_dirty _ = False"

lemma pc_dirty_put: "pc_dirty c \<Longrightarrow> \<exists>u b. pc_job c = Some (Put u b)"
  by (cases c rule: pc_dirty.cases) auto

text \<open>What holds at a location, of the node \<open>n\<close> after replaying the log and the node \<open>f\<close> in the
  file system.\<close>

fun pc_ok :: "fnode option \<Rightarrow> fnode option \<Rightarrow> jpc \<Rightarrow> bool" where
  "pc_ok n f (JOpenR u) \<longleftrightarrow> f = n"
| "pc_ok n f (JStat u) \<longleftrightarrow> f = n \<and> (n = Some Directory \<or> (\<exists>d wr. n = Some (Regular d True wr)))"
| "pc_ok n f (JRead u k got) \<longleftrightarrow> f = n \<and> (\<exists>d wr. n = Some (Regular d True wr) \<and> k = length d \<and> prefix got d)"
| "pc_ok n f (JAccess u b) \<longleftrightarrow> f = n"
| "pc_ok n f (JOpenW u b ex) \<longleftrightarrow> f = n \<and> ex = (n \<noteq> None)"
| "pc_ok n f (JTrunc u b ex) \<longleftrightarrow> (\<exists>rd. opened n ex rd)
     \<and> f = (if ex then n else Some (Regular [] True True))"
| "pc_ok n f (JWrite u b ex wr rest) \<longleftrightarrow>
     (\<exists>rd. f = Some (Regular wr rd True) \<and> opened n ex rd) \<and> b = wr @ rest"
| "pc_ok n f (JAudit j st reply) \<longleftrightarrow> outcome n j st reply f"
| "pc_ok n f _ \<longleftrightarrow> True"

definition lock_of :: "bytes \<Rightarrow> bytes \<Rightarrow> jpc \<Rightarrow> lock_op option" where
  "lock_of dir path c =
     (case pc_job c of Some j \<Rightarrow> if lockfile dir j = path then Some (job_op j) else None
      | None \<Rightarrow> None)"

definition lin_view ::
  "bytes set \<Rightarrow> bytes \<Rightarrow> (bytes \<Rightarrow> bytes) \<Rightarrow> (bytes \<Rightarrow> fnode option) \<Rightarrow> lin_sys
     \<Rightarrow> (bytes \<Rightarrow> fnode option) \<Rightarrow> bool" where
  "lin_view U dir res fs s sp \<longleftrightarrow>
     explains res fs (audits s) sp
     \<and> (\<forall>path t. flocks s path t = lock_of dir path (jpcs s t))
     \<and> (\<forall>t. pc_in U (jpcs s t))
     \<and> (\<forall>t t' j j'. t \<noteq> t' \<and> pc_job (jpcs s t) = Some j \<and> pc_job (jpcs s t') = Some j'
          \<and> lockfile dir j = lockfile dir j' \<longrightarrow> job_op j = LOCK_SH)
     \<and> (\<forall>t j. pc_job (jpcs s t) = Some j \<longrightarrow>
          pc_ok (sp (res (job_uri j))) (lfs s (res (job_uri j))) (jpcs s t))
     \<and> (\<forall>p. lfs s p \<noteq> sp p \<longrightarrow>
          (\<exists>t u b. pc_dirty (jpcs s t) \<and> pc_job (jpcs s t) = Some (Put u b) \<and> res u = p))"

lemma lin_viewI:
  assumes "explains res fs (audits s) sp"
    and "\<And>path t. flocks s path t = lock_of dir path (jpcs s t)"
    and "\<And>t. pc_in U (jpcs s t)"
    and "\<And>t t' j j'. t \<noteq> t' \<Longrightarrow> pc_job (jpcs s t) = Some j \<Longrightarrow> pc_job (jpcs s t') = Some j' \<Longrightarrow>
      lockfile dir j = lockfile dir j' \<Longrightarrow> job_op j = LOCK_SH"
    and "\<And>t j. pc_job (jpcs s t) = Some j \<Longrightarrow>
      pc_ok (sp (res (job_uri j))) (lfs s (res (job_uri j))) (jpcs s t)"
    and "\<And>p. lfs s p \<noteq> sp p \<Longrightarrow>
      \<exists>t u b. pc_dirty (jpcs s t) \<and> pc_job (jpcs s t) = Some (Put u b) \<and> res u = p"
  shows "lin_view U dir res fs s sp"
  unfolding lin_view_def using assms by blast

lemma lin_viewD:
  assumes "lin_view U dir res fs s sp"
  shows view_explains: "explains res fs (audits s) sp"
    and view_locks: "flocks s path t = lock_of dir path (jpcs s t)"
    and view_in: "pc_in U (jpcs s t)"
    and view_excl: "t \<noteq> t' \<Longrightarrow> pc_job (jpcs s t) = Some j \<Longrightarrow> pc_job (jpcs s t') = Some j' \<Longrightarrow>
      lockfile dir j = lockfile dir j' \<Longrightarrow> job_op j = LOCK_SH"
    and view_ok: "pc_job (jpcs s t) = Some j \<Longrightarrow>
      pc_ok (sp (res (job_uri j))) (lfs s (res (job_uri j))) (jpcs s t)"
    and view_clean: "lfs s p \<noteq> sp p \<Longrightarrow>
      \<exists>t u b. pc_dirty (jpcs s t) \<and> pc_job (jpcs s t) = Some (Put u b) \<and> res u = p"
  using assms unfolding lin_view_def by blast+

lemma view_uri: "lin_view U dir res fs s sp \<Longrightarrow> pc_job (jpcs s t) = Some j \<Longrightarrow> job_uri j \<in> U"
  using view_in [of U dir res fs s sp t] by (simp add: pc_in_job)

text \<open>While a writer holds its lockfile, nobody else holds one for the same file.\<close>

lemma writer_alone:
  assumes "lin_view U dir res fs s sp" and inj: "inj_on res U"
    and "pc_job (jpcs s t) = Some (Put u b)" and "pc_job (jpcs s t') = Some j" and "t' \<noteq> t"
  shows "res (job_uri j) \<noteq> res u"
proof
  assume eq: "res (job_uri j) = res u"
  have "job_uri j \<in> U" "u \<in> U"
    using view_uri [OF assms(1,4)] view_uri [OF assms(1,3)] by simp_all
  with eq inj have "job_uri j = u" by (simp add: inj_on_def)
  then have "lockfile dir (Put u b) = lockfile dir j" by (simp add: lockfile_def)
  with view_excl [OF assms(1) assms(5) [symmetric] assms(3,4)] show False by simp
qed

text \<open>A step of a reader under its lock, which changes neither files nor log.\<close>

lemma view_same_job:
  assumes v: "lin_view U dir res fs s sp" and j: "pc_job (jpcs s t) = Some j" and c: "pc_job c = Some j"
    and d: "pc_dirty (jpcs s t) \<Longrightarrow> pc_dirty c"
    and ok: "pc_ok (sp (res (job_uri j))) (lfs s (res (job_uri j))) c"
    and s': "s' = move t c (s\<lparr>audits := as\<rparr>)" and rep: "explains res fs as sp"
  shows "lin_view U dir res fs s' sp"
proof -
  have pcs: "jpcs s' x = (if x = t then c else jpcs s x)" for x by (simp add: s' move_def)
  have fr: "lfs s' = lfs s" "flocks s' = flocks s" "audits s' = as" by (simp_all add: s' move_def)
  have pcj: "pc_job (jpcs s' x) = pc_job (jpcs s x)" for x using j c by (simp add: pcs)
  have uri: "pc_in U (jpcs s' x)" for x
    using view_in [OF v] view_uri [OF v j] pc_in_job [OF c] by (simp add: pcs)
  show ?thesis
  proof (rule lin_viewI)
    show "flocks s' path x = lock_of dir path (jpcs s' x)" for path x
      using view_locks [OF v] by (simp add: fr lock_of_def pcj)
    show "\<exists>x u b. pc_dirty (jpcs s' x) \<and> pc_job (jpcs s' x) = Some (Put u b) \<and> res u = p"
      if "lfs s' p \<noteq> sp p" for p
    proof -
      from view_clean [OF v] that obtain x u b where x: "pc_dirty (jpcs s x)"
        "pc_job (jpcs s x) = Some (Put u b)" "res u = p" unfolding fr by blast
      then have "pc_dirty (jpcs s' x)" using d by (auto simp: pcs)
      with x show ?thesis unfolding pcj by blast
    qed
    show "pc_ok (sp (res (job_uri j'))) (lfs s' (res (job_uri j'))) (jpcs s' x)"
      if "pc_job (jpcs s' x) = Some j'" for x j'
      using that view_ok [OF v, of x j'] ok j unfolding pcj fr by (cases "x = t") (auto simp: pcs)
  qed (use rep uri view_excl [OF v] in \<open>unfold fr pcj, blast\<close>)+
qed

text \<open>A step of a writer under its lock, which may change its file and append to the log.\<close>

lemma view_writer:
  assumes v: "lin_view U dir res fs s sp" and inj: "inj_on res U"
    and j: "pc_job (jpcs s t) = Some (Put u b)" and c: "pc_job c = Some (Put u b)"
    and s': "s' = move t c (s\<lparr>lfs := (lfs s)(res u := f), audits := as\<rparr>)"
    and rep: "explains res fs as (sp(res u := n))"
    and ok: "pc_ok n f c" and clean: "\<not> pc_dirty c \<Longrightarrow> f = n"
  shows "lin_view U dir res fs s' (sp(res u := n))"
proof -
  have pcs: "jpcs s' x = (if x = t then c else jpcs s x)" for x by (simp add: s' move_def)
  have pcj: "pc_job (jpcs s' x) = pc_job (jpcs s x)" for x using j c pcs by simp
  have uri: "pc_in U (jpcs s' x)" for x
    using view_in [OF v] view_uri [OF v j] pc_in_job [OF c] by (simp add: pcs)
  have fr: "lfs s' = (lfs s)(res u := f)" "flocks s' = flocks s" "audits s' = as"
    by (simp_all add: s' move_def)
  have other: "res (job_uri j') \<noteq> res u" if "pc_job (jpcs s x) = Some j'" "x \<noteq> t" for x j'
    using writer_alone [OF v inj j] that by blast
  have pok: "pc_ok ((sp(res u := n)) (res (job_uri j'))) (lfs s' (res (job_uri j'))) (jpcs s' x)"
    if "pc_job (jpcs s x) = Some j'" for x j'
  proof (cases "x = t")
    case True
    with that j have "j' = Put u b" by simp
    with True ok show ?thesis by (simp add: fr pcs)
  next
    case False
    with other [OF that False] v that show ?thesis by (simp add: fr pcs lin_view_def)
  qed
  have dirt: "\<exists>x u' b'. pc_dirty (jpcs s' x) \<and> pc_job (jpcs s x) = Some (Put u' b') \<and> res u' = p"
    if "lfs s' p \<noteq> (sp(res u := n)) p" for p
  proof (cases "p = res u")
    case True
    with that clean have "pc_dirty c" by (auto simp: fr)
    with True j show ?thesis by (auto simp: pcs)
  next
    case False
    with that have "lfs s p \<noteq> sp p" by (simp add: fr)
    with v obtain x u' b' where x: "pc_dirty (jpcs s x)" "pc_job (jpcs s x) = Some (Put u' b')"
      "res u' = p" unfolding lin_view_def by blast
    with False j have "x \<noteq> t" by auto
    with x show ?thesis by (auto simp: pcs)
  qed
  have locks: "\<forall>path x. flocks s' path x = lock_of dir path (jpcs s' x)"
    using v by (simp add: fr lock_of_def pcj lin_view_def)
  show ?thesis
  proof (rule lin_viewI)
    show "explains res fs (audits s') (sp(res u := n))" using rep by (simp add: fr)
    show "\<exists>x u' b'. pc_dirty (jpcs s' x) \<and> pc_job (jpcs s' x) = Some (Put u' b') \<and> res u' = p"
      if "lfs s' p \<noteq> (sp(res u := n)) p" for p
      using dirt [OF that] unfolding pcj .
    show "pc_ok ((sp(res u := n)) (res (job_uri j'))) (lfs s' (res (job_uri j'))) (jpcs s' x)"
      if "pc_job (jpcs s' x) = Some j'" for x j' using pok that unfolding pcj .
  qed (use uri view_excl [OF v] locks in \<open>unfold pcj, blast\<close>)+
qed

section \<open>The steps keep it\<close>

lemma flock_holder:
  "lin_view U dir res fs s sp \<Longrightarrow> pc_job (jpcs s t) = Some j \<Longrightarrow>
     flocks s (lockfile dir j) t = Some (job_op j)"
  by (simp add: lin_view_def lock_of_def)

text \<open>Whoever is granted the lockfile finds the file as the log says.\<close>

lemma granted_clean:
  assumes v: "lin_view U dir res fs s sp" and inj: "inj_on res U" and "job_uri j \<in> U"
    and grant: "may_flock (job_op j) (flocks s (lockfile dir j))"
  shows "lfs s (res (job_uri j)) = sp (res (job_uri j))"
proof (rule ccontr)
  assume "lfs s (res (job_uri j)) \<noteq> sp (res (job_uri j))"
  with v obtain t u b where t: "pc_job (jpcs s t) = Some (Put u b)" "res u = res (job_uri j)"
    unfolding lin_view_def by blast
  have "u \<in> U" using view_uri [OF v t(1)] by simp
  with t(2) inj assms(3) have "u = job_uri j" by (simp add: inj_on_def)
  then have "lockfile dir (Put u b) = lockfile dir j" by (simp add: lockfile_def)
  with flock_holder [OF v t(1)] have "flocks s (lockfile dir j) t = Some LOCK_EX" by simp
  with grant show False by (auto simp: may_flock_def split: lock_op.splits)
qed

lemma view_lock:
  assumes v: "lin_view U dir res fs s sp" and inj: "inj_on res U" and w: "jpcs s t = JWait j"
    and grant: "may_flock (job_op j) (flocks s (lockfile dir j))"
    and c: "pc_job c = Some j" "\<not> pc_dirty c"
    and ok: "\<And>n. pc_ok n n c"
    and s': "s' = move t c (s\<lparr>flocks := (flocks s)(lockfile dir j :=
        (flocks s (lockfile dir j))(t \<mapsto> job_op j))\<rparr>)"
  shows "lin_view U dir res fs s' sp"
proof -
  have pcs: "jpcs s' x = (if x = t then c else jpcs s x)" for x by (simp add: s' move_def)
  have fr: "lfs s' = lfs s" "audits s' = audits s" by (simp_all add: s' move_def)
  have U: "job_uri j \<in> U" using view_in [OF v, of t] w by simp
  have none: "lock_of dir path (jpcs s t) = None" for path using w by (simp add: lock_of_def)
  have locks: "flocks s' path x = lock_of dir path (jpcs s' x)" for path x
    using v none c(1) by (auto simp: s' move_def lin_view_def lock_of_def)
  have held: "\<exists>op. flocks s (lockfile dir j) x = Some op \<and> op = job_op j'"
    if "pc_job (jpcs s x) = Some j'" "lockfile dir j' = lockfile dir j" for x j'
    using flock_holder [OF v that(1)] that(2) by simp
  have share: "job_op j = LOCK_SH \<and> job_op j' = LOCK_SH"
    if "pc_job (jpcs s x) = Some j'" "lockfile dir j' = lockfile dir j" for x j'
    using held [OF that] grant by (cases "job_op j"; cases "job_op j'") (auto simp: may_flock_def)
  have pok: "pc_ok (sp (res (job_uri j'))) (lfs s (res (job_uri j'))) (jpcs s' x)"
    if "pc_job (jpcs s' x) = Some j'" for x j'
    using that view_ok [OF v, of x j'] c(1) ok granted_clean [OF v inj U grant]
    by (cases "x = t") (auto simp: pcs)
  have excl: "job_op j1 = LOCK_SH" if "t1 \<noteq> t2" "pc_job (jpcs s' t1) = Some j1"
    "pc_job (jpcs s' t2) = Some j2" "lockfile dir j1 = lockfile dir j2" for t1 t2 j1 j2
    using that share c(1) view_excl [OF v, of t1 t2 j1 j2]
    by (cases "t1 = t"; cases "t2 = t") (auto simp: pcs)
  have dirt: "\<exists>x u b. pc_dirty (jpcs s' x) \<and> pc_job (jpcs s' x) = Some (Put u b) \<and> res u = p"
    if "lfs s p \<noteq> sp p" for p
  proof -
    from v that obtain x u b where "pc_dirty (jpcs s x)" "pc_job (jpcs s x) = Some (Put u b)"
      "res u = p" unfolding lin_view_def by blast
    moreover have "x \<noteq> t" using calculation w by auto
    ultimately show ?thesis by (auto simp: pcs)
  qed
  have uri: "pc_in U (jpcs s' x)" for x
    using view_in [OF v] U pc_in_job [OF c(1)] by (simp add: pcs)
  show ?thesis
    by (rule lin_viewI) (use view_explains [OF v] locks uri excl pok dirt in \<open>unfold fr, blast\<close>)+
qed

lemma view_leave:
  assumes v: "lin_view U dir res fs s sp" and nd: "\<not> pc_dirty (jpcs s t)"
    and c: "pc_job c = None" "pc_in U c"
    and fr: "lfs s' = lfs s" "audits s' = as" "jpcs s' = (jpcs s)(t := c)"
    and rep: "explains res fs as sp"
    and locks: "\<And>path x. flocks s' path x = (if x = t then None else flocks s path x)"
  shows "lin_view U dir res fs s' sp"
proof -
  have lk: "flocks s' path x = lock_of dir path (jpcs s' x)" for path x
    using v c(1) by (simp add: locks fr lin_view_def) (simp add: lock_of_def)
  have dirt: "\<exists>x u b. pc_dirty (jpcs s' x) \<and> pc_job (jpcs s' x) = Some (Put u b) \<and> res u = p"
    if "lfs s p \<noteq> sp p" for p
  proof -
    from v that obtain x u b where "pc_dirty (jpcs s x)" "pc_job (jpcs s x) = Some (Put u b)"
      "res u = p" unfolding lin_view_def by blast
    moreover have "x \<noteq> t" using calculation nd by auto
    ultimately show ?thesis by (auto simp: fr)
  qed
  have job: "pc_job (jpcs s' x) = Some j \<longleftrightarrow> x \<noteq> t \<and> pc_job (jpcs s x) = Some j" for x j
    using c(1) by (simp add: fr)
  have pok: "pc_ok (sp (res (job_uri j))) (lfs s' (res (job_uri j))) (jpcs s' x)"
    if "x \<noteq> t" "pc_job (jpcs s x) = Some j" for x j
    using that view_ok [OF v, of x j] by (simp add: fr)
  have uri: "pc_in U (jpcs s' x)" for x using view_in [OF v] c(2) by (simp add: fr)
  show ?thesis
  proof (rule lin_viewI)
    show "explains res fs (audits s') sp" using rep by (simp add: fr)
    show "job_op j = LOCK_SH" if "x \<noteq> x'" "pc_job (jpcs s' x) = Some j" "pc_job (jpcs s' x') = Some j'"
      "lockfile dir j = lockfile dir j'" for x x' j j'
      using view_excl [OF v that(1) _ _ that(4)] that(2,3) unfolding job by blast
  qed (use lk uri dirt pok in \<open>unfold job fr(1), blast\<close>)+
qed

lemma serve_at_get: "serve_at n REQUEST_GET b = (st, reply, f) \<Longrightarrow> f = n"
  by (auto simp: serve_at_def split: option.splits fnode.splits bool.splits)

lemma outcome_same: "outcome n j st reply f \<Longrightarrow> job_op j = LOCK_SH \<Longrightarrow> f = n"
  by (cases j) (auto simp: outcome_def dest: serve_at_get)

lemma outcome_failure: "fails n j st f \<Longrightarrow> outcome n j st (said st) f"
  by (simp add: outcome_def)

lemma answers_cut: "answers full (Whole b) \<Longrightarrow> answers full (Cut (take k b))"
  by (simp add: take_is_prefix)

lemma outcome_cut: "outcome n j st (Whole b) f \<Longrightarrow> outcome n j st (Cut (take k b)) f"
  unfolding outcome_def using answers_cut by blast

lemma left_behind_same [simp]: "left_behind n b n"
  by (simp add: left_behind_def)

lemma outcome_refused:
  "pc_in U (JRefused j st) \<Longrightarrow> answers (canned st) reply \<Longrightarrow> outcome n j st reply n"
  by (cases j) (auto simp: outcome_def)

lemma open_error_fails:
  "e \<noteq> ENOENT \<Longrightarrow> fails n (Get u) (get_open_error e) n" "fails n (Put u b) (put_open_error e) n"
  by (auto simp: get_open_error_def put_open_error_def)

lemma move_same: "move t c s = move t c (s\<lparr>audits := audits s\<rparr>)"
  "move t c (s\<lparr>lfs := f\<rparr>) = move t c (s\<lparr>lfs := f, audits := audits s\<rparr>)"
  by simp_all

text \<open>A request that is answered and audited without the lock changes nothing.\<close>

lemma refused_audited:
  assumes v: "lin_view U dir res fs s sp" and t: "jpcs s t = JRefused j st" and "answers (canned st) reply"
  shows "lin_view U dir res fs (move t JIdle (s\<lparr>audits := audits s @ [(j, st, reply)]\<rparr>)) sp"
proof -
  let ?p = "res (job_uri j)" and ?as = "audits s @ [(j, st, reply)]"
  have "outcome (sp ?p) j st reply (sp ?p)"
    using outcome_refused view_in [OF v, of t] t assms(3) by metis
  then have "explains res fs ?as sp"
    using view_explains [OF v] unfolding explains_snoc by (metis fun_upd_triv)
  then show ?thesis
    by (intro view_leave [OF v, where t = t and c = JIdle and as = ?as])
      (use t view_locks [OF v] in \<open>auto simp: move_def lock_of_def\<close>)
qed

lemma frame_step_view:
  assumes "frame_step U dir failing s s'" and "lin_view U dir res fs s sp" and inj: "inj_on res U"
  shows "\<exists>sp'. lin_view U dir res fs s' sp'"
  using assms(1,2)
proof (induction rule: frame_step.induct)
  case (arrive s t j)
  have "lin_view U dir res fs (move t (start_pc j) s) sp"
    by (rule view_leave [OF arrive(3), where t = t and c = "start_pc j"])
      (use arrive start_pc_in view_locks [OF arrive(3)] view_explains [OF arrive(3)] in
        \<open>auto simp: move_def lock_of_def\<close>)
  then show ?case by blast
next
  case (lock_get s t u)
  show ?case
    by (rule exI, rule view_lock [OF lock_get(3) inj lock_get(1), where c = "JOpenR u"])
      (use lock_get in simp_all)
next
  case (lock_put s t u b)
  show ?case
    by (rule exI, rule view_lock [OF lock_put(3) inj lock_put(1), where c = "JAccess u b"])
      (use lock_put in simp_all)
next
  case (audit s t j st reply)
  let ?p = "res (job_uri j)" and ?as = "audits s @ [(j, st, reply)]"
  have job: "pc_job (jpcs s t) = Some j" using audit(1) by simp
  from view_ok [OF audit(2) job] audit(1) have out: "outcome (sp ?p) j st reply (lfs s ?p)" by simp
  then have rep: "explains res fs ?as (sp(?p := lfs s ?p))"
    using view_explains [OF audit(2)] unfolding explains_snoc by blast
  show ?case
  proof (cases j)
    case (Put u b)
    show ?thesis
      by (rule exI, rule view_writer [OF audit(2) inj, where c = "JUnlock j" and as = ?as
            and f = "lfs s ?p" and n = "lfs s ?p" and u = u and b = b])
        (use job Put rep in \<open>auto simp: move_def\<close>)
  next
    case (Get u)
    with out outcome_same have "lfs s ?p = sp ?p" by simp
    with rep have rep': "explains res fs ?as sp" by simp
    show ?thesis
      by (rule exI, rule view_same_job [OF audit(2) job, where c = "JUnlock j", OF _ _ _ refl rep'])
        (use audit(1) Get in simp_all)
  next
    case (Refuse m u r)
    with out outcome_same have "lfs s ?p = sp ?p" by simp
    with rep have rep': "explains res fs ?as sp" by simp
    show ?thesis
      by (rule exI, rule view_same_job [OF audit(2) job, where c = "JUnlock j", OF _ _ _ refl rep'])
        (use audit(1) Refuse in simp_all)
  qed
next
  case (unlock s t j)
  have "lin_view U dir res fs (move t JIdle
      (s\<lparr>flocks := (flocks s)(lockfile dir j := (flocks s (lockfile dir j))(t := None))\<rparr>)) sp"
    by (rule view_leave [OF unlock(2), where t = t and c = JIdle])
      (use unlock view_locks [OF unlock(2)] view_explains [OF unlock(2)] in
        \<open>auto simp: move_def lock_of_def\<close>)
  then show ?case by blast
next
  case (lock_fails s t j)
  have "lin_view U dir res fs (move t (JRefused j RESPONSE_INTERNAL_SERVER_ERROR) s) sp"
    by (rule view_leave [OF lock_fails(2), where t = t])
      (use lock_fails view_locks [OF lock_fails(2)] view_in [OF lock_fails(2), of t]
        view_explains [OF lock_fails(2)] in \<open>auto simp: move_def lock_of_def split: job.splits\<close>)
  then show ?case by blast
next
  case (audit_refused s t j st)
  have "lin_view U dir res fs (move t JIdle (s\<lparr>audits := audits s @ [(j, st, said st)]\<rparr>)) sp"
    by (rule refused_audited [OF audit_refused(2,1)]) simp
  then show ?case by blast
next
  case (refused_gone s t j st k)
  have "lin_view U dir res fs (move t JIdle (s\<lparr>audits := audits s @ [(j, st, Cut (take k (canned st)))]\<rparr>)) sp"
    by (rule refused_audited [OF refused_gone(3,1)]) (simp add: take_is_prefix)
  then show ?case by blast
next
  case (client_gone s t j st full k)
  have job: "pc_job (jpcs s t) = Some j" using client_gone(1) by simp
  from view_ok [OF client_gone(3) job] client_gone(1)
  have "outcome (sp (res (job_uri j))) j st (Cut (take k full)) (lfs s (res (job_uri j)))"
    by (simp add: outcome_cut)
  then have "lin_view U dir res fs (move t (JAudit j st (Cut (take k full))) s) sp"
    by (intro view_same_job [OF client_gone(3) job _ _ _ move_same(1) view_explains [OF client_gone(3)]])
      (use client_gone(1) in \<open>cases j; simp\<close>)+
  then show ?case by blast
qed

lemma prefix_extend:
  assumes "prefix got d" shows "prefix (got @ take k (drop (length got) d)) d"
proof -
  obtain r where d: "d = got @ r" using assms by (auto simp: prefix_def)
  then show ?thesis by (simp add: take_is_prefix)
qed

text \<open>A step of a reader that sends its answer, and one that goes on.\<close>

lemma reader_answers:
  assumes "lin_view U dir res fs s sp" and "pc_job (jpcs s t) = Some (Get u)"
    and "\<not> pc_dirty (jpcs s t)" and "outcome (sp (res u)) (Get u) st reply (lfs s (res u))"
  shows "lin_view U dir res fs (move t (JAudit (Get u) st reply) s) sp"
  by (rule view_same_job [OF assms(1,2) _ _ _ move_same(1) view_explains [OF assms(1)]])
    (use assms in simp_all)

lemma reader_goes:
  assumes "lin_view U dir res fs s sp" and "pc_job (jpcs s t) = Some (Get u)" and "pc_job c = Some (Get u)"
    and "\<not> pc_dirty (jpcs s t)" and "pc_ok (sp (res u)) (lfs s (res u)) c"
  shows "lin_view U dir res fs (move t c s) sp"
  by (rule view_same_job [OF assms(1,2) _ _ _ move_same(1) view_explains [OF assms(1)]])
    (use assms in simp_all)

lemma get_step_view:
  assumes "get_step res failing s s'" and "lin_view U dir res fs s sp"
  shows "lin_view U dir res fs s' sp"
  using assms
proof (induction rule: get_step.induct)
  case (open_none s t u)
  with view_ok [of U dir res fs s sp t "Get u"] show ?case
    by (intro reader_answers) (auto simp: serve_at_def outcome_def get_open_error_def)
next
  case (open_denied s t u d wr)
  with view_ok [of U dir res fs s sp t "Get u"] show ?case
    by (intro reader_answers) (auto simp: serve_at_def outcome_def get_open_error_def)
next
  case (open_file s t u d wr)
  with view_ok [of U dir res fs s sp t "Get u"] show ?case by (intro reader_goes) auto
next
  case (open_fails s t u e)
  with view_ok [of U dir res fs s sp t "Get u"] open_error_fails(1) show ?case
    by (intro reader_answers) (auto intro: outcome_failure simp del: fails.simps)
next
  case (stat_dir s t u)
  with view_ok [of U dir res fs s sp t "Get u"] show ?case
    by (intro reader_answers) (auto simp: serve_at_def outcome_def)
next
  case (stat_file s t u d rd wr)
  with view_ok [of U dir res fs s sp t "Get u"] show ?case by (intro reader_goes) auto
next
  case (stat_fails s t u)
  with view_ok [of U dir res fs s sp t "Get u"] show ?case
    by (intro reader_answers) (auto simp: outcome_def)
next
  case (read_chunk s t u n got k)
  with view_ok [of U dir res fs s sp t "Get u"] show ?case
    by (intro reader_goes) (auto simp: content_def prefix_extend)
next
  case (read_end s t u n got)
  with view_ok [of U dir res fs s sp t "Get u"] obtain d wr where
    d: "lfs s (res u) = sp (res u)" "sp (res u) = Some (Regular d True wr)" "n = length d" "prefix got d"
    by auto
  with read_end(2) have "length d \<le> length got" by (auto simp: content_def)
  with d(4) have "got = d" by (metis append_eq_conv_conj prefix_def take_all)
  with d read_end show ?case
    by (intro reader_answers) (auto simp: serve_at_def outcome_def file_header_message)
next
  case (send_fails s t u n got k)
  with view_ok [of U dir res fs s sp t "Get u"] obtain d wr where
    d: "lfs s (res u) = sp (res u)" "sp (res u) = Some (Regular d True wr)" "n = length d" "prefix got d"
    by auto
  have "prefix (take k (file_header n @ got)) (file_header n @ d)"
    using d(4) by (meson prefix_order.trans same_prefix_prefix take_is_prefix)
  with d send_fails show ?case
    by (intro reader_answers) (auto simp: serve_at_def outcome_def file_header_message)
qed

lemma serve_at_put:
  assumes "opened n ex rd"
  shows "serve_at n REQUEST_PUT b = (if ex then RESPONSE_OK else RESPONSE_CREATED,
    canned (if ex then RESPONSE_OK else RESPONSE_CREATED), Some (Regular b rd True))"
  using assms by (auto simp: opened_def serve_at_def)

lemma opened_truncated:
  "opened n ex rd \<Longrightarrow>
     set_content [] (if ex then n else Some (Regular [] True True)) = Some (Regular [] rd True)"
  by (auto simp: opened_def set_content_def)

lemma put_step_view:
  assumes "put_step res failing s s'" and "lin_view U dir res fs s sp" and inj: "inj_on res U"
  shows "lin_view U dir res fs s' sp"
proof -
  have writer: "lin_view U dir res fs (move t c (s\<lparr>lfs := (lfs s)(res u := f)\<rparr>)) sp"
    if "lin_view U dir res fs s sp" "pc_job (jpcs s t) = Some (Put u b)" "pc_job c = Some (Put u b)"
      "pc_ok (sp (res u)) f c" "\<not> pc_dirty c \<Longrightarrow> f = sp (res u)" for s t c u b f
  proof -
    have "lin_view U dir res fs (move t c (s\<lparr>lfs := (lfs s)(res u := f)\<rparr>)) (sp(res u := sp (res u)))"
      by (rule view_writer [OF that(1) inj that(2,3) move_same(2)])
        (use that(4,5) view_explains [OF that(1)] in simp_all)
    then show ?thesis by simp
  qed
  have same: "s = s\<lparr>lfs := (lfs s)(p := lfs s p)\<rparr>" for s :: lin_sys and p by simp
  from assms(1,2) show ?thesis
  proof (induction rule: put_step.induct)
    case (exists s t u b)
    with view_ok [of U dir res fs s sp t "Put u b"] show ?case
      by (subst same [of s "res u"], intro writer) auto
  next
    case (create s t u b ex)
    with view_ok [of U dir res fs s sp t "Put u b"] show ?case
      by (intro writer) (auto simp: opened_def)
  next
    case (open_write s t u b ex d rd)
    with view_ok [of U dir res fs s sp t "Put u b"] show ?case
      by (subst same [of s "res u"], intro writer) (auto simp: opened_old)
  next
    case (open_directory s t u b ex)
    with view_ok [of U dir res fs s sp t "Put u b"] show ?case
      by (subst same [of s "res u"], intro writer) (auto simp: serve_at_def outcome_def put_open_error_def)
  next
    case (denied s t u b ex d rd)
    with view_ok [of U dir res fs s sp t "Put u b"] show ?case
      by (subst same [of s "res u"], intro writer) (auto simp: serve_at_def outcome_def put_open_error_def)
  next
    case (put_open_fails s t u b ex e)
    with view_ok [of U dir res fs s sp t "Put u b"] open_error_fails(2) show ?case
      by (subst same [of s "res u"], intro writer) (auto intro: outcome_failure simp del: fails.simps)
  next
    case (truncate s t u b ex)
    then obtain rd where "opened (sp (res u)) ex rd"
      "lfs s (res u) = (if ex then sp (res u) else Some (Regular [] True True))"
      using view_ok [of U dir res fs s sp t "Put u b"] by auto
    with opened_truncated [of "sp (res u)" ex rd] truncate show ?case
      by (intro writer [where b = b]) (auto simp del: if_split)
  next
    case (write_byte s t u b ex wr c rest)
    with view_ok [of U dir res fs s sp t "Put u b"] show ?case
      by (intro writer) (auto simp: set_content_def write_at_def content_def)
  next
    case (written s t u b ex wr)
    with view_ok [of U dir res fs s sp t "Put u b"] show ?case
      by (subst same [of s "res u"], intro writer) (auto simp: serve_at_put outcome_def)
  next
    case (truncate_fails s t u b ex)
    then obtain rd where "opened (sp (res u)) ex rd"
      "lfs s (res u) = (if ex then sp (res u) else Some (Regular [] True True))"
      using view_ok [of U dir res fs s sp t "Put u b"] by auto
    then have "outcome (sp (res u)) (Put u b) RESPONSE_INTERNAL_SERVER_ERROR
        (said RESPONSE_INTERNAL_SERVER_ERROR) (lfs s (res u))"
      by (intro outcome_failure) (simp only: fails.simps opened_left_behind simp_thms)
    with truncate_fails show ?case
      by (subst same [of s "res u"], intro writer [where b = b]) simp_all
  next
    case (receive_fails s t u b ex wr rest)
    with view_ok [of U dir res fs s sp t "Put u b"] show ?case
      by (subst same [of s "res u"], intro writer) (auto simp: outcome_def left_behind_def)
  qed
qed

definition lin_inv ::
  "bytes set \<Rightarrow> bytes \<Rightarrow> (bytes \<Rightarrow> bytes) \<Rightarrow> (bytes \<Rightarrow> fnode option) \<Rightarrow> lin_sys \<Rightarrow> bool" where
  "lin_inv U dir res fs s \<longleftrightarrow> (inj_on res U \<longrightarrow> (\<exists>sp. lin_view U dir res fs s sp))"

lemma lin_init_view: "lin_init fs s \<Longrightarrow> lin_view U dir res fs s fs"
  by (rule lin_viewI) (auto simp: lin_init_def lock_of_def)

interpretation connections: invariant_system "lin_init fs" "lin_step U dir res" "lin_inv U dir res fs"
  for U dir res fs
proof
  show "lin_inv U dir res fs s" if "lin_init fs s" for s
    using lin_init_view [OF that] by (auto simp: lin_inv_def)
  show "lin_inv U dir res fs s'" if "lin_step U dir res s s'" "lin_inv U dir res fs s" for s s'
    using that frame_step_view get_step_view put_step_view unfolding lin_inv_def lin_step_def lin_move_def by metis
qed

section \<open>The audit log is a linearization\<close>

text \<open>
  C3: the audit log is a linearization of concurrent requests. As long as different requested URIs
  name different files, in every state that concurrent connections can reach, whichever calls fail,
  the audited requests one at a time, in the order of their audit lines, lead from the initial files
  through every answer that was given: each request got the status of the sequential server and its
  bytes, or the part of them sent before the client was gone; or it failed, with 403 or 500 and its
  file unchanged when the file could not be opened, or with 500 and its file as it was or with a
  part of the body. Where no GET and no PUT was answered 403 or 500 the sequential run is the only
  explanation. Whenever no PUT is between opening its file and its audit line, the files are exactly
  the explained ones. In particular the first PUT of a new URI in audit order is the one answered
  201, and no GET sees a partly written file.
\<close>

theorem audit_order_linearizes:
  assumes "lin_init fs s\<^sub>0" and "(lin_step U dir res)\<^sup>*\<^sup>* s\<^sub>0 s" and "inj_on res U"
  shows "\<exists>sp. explains res fs (audits s) sp
    \<and> (no_failures (audits s) \<longrightarrow> replay res fs (audits s) = Some sp)
    \<and> ((\<forall>t. \<not> pc_dirty (jpcs s t)) \<longrightarrow> lfs s = sp)
    \<and> (\<forall>t u n got. jpcs s t = JRead u n got \<longrightarrow>
         (\<exists>d wr. sp (res u) = Some (Regular d True wr) \<and> n = length d \<and> prefix got d))"
proof -
  have "lin_inv U dir res fs s" using assms(1,2) by (rule connections.reach_inv)
  then obtain sp where v: "lin_view U dir res fs s sp" using assms(3) by (auto simp: lin_inv_def)
  have "lfs s = sp" if "\<forall>t. \<not> pc_dirty (jpcs s t)"
    using view_clean [OF v] that by blast
  moreover have "\<exists>d wr. sp (res u) = Some (Regular d True wr) \<and> n = length d \<and> prefix got d"
    if "jpcs s t = JRead u n got" for t u n got
    using view_ok [OF v, of t "Get u"] that by auto
  ultimately show ?thesis using view_explains [OF v] explains_replay by blast
qed

section \<open>Runs of PUTs\<close>

text \<open>From the arrival of a PUT to its look at the file, on a lockfile that is free.\<close>

lemma put_begins:
  assumes "jpcs s t = JIdle" and "u \<in> U" and "\<forall>x. flocks s (lockfile dir (Put u b)) x = None"
  shows "\<exists>s'. (lin_step U dir res)\<^sup>*\<^sup>* s s' \<and> lfs s' = lfs s \<and> audits s' = audits s
    \<and> jpcs s' = (jpcs s)(t := JOpenW u b (lfs s (res u) \<noteq> None))
    \<and> (\<forall>path. path \<noteq> lockfile dir (Put u b) \<longrightarrow> flocks s' path = flocks s path)"
proof -
  let ?lk = "lockfile dir (Put u b)"
  let ?s1 = "move t (JWait (Put u b)) s"
  let ?s2 = "move t (JAccess u b) (?s1\<lparr>flocks := (flocks ?s1)(?lk := (flocks ?s1 ?lk)(t \<mapsto> LOCK_EX))\<rparr>)"
  let ?s3 = "move t (JOpenW u b (lfs ?s2 (res u) \<noteq> None)) ?s2"
  have "lin_step U dir res s ?s1"
    using lin_stepI(1) [OF frame_step.arrive [OF assms(1), where j = "Put u b"]] assms(2) by (simp add: job_in_def)
  moreover have "lin_step U dir res ?s1 ?s2"
    by (rule lin_stepI(1) [OF frame_step.lock_put]) (use assms(3) in \<open>simp_all add: move_def may_flock_def\<close>)
  moreover have "lin_step U dir res ?s2 ?s3"
    by (rule lin_stepI(3) [OF put_step.exists]) (simp add: move_def)
  ultimately have "(lin_step U dir res)\<^sup>*\<^sup>* s ?s3"
    by (meson converse_rtranclp_into_rtranclp rtranclp.rtrancl_refl)
  then show ?thesis by (intro exI [of _ ?s3]) (simp add: move_def)
qed

lemma body_written:
  "jpcs s t = JWrite u b ex wr rest \<Longrightarrow> lfs s (res u) = Some (Regular wr rd w) \<Longrightarrow>
     (lin_step U dir res)\<^sup>*\<^sup>* s (move t (JWrite u b ex (wr @ rest) [])
       (s\<lparr>lfs := (lfs s)(res u \<mapsto> Regular (wr @ rest) rd w)\<rparr>))"
proof (induction rest arbitrary: s wr)
  case Nil
  then have "move t (JWrite u b ex (wr @ []) []) (s\<lparr>lfs := (lfs s)(res u \<mapsto> Regular (wr @ []) rd w)\<rparr>) = s"
    by (simp add: move_def fun_upd_idem)
  then show ?case by (simp only: rtranclp.rtrancl_refl)
next
  case (Cons c rest)
  let ?s = "move t (JWrite u b ex (wr @ [c]) rest) (s\<lparr>lfs := (lfs s)(res u :=
      set_content (write_at (content (lfs s (res u))) (length wr) [c]) (lfs s (res u)))\<rparr>)"
  have "lin_step U dir res s ?s" by (rule lin_stepI(3) [OF put_step.write_byte [OF Cons.prems(1)]])
  moreover have "(lin_step U dir res)\<^sup>*\<^sup>* ?s (move t (JWrite u b ex ((wr @ [c]) @ rest) [])
      (?s\<lparr>lfs := (lfs ?s)(res u \<mapsto> Regular ((wr @ [c]) @ rest) rd w)\<rparr>))"
    by (rule Cons.IH) (use Cons.prems(2) in \<open>simp_all add: move_def set_content_def write_at_def content_def\<close>)
  moreover have "move t (JWrite u b ex ((wr @ [c]) @ rest) [])
      (?s\<lparr>lfs := (lfs ?s)(res u \<mapsto> Regular ((wr @ [c]) @ rest) rd w)\<rparr>)
    = move t (JWrite u b ex (wr @ c # rest) []) (s\<lparr>lfs := (lfs s)(res u \<mapsto> Regular (wr @ c # rest) rd w)\<rparr>)"
    by (simp add: move_def)
  ultimately show ?case by (metis converse_rtranclp_into_rtranclp)
qed

text \<open>From there to its audit line, when it has found no file: whether there is one by now or not.\<close>

lemma put_ends:
  assumes "jpcs s t = JOpenW u b False"
    and "lfs s (res u) = None \<or> (\<exists>d. lfs s (res u) = Some (Regular d True True))"
  shows "\<exists>s'. (lin_step U dir res)\<^sup>*\<^sup>* s s' \<and> lfs s' = (lfs s)(res u \<mapsto> Regular b True True)
    \<and> audits s' = audits s @ [(Put u b, RESPONSE_CREATED, said RESPONSE_CREATED)]
    \<and> jpcs s' = (jpcs s)(t := JUnlock (Put u b)) \<and> flocks s' = flocks s"
proof -
  obtain d s1 where s1: "lin_step U dir res s s1" "jpcs s1 = (jpcs s)(t := JTrunc u b False)"
    "lfs s1 = (lfs s)(res u \<mapsto> Regular d True True)" "flocks s1 = flocks s" "audits s1 = audits s"
  proof (cases "lfs s (res u)")
    case None
    show ?thesis
      by (rule that [OF lin_stepI(3) [OF put_step.create [where res = res, OF assms(1) None]]]) (simp_all add: move_def)
  next
    case (Some n)
    with assms(2) obtain d where "lfs s (res u) = Some (Regular d True True)" by auto
    then show ?thesis
      by (intro that [where d = d, OF lin_stepI(3) [OF put_step.open_write [where res = res, OF assms(1)]]]) (simp_all add: move_def fun_upd_idem)
  qed
  let ?s2 = "move t (JWrite u b False [] b) (s1\<lparr>lfs := (lfs s1)(res u := set_content [] (lfs s1 (res u)))\<rparr>)"
  let ?s3 = "move t (JWrite u b False ([] @ b) []) (?s2\<lparr>lfs := (lfs ?s2)(res u \<mapsto> Regular ([] @ b) True True)\<rparr>)"
  let ?s4 = "move t (JAudit (Put u b) (if False then RESPONSE_OK else RESPONSE_CREATED)
      (said (if False then RESPONSE_OK else RESPONSE_CREATED))) ?s3"
  let ?s5 = "move t (JUnlock (Put u b))
      (?s4\<lparr>audits := audits ?s4 @ [(Put u b, RESPONSE_CREATED, said RESPONSE_CREATED)]\<rparr>)"
  have "lin_step U dir res s1 ?s2"
    by (rule lin_stepI(3) [OF put_step.truncate]) (simp add: s1)
  moreover have "(lin_step U dir res)\<^sup>*\<^sup>* ?s2 ?s3"
    by (rule body_written) (simp_all add: move_def s1 set_content_def)
  moreover have "lin_step U dir res ?s3 ?s4"
    by (rule lin_stepI(3) [OF put_step.written]) (simp add: move_def)
  moreover have "lin_step U dir res ?s4 ?s5"
    by (rule lin_stepI(1) [OF frame_step.audit]) (simp add: move_def)
  ultimately have "(lin_step U dir res)\<^sup>*\<^sup>* s ?s5"
    using s1(1) by (meson converse_rtranclp_into_rtranclp rtranclp.rtrancl_into_rtrancl)
  then show ?thesis by (intro exI [of _ ?s5]) (simp add: move_def s1)
qed

definition no_jobs :: lin_sys where
  "no_jobs = \<lparr>lfs = (\<lambda>_. None), flocks = (\<lambda>_ _. None), jpcs = (\<lambda>_. JIdle), audits = []\<rparr>"

lemma no_jobs_init: "lin_init (\<lambda>_. None) no_jobs"
  by (simp add: lin_init_def no_jobs_def)

theorem audit_order_linearizes_witness:
  "\<exists>(s :: lin_sys) sp. audits s = [(Put ''a'' ''hi'', RESPONSE_CREATED, said RESPONSE_CREATED)]
     \<and> replay id (\<lambda>_. None) (audits s) = Some sp \<and> lfs s = sp"
proof -
  obtain s1 where s1: "(lin_step {''a''} ''d'' id)\<^sup>*\<^sup>* no_jobs s1" "jpcs s1 0 = JOpenW ''a'' ''hi'' False"
    "lfs s1 = (\<lambda>_. None)" "audits s1 = []" "jpcs s1 = (\<lambda>_. JIdle)(0 := JOpenW ''a'' ''hi'' False)"
    using put_begins [of no_jobs 0 "''a''" "{''a''}" "''d''" "''hi''" id] by (auto simp: no_jobs_def)
  then obtain s where s: "(lin_step {''a''} ''d'' id)\<^sup>*\<^sup>* s1 s"
    "audits s = [(Put ''a'' ''hi'', RESPONSE_CREATED, said RESPONSE_CREATED)]"
    "jpcs s = (\<lambda>_. JIdle)(0 := JUnlock (Put ''a'' ''hi''))"
    using put_ends [OF s1(2), of id "{''a''}" "''d''"] by auto
  have "(lin_step {''a''} ''d'' id)\<^sup>*\<^sup>* no_jobs s" using s1(1) s(1) by simp
  moreover have "\<forall>t. \<not> pc_dirty (jpcs s t)" by (simp add: s(3))
  ultimately obtain sp where "no_failures (audits s) \<longrightarrow> replay id (\<lambda>_. None) (audits s) = Some sp" "lfs s = sp"
    using audit_order_linearizes [OF no_jobs_init, of "{''a''}" "''d''" id s] by auto
  moreover have "no_failures (audits s)" by (simp add: s(2) no_failures_def)
  ultimately show ?thesis using s(2) by blast
qed

section \<open>URIs that name the same file\<close>

lemma created_outcome:
  assumes "outcome n (Put u b) RESPONSE_CREATED reply f"
  shows "n = None \<and> f = Some (Regular b True True)"
  using assms by (auto simp: outcome_def serve_at_def split: option.splits fnode.splits bool.splits)

lemma created_twice:
  "res u = res v \<Longrightarrow>
     \<not> explains res fs [(Put u b, RESPONSE_CREATED, r), (Put v b', RESPONSE_CREATED, r')] sp"
  by (auto dest!: created_outcome)

lemma mset_pair: "mset es = mset [x, y] \<Longrightarrow> es = [x, y] \<or> es = [y, x]"
proof -
  assume m: "mset es = mset [x, y]"
  then have "length es = 2" by (metis length_Cons list.size(3) size_mset numeral_2_eq_2)
  then obtain a b where "es = [a, b]" by (auto simp: length_Suc_conv numeral_2_eq_2)
  with mset_eq_setD [OF m] show ?thesis by (simp add: doubleton_eq_iff)
qed

lemma lockfiles_apart:
  assumes "wf_uri u" and "wf_uri v" and "u \<noteq> v"
  shows "lockfile (lock_dir_name dev ino) (Put u b) \<noteq> lockfile (lock_dir_name dev ino) (Put v b')"
proof -
  have "lock_path_for (lock_dir_name dev ino) x 192 = lock_dir_name dev ino @ ''/'' @ map lock_char x"
    if "wf_uri x" for x using that by (intro lock_path_eq) (auto simp: wf_uri_def)
  with assms map_lock_char_inj [of u v] show ?thesis by (auto simp: lockfile_def wf_uri_def)
qed

text \<open>
  C35: the lock is taken on the URI, not on the file it names. Whenever two URIs that pass the parser
  name one file that does not exist, as \<open>a\<close> and \<open>./a\<close> do, two concurrent PUTs of any bodies can both
  be answered and audited with 201, and then no order of the two requests explains the answers,
  neither the one of the audit log nor the other.
\<close>

theorem aliased_uris_not_linearized:
  assumes "wf_uri u" and "wf_uri v" and "u \<noteq> v" and "res u = res v" and "fs (res u) = None"
    and "lin_init fs s\<^sub>0"
  shows "\<exists>s. (lin_step {u, v} (lock_dir_name dev ino) res)\<^sup>*\<^sup>* s\<^sub>0 s
    \<and> audits s = [(Put u b, RESPONSE_CREATED, said RESPONSE_CREATED),
        (Put v b', RESPONSE_CREATED, said RESPONSE_CREATED)]
    \<and> (\<nexists>es sp. mset es = mset (audits s) \<and> explains res fs es sp)"
proof -
  let ?dir = "lock_dir_name dev ino"
  let ?step = "lin_step {u, v} ?dir res"
  note apart = lockfiles_apart [OF assms(1-3), of dev ino b b']
  have s0: "lfs s\<^sub>0 = fs" "jpcs s\<^sub>0 = (\<lambda>_. JIdle)" "audits s\<^sub>0 = []" "flocks s\<^sub>0 = (\<lambda>_ _. None)"
    using assms(6) by (auto simp: lin_init_def)
  obtain s1 where s1: "?step\<^sup>*\<^sup>* s\<^sub>0 s1" "lfs s1 = fs" "audits s1 = []"
    "jpcs s1 = (\<lambda>_. JIdle)(0 := JOpenW u b False)" "flocks s1 (lockfile ?dir (Put v b')) = (\<lambda>_. None)"
    using put_begins [of s\<^sub>0 0 u "{u, v}" ?dir b res] s0 assms(5) apart by (auto dest: not_sym)
  obtain s2 where s2: "?step\<^sup>*\<^sup>* s1 s2" "lfs s2 = fs" "audits s2 = []"
    "jpcs s2 = (\<lambda>_. JIdle)(0 := JOpenW u b False, 1 := JOpenW v b' False)"
    using put_begins [of s1 1 v "{u, v}" ?dir b' res] s1 assms(4,5) by auto
  obtain s3 where s3: "?step\<^sup>*\<^sup>* s2 s3" "lfs s3 = fs(res u \<mapsto> Regular b True True)"
    "audits s3 = [(Put u b, RESPONSE_CREATED, said RESPONSE_CREATED)]" "jpcs s3 1 = JOpenW v b' False"
    using put_ends [of s2 0 u b res "{u, v}" ?dir] s2 assms(5) by auto
  obtain s where s: "?step\<^sup>*\<^sup>* s3 s" "audits s = [(Put u b, RESPONSE_CREATED, said RESPONSE_CREATED),
      (Put v b', RESPONSE_CREATED, said RESPONSE_CREATED)]"
    using put_ends [of s3 1 v b' res "{u, v}" ?dir] s3 assms(4) by auto
  have "?step\<^sup>*\<^sup>* s\<^sub>0 s" using s1(1) s2(1) s3(1) s(1) by (meson rtranclp_trans)
  moreover have "\<not> explains res fs es sp" if "mset es = mset (audits s)" for es sp
    using mset_pair [OF that [unfolded s(2)]] created_twice [of res u v] created_twice [of res v u] assms(4)
    by auto
  ultimately show ?thesis using s(2) by blast
qed

theorem aliased_uris_not_linearized_witness:
  "\<exists>s. (lin_step {''a'', ''./a''} (lock_dir_name 1 2) (\<lambda>u. if u = ''./a'' then ''a'' else u))\<^sup>*\<^sup>* no_jobs s
     \<and> (\<nexists>es sp. mset es = mset (audits s)
          \<and> explains (\<lambda>u. if u = ''./a'' then ''a'' else u) (\<lambda>_. None) es sp)"
proof -
  let ?res = "\<lambda>u. if u = ''./a'' then ''a'' else u"
  have "wf_uri ''a''" "wf_uri ''./a''" "''a'' \<noteq> ''./a''" "?res ''a'' = ?res ''./a''"
    by (simp_all add: wf_uri_def class_defs)
  from aliased_uris_not_linearized [OF this refl no_jobs_init, of 1 2 "[]" "[]"] show ?thesis by blast
qed

end
