(* ===== verification/Whole_Server.thy ===== *)
theory Whole_Server
  imports Server_Dispatch Server_Linearization
begin

text \<open>
  The server as a whole: dispatcher, queue, workers and signals of \<^verbatim>\<open>Server_Dispatch\<close>, with the
  handler that a worker runs on its connection taken apart into the statements of
  \<^verbatim>\<open>Server_Linearization\<close>. What the two theories show of their parts holds of the whole, because its
  steps project to theirs, and together they say what happens to the requests of the clients.
\<close>

section \<open>The composition\<close>

text \<open>A client: what it sends and how the kernel delivers it, and whether the calls that do not depend on
  it succeed while its request is parsed (the allocation in \<open>conn_new\<close>, the two \<open>regcomp\<close>).\<close>

record client =
  cl_alloc :: bool
  cl_line :: bool
  cl_header :: bool
  cl_in :: istream

text \<open>The connection object after \<open>conn_parse\<close>, with its verdict.\<close>

definition parsed :: "client \<Rightarrow> (Response option \<times> conn) option" where
  "parsed cl = map_option (conn_parse (cl_line cl) (cl_header cl))
     (conn_new (cl_alloc cl) (cl_in cl) \<lparr>odata = [], osched = []\<rparr>)"

text \<open>What \<open>handle_connection\<close> makes of a client: nothing when it cannot allocate or nothing was sent, a
  refusal when \<open>conn_parse\<close> refuses or the method is unknown, a GET, or a PUT of the body that is to
  be stored.\<close>

definition request_of :: "client \<Rightarrow> job option" where
  "request_of cl = (case parsed cl of
     None \<Rightarrow> None
   | Some (Some r, c) \<Rightarrow> if conn_is_empty c then None
       else Some (Refuse (conn_get_request c) (conn_get_uri c) (parse_status r c))
   | Some (None, c) \<Rightarrow> Some
       (if conn_get_request c = REQUEST_GET then Get (conn_get_uri c)
        else if conn_get_request c = REQUEST_PUT then Put (conn_get_uri c) (put_body c)
        else Refuse (conn_get_request c) (conn_get_uri c) RESPONSE_NOT_IMPLEMENTED))"

text \<open>\<open>todo t\<close> is the client whose connection worker \<open>t\<close> has popped and whose request it has not yet
  parsed.\<close>

record whole_sys =
  sv :: server_sys
  lin :: lin_sys
  todo :: "nat \<Rightarrow> client option"

text \<open>
  The connection accepted as the \<open>n\<close>-th is that of the client \<open>clients n\<close>. A worker pops a connection,
  parses its request, runs the statements of the handler (for a refused request, the answer and the
  audit line) and returns to its loop; a connection without a request is closed in silence. A step
  of a handler is one that gives no idle worker a request.
\<close>

inductive whole_step :: "(nat \<Rightarrow> client) \<Rightarrow> bytes set \<Rightarrow> bytes \<Rightarrow> (bytes \<Rightarrow> bytes)
    \<Rightarrow> Listener_Socket \<Rightarrow> nat \<Rightarrow> whole_sys \<Rightarrow> whole_sys \<Rightarrow> bool"
  for clients :: "nat \<Rightarrow> client" and U :: "bytes set" and dir :: bytes
    and res :: "bytes \<Rightarrow> bytes" and sock :: Listener_Socket and N :: nat where
  dispatches: "sv_end (sv w) = None \<Longrightarrow> main_step sock (sv w) s \<Longrightarrow>
    whole_step clients U dir res sock N w (w\<lparr>sv := s\<rparr>)"
| takes: "sv_end (sv w) = None \<Longrightarrow> t < N \<Longrightarrow> wpcs (sv_pool (sv w)) t = WPop \<Longrightarrow>
    pop_ret (pq (sv_pool (sv w))) = Some (fd, q) \<Longrightarrow> fd \<noteq> STOP_SENTINEL \<Longrightarrow>
    whole_step clients U dir res sock N w (w\<lparr>sv := (sv w)\<lparr>sv_pool := (sv_pool (sv w))\<lparr>pq := q,
        wpcs := (wpcs (sv_pool (sv w)))(t := WRun fd),
        started := started (sv_pool (sv w)) @ [fd]\<rparr>\<rparr>,
      todo := (todo w)(t \<mapsto> clients (length (started (sv_pool (sv w)))))\<rparr>)"
| parses: "sv_end (sv w) = None \<Longrightarrow> t < N \<Longrightarrow> todo w t = Some cl \<Longrightarrow> request_of cl = Some j \<Longrightarrow>
    whole_step clients U dir res sock N w
      (w\<lparr>lin := move t (start_pc j) (lin w), todo := (todo w)(t := None)\<rparr>)"
| silent: "sv_end (sv w) = None \<Longrightarrow> t < N \<Longrightarrow> todo w t = Some cl \<Longrightarrow> request_of cl = None \<Longrightarrow>
    whole_step clients U dir res sock N w (w\<lparr>todo := (todo w)(t := None)\<rparr>)"
| handles: "sv_end (sv w) = None \<Longrightarrow> lin_step U dir res (lin w) l \<Longrightarrow>
    \<forall>t. jpcs (lin w) t = JIdle \<longrightarrow> jpcs l t = JIdle \<Longrightarrow>
    whole_step clients U dir res sock N w (w\<lparr>lin := l\<rparr>)"
| returns: "sv_end (sv w) = None \<Longrightarrow> t < N \<Longrightarrow> wpcs (sv_pool (sv w)) t = WRun fd \<Longrightarrow>
    todo w t = None \<Longrightarrow> jpcs (lin w) t = JIdle \<Longrightarrow>
    whole_step clients U dir res sock N w (w\<lparr>sv := (sv w)\<lparr>
      sv_table := close_socket fd (sv_table (sv w)),
      sv_pool := (sv_pool (sv w))\<lparr>wpcs := (wpcs (sv_pool (sv w)))(t := WPop),
                             finished := finished (sv_pool (sv w)) @ [fd]\<rparr>\<rparr>\<rparr>)"
| signals: "sv_end (sv w) = None \<Longrightarrow> whole_step clients U dir res sock N w (w\<lparr>sv := deliver sig (sv w)\<rparr>)"

definition whole_start :: "process \<Rightarrow> (bytes \<Rightarrow> fnode option) \<Rightarrow> whole_sys" where
  "whole_start m fs = \<lparr>sv = serving m,
     lin = \<lparr>lfs = fs, flocks = (\<lambda>_ _. None), jpcs = (\<lambda>_. JIdle), audits = []\<rparr>, todo = (\<lambda>_. None)\<rparr>"

section \<open>Projections\<close>

lemma whole_step_server:
  "whole_step clients U dir res sock N w w' \<Longrightarrow>
     sv w' = sv w \<or> server_step sock N (sv w) (sv w')"
proof (induction rule: whole_step.induct)
  case (takes w t fd q)
  from server_step.pops [OF takes(1) worker_step.worker_take [OF takes(2-5)]] show ?case by simp
qed (auto intro: server_step.dispatcher server_step.returns server_step.signal_arrives)

lemma whole_run_server:
  "(whole_step clients U dir res sock N)\<^sup>*\<^sup>* w w' \<Longrightarrow> (server_step sock N)\<^sup>*\<^sup>* (sv w) (sv w')"
proof (induction rule: rtranclp_induct)
  case (step w' w'')
  with whole_step_server [OF step(2)] show ?case by (auto intro: rtranclp.rtrancl_into_rtrancl)
qed simp

text \<open>Where a worker stands, in its loop and in its handler.\<close>

definition worker_ok :: "wpc \<Rightarrow> client option \<Rightarrow> jpc \<Rightarrow> bool" where
  "worker_ok c d j \<longleftrightarrow> (d \<noteq> None \<or> j \<noteq> JIdle \<longrightarrow> (\<exists>fd. c = WRun fd)) \<and> (d \<noteq> None \<longrightarrow> j = JIdle)"

text \<open>The request of a worker whose audit line is still to come.\<close>

fun unaudited :: "jpc \<Rightarrow> job multiset" where
  "unaudited (JUnlock j) = {#}"
| "unaudited c = (case pc_any c of None \<Rightarrow> {#} | Some j \<Rightarrow> {#j#})"

lemma unaudited_start: "unaudited (start_pc j) = {#j#}"
  by (cases j) (simp_all add: pc_any_def)

definition asked_of :: "client option \<Rightarrow> job multiset" where
  "asked_of d = (case Option.bind d request_of of None \<Rightarrow> {#} | Some j \<Rightarrow> {#j#})"

definition open_jobs :: "nat \<Rightarrow> whole_sys \<Rightarrow> job multiset" where
  "open_jobs N w = (\<Sum>t\<in>{..<N}. asked_of (todo w t)) + (\<Sum>t\<in>{..<N}. unaudited (jpcs (lin w) t))"

text \<open>What one part gives up the other part gains.\<close>

lemma exchange:
  fixes A :: "'a multiset"
  assumes "A' + c = A + p" and "B' + p = B + c"
  shows "A' + B' = A + B"
proof (rule multiset_eqI)
  fix x
  show "count (A' + B') x = count (A + B) x"
    using assms [THEN arg_cong [of _ _ "\<lambda>M. count M x"]] by simp
qed

lemma todo_upd: "t < (N :: nat) \<Longrightarrow> (\<Sum>x\<in>{..<N}. asked_of ((d(t := y)) x)) + asked_of (d t) =
    (\<Sum>x\<in>{..<N}. asked_of (d x)) + asked_of y"
  by (rule sum_fun_upd) auto

lemma unaudited_upd: "t < (N :: nat) \<Longrightarrow> (\<Sum>x\<in>{..<N}. unaudited ((p(t := c)) x)) + unaudited (p t) =
    (\<Sum>x\<in>{..<N}. unaudited (p x)) + unaudited c"
  by (rule sum_fun_upd) auto

definition audited_jobs :: "lin_sys \<Rightarrow> job multiset" where
  "audited_jobs l = mset (map fst (audits l))"

text \<open>A step of a handler is one worker's, and moves its request to the log or keeps it.\<close>

definition job_kept :: "lin_sys \<Rightarrow> lin_sys \<Rightarrow> bool" where
  "job_kept l l' \<longleftrightarrow> (\<exists>t c. jpcs l t \<noteq> JIdle \<and> jpcs l' = (jpcs l)(t := c)
     \<and> audited_jobs l' + unaudited c = audited_jobs l + unaudited (jpcs l t))"

lemma job_keptI:
  assumes "jpcs l t \<noteq> JIdle" and "jpcs l\<^sub>1 = jpcs l"
    and "audited_jobs l\<^sub>1 + unaudited c = audited_jobs l + unaudited (jpcs l t)"
  shows "job_kept l (move t c l\<^sub>1)"
  unfolding job_kept_def using assms
  by (intro exI [of _ t] exI [of _ c]) (simp add: move_def audited_jobs_def)

lemmas kept_simps = audited_jobs_def pc_any_def

lemma frame_step_kept:
  "frame_step U dir failing l l' \<Longrightarrow> \<forall>t. jpcs l t = JIdle \<longrightarrow> jpcs l' t = JIdle \<Longrightarrow> job_kept l l'"
proof (induction rule: frame_step.induct)
  case (arrive l t j)
  moreover have "start_pc j \<noteq> JIdle" by (cases j) simp_all
  ultimately show ?case by (auto simp: move_def)
qed (rule job_keptI; simp add: kept_simps)+

lemma get_step_kept: "get_step res failing l l' \<Longrightarrow> job_kept l l'"
  by (induction rule: get_step.induct) (rule job_keptI; simp add: kept_simps)+

lemma put_step_kept: "put_step res failing l l' \<Longrightarrow> job_kept l l'"
  by (induction rule: put_step.induct) (rule job_keptI; simp add: kept_simps)+

lemma handler_moves:
  "lin_step U dir res l l' \<Longrightarrow> \<forall>t. jpcs l t = JIdle \<longrightarrow> jpcs l' t = JIdle \<Longrightarrow> job_kept l l'"
  using frame_step_kept get_step_kept put_step_kept unfolding lin_step_def lin_move_def by blast

section \<open>The invariant\<close>

text \<open>The clients ask for files by URIs in \<open>U\<close>, and none declares a length for which C leaves the
  arithmetic of \<open>conn_recv_file\<close> undefined.\<close>

definition length_defined :: "client \<Rightarrow> bool" where
  "length_defined cl = (case parsed cl of None \<Rightarrow> True
     | Some (r, c) \<Rightarrow> in_ssize (content_length c - int (length (buffered c))))"

definition asks_in :: "(nat \<Rightarrow> client) \<Rightarrow> bytes set \<Rightarrow> bool" where
  "asks_in clients U \<longleftrightarrow> (\<forall>n. length_defined (clients n)
     \<and> (\<forall>j. request_of (clients n) = Some j \<longrightarrow> job_in U j))"

text \<open>The requests of the first \<open>n\<close> accepted connections.\<close>

definition requests_of :: "(nat \<Rightarrow> client) \<Rightarrow> nat \<Rightarrow> job multiset" where
  "requests_of clients n = mset (List.map_filter (\<lambda>i. request_of (clients i)) [0..<n])"

lemma requests_of_Suc: "requests_of clients (Suc n) = requests_of clients n + asked_of (Some (clients n))"
  by (simp add: requests_of_def asked_of_def List.map_filter_def split: option.splits)

definition whole_inv :: "(nat \<Rightarrow> client) \<Rightarrow> bytes set \<Rightarrow> bytes \<Rightarrow> (bytes \<Rightarrow> bytes)
    \<Rightarrow> (bytes \<Rightarrow> fnode option) \<Rightarrow> nat \<Rightarrow> whole_sys \<Rightarrow> bool" where
  "whole_inv clients U dir res fs N w \<longleftrightarrow> asks_in clients U \<and> lin_inv U dir res fs (lin w)
     \<and> (\<forall>t. worker_ok (wpcs (sv_pool (sv w)) t) (todo w t) (jpcs (lin w) t))
     \<and> (\<forall>t cl j. todo w t = Some cl \<and> request_of cl = Some j \<longrightarrow> job_in U j)
     \<and> (\<forall>t. N \<le> t \<longrightarrow> wpcs (sv_pool (sv w)) t = WPop)
     \<and> audited_jobs (lin w) + open_jobs N w = requests_of clients (length (started (sv_pool (sv w))))"

text \<open>Steps that leave the workers and their handlers alone.\<close>

lemma whole_inv_server:
  "whole_inv clients U dir res fs N w \<Longrightarrow> wpcs (sv_pool s) = wpcs (sv_pool (sv w)) \<Longrightarrow>
     started (sv_pool s) = started (sv_pool (sv w)) \<Longrightarrow> whole_inv clients U dir res fs N (w\<lparr>sv := s\<rparr>)"
  by (simp add: whole_inv_def open_jobs_def)

lemma main_step_workers:
  "main_step sock s s' \<Longrightarrow> wpcs (sv_pool s') = wpcs (sv_pool s) \<and> started (sv_pool s') = started (sv_pool s)"
  by (induction rule: main_step.induct) simp_all

lemma deliver_pool: "sv_pool (deliver sig s) = sv_pool s"
  by (simp add: deliver_def split: disposition.splits)

lemma takes_inv:
  assumes inv: "whole_inv clients U dir res fs N w" and t: "t < N" "wpcs (sv_pool (sv w)) t = WPop"
  shows "whole_inv clients U dir res fs N (w\<lparr>sv := (sv w)\<lparr>sv_pool := (sv_pool (sv w))\<lparr>pq := q,
        wpcs := (wpcs (sv_pool (sv w)))(t := WRun fd),
        started := started (sv_pool (sv w)) @ [fd]\<rparr>\<rparr>,
      todo := (todo w)(t \<mapsto> clients (length (started (sv_pool (sv w)))))\<rparr>)"
proof -
  have "worker_ok WPop (todo w t) (jpcs (lin w) t)"
    using inv t(2) unfolding whole_inv_def by metis
  then have "todo w t = None" "jpcs (lin w) t = JIdle" by (auto simp: worker_ok_def)
  with inv t todo_upd [OF t(1), of "todo w" "Some (clients (length (started (sv_pool (sv w)))))"] show ?thesis
    by (auto simp: whole_inv_def worker_ok_def asks_in_def open_jobs_def requests_of_Suc
        asked_of_def [of None] simp flip: add.assoc)
qed

lemma parses_inv:
  assumes inv: "whole_inv clients U dir res fs N w" and t: "t < N" "todo w t = Some cl"
    and j: "request_of cl = Some j"
  shows "whole_inv clients U dir res fs N
    (w\<lparr>lin := move t (start_pc j) (lin w), todo := (todo w)(t := None)\<rparr>)"
proof -
  have idle: "jpcs (lin w) t = JIdle" and uri: "job_in U j"
    and ok: "\<exists>fd. wpcs (sv_pool (sv w)) t = WRun fd"
    using inv t j by (auto simp: whole_inv_def worker_ok_def)
  have "lin_step U dir res (lin w) (move t (start_pc j) (lin w))"
    by (rule lin_stepI(1) [OF frame_step.arrive [OF idle uri]])
  then have "lin_inv U dir res fs (move t (start_pc j) (lin w))"
    using inv connections.step_inv unfolding whole_inv_def by blast
  moreover have "open_jobs N (w\<lparr>lin := move t (start_pc j) (lin w), todo := (todo w)(t := None)\<rparr>)
      = open_jobs N w"
    using exchange [OF todo_upd [OF t(1), of "todo w" None], of "\<Sum>x\<in>{..<N}. unaudited
        (((jpcs (lin w))(t := start_pc j)) x)" "\<Sum>x\<in>{..<N}. unaudited (jpcs (lin w) x)"]
      unaudited_upd [OF t(1), of "jpcs (lin w)" "start_pc j"] t(2) idle j
    by (simp add: open_jobs_def move_def asked_of_def pc_any_def unaudited_start)
  moreover have "worker_ok (wpcs (sv_pool (sv w)) x) (((todo w)(t := None)) x)
      (jpcs (move t (start_pc j) (lin w)) x)" for x
    using inv ok by (auto simp: whole_inv_def worker_ok_def move_def)
  ultimately show ?thesis using inv
    by (auto simp: whole_inv_def audited_jobs_def move_def split: if_splits)
qed

lemma silent_inv:
  assumes inv: "whole_inv clients U dir res fs N w" and t: "t < N" "todo w t = Some cl"
    and "request_of cl = None"
  shows "whole_inv clients U dir res fs N (w\<lparr>todo := (todo w)(t := None)\<rparr>)"
proof -
  have "(\<Sum>x\<in>{..<N}. asked_of (((todo w)(t := None)) x)) = (\<Sum>x\<in>{..<N}. asked_of (todo w x))"
    using todo_upd [OF t(1), of "todo w" None] t(2) assms(4) by (simp add: asked_of_def)
  with inv show ?thesis
    by (auto simp: whole_inv_def worker_ok_def open_jobs_def split: if_splits)
qed

text \<open>Whoever has a request in hand is a worker.\<close>

lemma busy_worker:
  assumes "whole_inv clients U dir res fs N w" and "jpcs (lin w) t \<noteq> JIdle"
  shows "t < N \<and> (\<exists>fd. wpcs (sv_pool (sv w)) t = WRun fd)"
proof -
  have "worker_ok (wpcs (sv_pool (sv w)) t) (todo w t) (jpcs (lin w) t)"
    using assms(1) by (simp add: whole_inv_def)
  with assms(2) obtain fd where "wpcs (sv_pool (sv w)) t = WRun fd" by (auto simp: worker_ok_def)
  moreover have "N \<le> t \<longrightarrow> wpcs (sv_pool (sv w)) t = WPop" using assms(1) unfolding whole_inv_def by blast
  ultimately show ?thesis by (auto simp: not_le [symmetric])
qed

lemma handles_inv:
  assumes inv: "whole_inv clients U dir res fs N w" and step: "lin_step U dir res (lin w) l"
    and idle: "\<forall>t. jpcs (lin w) t = JIdle \<longrightarrow> jpcs l t = JIdle"
  shows "whole_inv clients U dir res fs N (w\<lparr>lin := l\<rparr>)"
proof -
  obtain t c where t: "jpcs (lin w) t \<noteq> JIdle" "jpcs l = (jpcs (lin w))(t := c)"
    "audited_jobs l + unaudited c = audited_jobs (lin w) + unaudited (jpcs (lin w) t)"
    using handler_moves [OF step idle] by (auto simp: job_kept_def)
  have "t < N" using busy_worker [OF inv t(1)] by blast
  from exchange [OF t(3) unaudited_upd [OF this, of "jpcs (lin w)" c]]
  have "audited_jobs l + (\<Sum>x\<in>{..<N}. unaudited (jpcs l x))
      = audited_jobs (lin w) + (\<Sum>x\<in>{..<N}. unaudited (jpcs (lin w) x))"
    unfolding t(2) .
  then have "audited_jobs l + open_jobs N (w\<lparr>lin := l\<rparr>) = audited_jobs (lin w) + open_jobs N w"
    by (simp add: open_jobs_def add.left_commute [of "audited_jobs _"])
  moreover have "lin_inv U dir res fs l"
    using inv step connections.step_inv unfolding whole_inv_def by blast
  moreover have "worker_ok (wpcs (sv_pool (sv w)) x) (todo w x) (jpcs l x)" for x
    using inv idle by (auto simp: whole_inv_def worker_ok_def)
  ultimately show ?thesis using inv
    by (simp add: whole_inv_def)
qed

lemma whole_step_inv:
  "whole_step clients U dir res sock N w w' \<Longrightarrow> whole_inv clients U dir res fs N w \<Longrightarrow>
     whole_inv clients U dir res fs N w'"
proof (induction rule: whole_step.induct)
  case (dispatches w s)
  with main_step_workers [OF dispatches(2)] show ?case by (blast intro: whole_inv_server)
next
  case (returns w t fd)
  then show ?case by (auto simp: whole_inv_def worker_ok_def open_jobs_def)
next
  case (signals w sig)
  then show ?case by (blast intro: whole_inv_server deliver_pool [THEN arg_cong])
qed (blast intro: takes_inv parses_inv silent_inv handles_inv)+

lemma whole_start_inv: "asks_in clients U \<Longrightarrow> whole_inv clients U dir res fs N (whole_start m fs)"
  using connections.init_inv [of fs "lin (whole_start m fs)"]
  by (auto simp: whole_inv_def whole_start_def serving_def worker_ok_def open_jobs_def lin_init_def
      audited_jobs_def requests_of_def List.map_filter_def asked_of_def pc_any_def)

interpretation whole: invariant_system
  "\<lambda>w. asks_in clients U \<and> (\<exists>m. w = whole_start m fs)" "whole_step clients U dir res sock N"
  "whole_inv clients U dir res fs N" for clients U dir res fs sock N
  by unfold_locales (auto intro: whole_start_inv whole_step_inv)

section \<open>From the listening socket to the audit log\<close>

definition quiescent :: "nat \<Rightarrow> whole_sys \<Rightarrow> bool" where
  "quiescent N w \<longleftrightarrow> disp (sv_pool (sv w)) = DRun \<and> queue_items (pq (sv_pool (sv w))) = []
     \<and> (\<forall>t < N. wpcs (sv_pool (sv w)) t = WPop)"

lemma quiescent_idle:
  assumes "whole_inv clients U dir res fs N w" and "quiescent N w"
  shows "todo w t = None" "jpcs (lin w) t = JIdle"
proof -
  have "wpcs (sv_pool (sv w)) t = WPop"
    using assms by (cases "t < N") (auto simp: whole_inv_def quiescent_def)
  moreover have "worker_ok (wpcs (sv_pool (sv w)) t) (todo w t) (jpcs (lin w) t)"
    using assms(1) by (simp add: whole_inv_def)
  ultimately show "todo w t = None" "jpcs (lin w) t = JIdle" by (auto simp: worker_ok_def)
qed

lemma quiescent_open: "whole_inv clients U dir res fs N w \<Longrightarrow> quiescent N w \<Longrightarrow> open_jobs N w = {#}"
  by (simp add: open_jobs_def quiescent_idle asked_of_def pc_any_def)

lemma quiescent_server:
  assumes "server_inv sock N (sv w)" and "quiescent N w"
  shows "conn_fds sock (sv_table (sv w)) = {} \<and> accepted (sv w) = started (sv_pool (sv w))"
proof -
  have "owned N (sv_pool (sv w)) = {#}"
    using assms(2) by (simp add: owned_def quiescent_def in_flight_def)
  with assms show ?thesis
    by (auto simp: server_inv_def quiescent_def pool_inv_def pool_view_def mset_set_empty_iff)
qed

text \<open>
  C1: from the listening socket to the audit log. Take any run of the server that \<open>main\<close> has started,
  with all its threads, signals and handlers interleaved, any of the handlers' calls failing and the
  clients sending any bytes. The hypotheses are that different URIs among the GETs and PUTs name
  different files and that no client declares a length whose arithmetic C leaves undefined. The
  workers take the connections in the order of their acceptance. The requests that \<open>conn_parse\<close>
  reads from the connections they have taken, GETs, PUTs and refused ones, are exactly the audited
  ones and those still in a worker's hands, each once. The audit log, one request at a time from the
  initial files, explains every answer that was sent, the refusals included. The files are those the
  log explains, except where a worker is in the middle of a PUT, so that is all a signal can leave
  unfinished. When the queue is empty and the workers are idle, every accepted connection is closed,
  every request is audited, and the files are exactly the explained ones.
\<close>

theorem whole_server:
  assumes "block_sized env" and "main_init env = Running m" and "N = tp_created (p_pool m)"
    and "asks_in clients U" and "inj_on res U"
    and "(whole_step clients U dir res (p_sock m) N)\<^sup>*\<^sup>* (whole_start m fs) w"
  shows "prefix (started (sv_pool (sv w))) (accepted (sv w))
    \<and> audited_jobs (lin w) + open_jobs N w = requests_of clients (length (started (sv_pool (sv w))))
    \<and> (\<exists>sp. explains res fs (audits (lin w)) sp
         \<and> (no_failures (audits (lin w)) \<longrightarrow> replay res fs (audits (lin w)) = Some sp)
         \<and> (\<forall>p. lfs (lin w) p \<noteq> sp p \<longrightarrow>
              (\<exists>t < N. \<exists>u b. pc_job (jpcs (lin w) t) = Some (Put u b) \<and> res u = p))
         \<and> (quiescent N w \<longrightarrow> lfs (lin w) = sp))
    \<and> (quiescent N w \<longrightarrow> conn_fds (p_sock m) (sv_table (sv w)) = {}
         \<and> audited_jobs (lin w) = requests_of clients (length (accepted (sv w))))"
proof -
  have inv: "whole_inv clients U dir res fs N w"
    using assms(4,6) by (intro whole.reach_inv [of clients U "whole_start m fs" fs]) auto
  have "(server_step (p_sock m) N)\<^sup>*\<^sup>* (serving m) (sv w)"
    using whole_run_server [OF assms(6)] by (simp add: whole_start_def)
  then have sinv: "server_inv (p_sock m) N (sv w)"
    using assms(1-3) by (intro running_server.reach_inv [of "p_sock m" N "serving m"]) auto
  obtain sp where v: "lin_view U dir res fs (lin w) sp"
    using inv assms(5) by (auto simp: whole_inv_def lin_inv_def)
  have "\<exists>t < N. \<exists>u b. pc_job (jpcs (lin w) t) = Some (Put u b) \<and> res u = p"
    if "lfs (lin w) p \<noteq> sp p" for p
    using view_clean [OF v that] busy_worker [OF inv] by (metis option.discI pc_job.simps(1))
  moreover have "lfs (lin w) = sp" if "quiescent N w"
    using view_clean [OF v] quiescent_idle(2) [OF inv that] by auto
  moreover have "prefix (started (sv_pool (sv w))) (accepted (sv w))"
    using sinv by (auto simp: server_inv_def pool_inv_def pool_view_def)
  ultimately show ?thesis
    using inv view_explains [OF v] explains_replay [OF view_explains [OF v]] quiescent_open [OF inv]
      quiescent_server [OF sinv] by (auto simp: whole_inv_def)
qed

section \<open>A sample run\<close>

text \<open>A GET of a file that is not there, from the parser to the unlock.\<close>

lemma handle_missing:
  assumes "sv_end (sv w) = None" and "t < N" and "todo w t = Some cl" and "request_of cl = Some (Get u)"
    and "lin w = \<lparr>lfs = fs, flocks = (\<lambda>_ _. None), jpcs = (\<lambda>_. JIdle), audits = a\<rparr>"
    and "fs (res u) = None"
  shows "(whole_step clients U dir res sock N)\<^sup>*\<^sup>* w
    (w\<lparr>lin := (lin w)\<lparr>audits := a @ [(Get u, RESPONSE_NOT_FOUND, Whole (canned RESPONSE_NOT_FOUND))]\<rparr>,
       todo := (todo w)(t := None)\<rparr>)" (is "?step\<^sup>*\<^sup>* w ?w")
proof -
  let ?lk = "lockfile dir (Get u)"
  let ?locked = "(\<lambda>_ _. None)(?lk := (\<lambda>_. None)(t \<mapsto> LOCK_SH))"
  define at where "at c fl au = \<lparr>sv = sv w, lin = \<lparr>lfs = fs, flocks = fl, jpcs = (\<lambda>_. JIdle)(t := c),
     audits = au\<rparr>, todo = (todo w)(t := None)\<rparr>" for c fl au
  let ?rec = "(Get u, RESPONSE_NOT_FOUND, Whole (canned RESPONSE_NOT_FOUND))"
  have hand: "?step (at c fl au) (at c' fl' au')"
    if "c \<noteq> JIdle" "lin_step U dir res (lin (at c fl au)) (lin (at c' fl' au'))" for c c' fl fl' au au'
    using whole_step.handles [of "at c fl au" U dir res "lin (at c' fl' au')" clients sock N] that assms(1)
    by (simp add: at_def)
  have "?step w (at (JWait (Get u)) (\<lambda>_ _. None) a)"
    using whole_step.parses [OF assms(1-4), of clients U dir res sock]
    by (cases w) (use assms(5) in \<open>simp add: at_def move_def\<close>)
  moreover have "?step (at (JWait (Get u)) (\<lambda>_ _. None) a) (at (JOpenR u) ?locked a)"
    using frame_step.lock_get [of "lin (at (JWait (Get u)) (\<lambda>_ _. None) a)" t u dir U]
    by (intro hand) (simp_all add: lin_stepI(1) at_def move_def may_flock_def)
  moreover have "?step (at (JOpenR u) ?locked a)
      (at (JAudit (Get u) RESPONSE_NOT_FOUND (Whole (canned RESPONSE_NOT_FOUND))) ?locked a)"
    using get_step.open_none [of "lin (at (JOpenR u) ?locked a)" t u res] assms(6)
    by (intro hand) (simp_all add: lin_stepI(2) at_def move_def get_open_error_def)
  moreover have "?step (at (JAudit (Get u) RESPONSE_NOT_FOUND (Whole (canned RESPONSE_NOT_FOUND))) ?locked a)
      (at (JUnlock (Get u)) ?locked (a @ [?rec]))"
    using frame_step.audit [of "lin (at (JAudit (Get u) RESPONSE_NOT_FOUND
        (Whole (canned RESPONSE_NOT_FOUND))) ?locked a)" t "Get u" RESPONSE_NOT_FOUND _ U dir]
    by (intro hand) (simp_all add: lin_stepI(1) at_def move_def)
  moreover have "?step (at (JUnlock (Get u)) ?locked (a @ [?rec])) (at JIdle (\<lambda>_ _. None) (a @ [?rec]))"
    using frame_step.unlock [of "lin (at (JUnlock (Get u)) ?locked (a @ [?rec]))" t "Get u" U dir]
    by (intro hand) (simp_all add: lin_stepI(1) at_def move_def fun_upd_idem)
  ultimately have "?step\<^sup>*\<^sup>* w (at JIdle (\<lambda>_ _. None) (a @ [?rec]))"
    by (meson converse_rtranclp_into_rtranclp rtranclp.rtrancl_refl)
  moreover have "at JIdle (\<lambda>_ _. None) (a @ [?rec]) = ?w"
    by (cases w) (use assms(5) in \<open>simp add: at_def fun_upd_idem\<close>)
  ultimately show ?thesis by simp
qed

text \<open>A client that sends a GET.\<close>

definition sample_client :: client where
  "sample_client = \<lparr>cl_alloc = True, cl_line = True, cl_header = True, cl_in = get_input\<rparr>"

lemma sample_request: "request_of sample_client = Some (Get ''a.txt'')" "length_defined sample_client"
proof -
  obtain c where c: "conn_new True get_input \<lparr>odata = [], osched = []\<rparr> = Some c"
    by (simp add: conn_new_def)
  obtain c' where p: "conn_parse True True c = (None, c')" "conn_wf c'" "0 \<le> content_length c'"
    "conn_get_request c' = REQUEST_GET" "conn_get_uri c' = ''a.txt''"
    using parsed_request [OF get_input_wf _ c] by (auto simp: method_of_def)
  then have "parsed sample_client = Some (None, c')"
    using c by (simp add: parsed_def sample_client_def)
  with p length_buffered [OF p(2)]
  show "request_of sample_client = Some (Get ''a.txt'')" "length_defined sample_client"
    by (auto simp: request_of_def length_defined_def in_ssize_def conn_wf_def CONN_BUFFER_SIZE_def)
qed

text \<open>One client connects to the sample server and asks for a file that is not there.\<close>

lemma sample_served:
  fixes m
  defines "N \<equiv> tp_created (p_pool m)"
    and "go \<equiv> whole_step (\<lambda>_. sample_client) {''a.txt''} ''d'' id (p_sock m)"
  assumes "main_init sample_boot = Running m"
  shows "\<exists>w. (go N)\<^sup>*\<^sup>* (whole_start m (\<lambda>_. None)) w \<and> quiescent N w \<and> accepted (sv w) = [4]"
proof -
  from main_init_cases [OF sample_boot_ok(1)] assms(3)
  have m: "p_sock m = \<lparr>sock_fd = 3\<rparr>" "p_table m 4 = None" "queue_wf (tp_q (p_pool m))"
    "queue_items (tp_q (p_pool m)) = []" "0 < N" "0 < queue_cap (tp_q (p_pool m))"
    by (auto simp: sample_boot_def N_def queue_wf_def queue_cap_def)
  let ?w\<^sub>0 = "whole_start m (\<lambda>_. None)"
  let ?env = "\<lparr>a_accept = 4, a_rcvtimeo = True, a_sndtimeo = True\<rparr>"
  obtain t where a: "listener_accept ?env (p_sock m) (sv_table (sv ?w\<^sub>0)) = (4, t)"
    by (simp add: listener_accept_def Let_def)
  obtain q where push: "push_ret 4 (tp_q (p_pool m)) = Some q"
    using ring.put_blocks [OF m(3), of 4] m(4,6) by fastforce
  from ring.put_get_empty [OF m(3,4) push] obtain q' where
    pop: "pop_ret q = Some (4, q')" "queue_items q' = []" by blast
  define p where "p pc d qu su st fi = \<lparr>pq = qu, wpcs = (\<lambda>_. WPop)(0 := pc), disp = d,
    submitted = su, started = st, finished = fi\<rparr>" for pc d qu su st fi
  define at where "at pl tb lg td = \<lparr>sv = \<lparr>sv_pool = pl, sv_table = tb, sv_signals = p_signals m,
      sv_end = None, accepted = [4]\<rparr>,
    lin = \<lparr>lfs = (\<lambda>_. None), flocks = (\<lambda>_ _. None), jpcs = (\<lambda>_. JIdle), audits = lg\<rparr>,
    todo = (\<lambda>_. None)(0 := td)\<rparr>" for pl tb lg td
  note defs = at_def p_def whole_start_def serving_def
  let ?rec = "(Get ''a.txt'', RESPONSE_NOT_FOUND, Whole (canned RESPONSE_NOT_FOUND))"
  have "go N ?w\<^sub>0 (at (p WPop (DSubmit 4) (tp_q (p_pool m)) [] [] []) t [] None)"
    unfolding go_def using whole_step.dispatches [OF _ main_step.accept_conn [OF _ _ a]] m(2)
    by (simp add: defs fun_upd_idem)
  moreover have "go N (at (p WPop (DSubmit 4) (tp_q (p_pool m)) [] [] []) t [] None)
      (at (p WPop DRun q [4] [] []) t [] None)"
    unfolding go_def using whole_step.dispatches [OF _ main_step.submit_conn,
      of "at (p WPop (DSubmit 4) (tp_q (p_pool m)) [] [] []) t [] None" 4 q] push
    by (simp add: defs)
  moreover have "go N (at (p WPop DRun q [4] [] []) t [] None)
      (at (p (WRun 4) DRun q' [4] [4] []) t [] (Some sample_client))"
    unfolding go_def using whole_step.takes [of "at (p WPop DRun q [4] [] []) t [] None" 0 N 4 q'] pop m(5)
    by (simp add: defs STOP_SENTINEL_def)
  moreover have "(go N)\<^sup>*\<^sup>* (at (p (WRun 4) DRun q' [4] [4] []) t [] (Some sample_client))
      (at (p (WRun 4) DRun q' [4] [4] []) t [?rec] None)"
    unfolding go_def using handle_missing [of "at (p (WRun 4) DRun q' [4] [4] []) t [] (Some sample_client)"
      0 N sample_client "''a.txt''" "\<lambda>_. None" "[]" id] m(5) sample_request(1) by (simp add: defs)
  moreover have "go N (at (p (WRun 4) DRun q' [4] [4] []) t [?rec] None)
      (at (p WPop DRun q' [4] [4] [4]) (close_socket 4 t) [?rec] None)"
    unfolding go_def using whole_step.returns [of "at (p (WRun 4) DRun q' [4] [4] []) t [?rec] None" 0 N 4] m(5)
    by (simp add: defs)
  ultimately have "(go N)\<^sup>*\<^sup>* ?w\<^sub>0 (at (p WPop DRun q' [4] [4] [4]) (close_socket 4 t) [?rec] None)"
    by (meson converse_rtranclp_into_rtranclp rtranclp.rtrancl_into_rtrancl rtranclp_trans)
  moreover have "quiescent N (at (p WPop DRun q' [4] [4] [4]) (close_socket 4 t) [?rec] None)"
    using pop(2) by (simp add: quiescent_def defs)
  ultimately show ?thesis by (intro exI conjI) (assumption, assumption, simp add: at_def)
qed

theorem whole_server_witness:
  "\<exists>(w :: whole_sys). audited_jobs (lin w) = {#Get ''a.txt''#}
     \<and> explains id (\<lambda>_. None) (audits (lin w)) (lfs (lin w))"
proof -
  obtain m where m: "main_init sample_boot = Running m" using sample_running by blast
  from sample_served [OF m] obtain w where w: "(whole_step (\<lambda>_. sample_client) {''a.txt''} ''d'' id
      (p_sock m) (tp_created (p_pool m)))\<^sup>*\<^sup>* (whole_start m (\<lambda>_. None)) w"
    "quiescent (tp_created (p_pool m)) w" "accepted (sv w) = [4]" by blast
  have "asks_in (\<lambda>_. sample_client) {''a.txt''}" by (simp add: asks_in_def sample_request job_in_def)
  note ws = whole_server [OF sample_boot_ok(1) m refl this inj_on_id w(1)]
  have "explains id (\<lambda>_. None) (audits (lin w)) (lfs (lin w))" using ws w(2) by auto
  moreover have "audited_jobs (lin w) = {#Get ''a.txt''#}"
    using ws w(2,3) by (simp add: requests_of_def List.map_filter_def sample_request)
  ultimately show ?thesis by blast
qed

end
