(* ===== verification/Whole_Progress.thy ===== *)
theory Whole_Progress
  imports Whole_Server
begin

text \<open>
  The server never gets stuck and never works for ever. Once no new connection arrives, every run of
  dispatcher, workers and handlers comes to rest: nobody waits for a lockfile or a queue for good, and
  no transfer goes on without end. What is left to do is counted in two numbers, the statements that
  a request still passes through and, inside a transfer, the bytes that it still moves.
\<close>

section \<open>Steps of work\<close>

text \<open>A step other than a new connection, a failed \<open>accept\<close>, a signal or the end of the process.\<close>

definition work_step :: "(nat \<Rightarrow> client) \<Rightarrow> bytes set \<Rightarrow> bytes \<Rightarrow> (bytes \<Rightarrow> bytes)
    \<Rightarrow> Listener_Socket \<Rightarrow> nat \<Rightarrow> whole_sys \<Rightarrow> whole_sys \<Rightarrow> bool" where
  "work_step clients U dir res sock N w w' \<longleftrightarrow> whole_step clients U dir res sock N w w' \<and> w' \<noteq> w
     \<and> accepted (sv w') = accepted (sv w) \<and> sv_end (sv w') = None"

text \<open>A step in which no call of a handler fails for a reason that the file does not decide.\<close>

definition fault_free :: "bytes set \<Rightarrow> bytes \<Rightarrow> (bytes \<Rightarrow> bytes) \<Rightarrow> whole_sys \<Rightarrow> whole_sys \<Rightarrow> bool" where
  "fault_free U dir res w w' \<longleftrightarrow> lin w' = lin w \<or> lin_move U dir res False (lin w) (lin w')"

section \<open>What is left to do\<close>

fun stages :: "jpc \<Rightarrow> nat" where
  "stages (JWait j) = 8"
| "stages (JAccess u b) = 7"
| "stages (JOpenW u b ex) = 6"
| "stages (JTrunc u b ex) = 5"
| "stages (JWrite u b ex wr rest) = 4"
| "stages (JOpenR u) = 6"
| "stages (JStat u) = 5"
| "stages (JRead u n got) = 4"
| "stages (JAudit j st (Whole b)) = 3"
| "stages (JAudit j st (Cut b)) = 2"
| "stages (JRefused j st) = 1"
| "stages (JUnlock j) = 1"
| "stages JIdle = 0"

fun transfer_left :: "jpc \<Rightarrow> nat" where
  "transfer_left (JWrite u b ex wr rest) = length rest"
| "transfer_left (JRead u n got) = n - length got"
| "transfer_left _ = 0"

fun todo_left :: "client option \<Rightarrow> nat" where
  "todo_left None = 0"
| "todo_left (Some cl) = 9"

fun run_left :: "wpc \<Rightarrow> nat" where
  "run_left (WRun fd) = 1"
| "run_left _ = 0"

fun submit_left :: "dpc \<Rightarrow> nat" where
  "submit_left (DSubmit fd) = 1"
| "submit_left _ = 0"

definition stages_left :: "nat \<Rightarrow> whole_sys \<Rightarrow> nat" where
  "stages_left N w = 12 * submit_left (disp (sv_pool (sv w)))
     + 11 * length (queue_items (pq (sv_pool (sv w)))) + tally N run_left (wpcs (sv_pool (sv w)))
     + tally N todo_left (todo w) + tally N stages (jpcs (lin w))"

definition bytes_left :: "nat \<Rightarrow> whole_sys \<Rightarrow> nat" where
  "bytes_left N w = tally N transfer_left (jpcs (lin w))"

definition work_order :: "nat \<Rightarrow> (whole_sys \<times> whole_sys) set" where
  "work_order N = measures [stages_left N, bytes_left N]"

lemma work_orderI:
  "stages_left N w' < stages_left N w
     \<or> stages_left N w' = stages_left N w \<and> bytes_left N w' < bytes_left N w \<Longrightarrow> (w', w) \<in> work_order N"
  by (auto simp: work_order_def)

lemma wf_work_order: "wf (work_order N)"
  by (simp add: work_order_def)

lemma work_order_irrefl: "(w, w) \<notin> work_order N"
  by (simp add: work_order_def)

text \<open>A step of a handler is one worker's and takes it further.\<close>

definition handler_advances :: "lin_sys \<Rightarrow> lin_sys \<Rightarrow> bool" where
  "handler_advances l l' \<longleftrightarrow> (\<exists>t c. jpcs l t \<noteq> JIdle \<and> jpcs l' = (jpcs l)(t := c)
     \<and> (stages c < stages (jpcs l t)
        \<or> stages c = stages (jpcs l t) \<and> transfer_left c < transfer_left (jpcs l t)))"

lemma handler_advancesI:
  assumes "jpcs l t \<noteq> JIdle" and "jpcs l\<^sub>1 = jpcs l"
    and "stages c < stages (jpcs l t)
      \<or> stages c = stages (jpcs l t) \<and> transfer_left c < transfer_left (jpcs l t)"
  shows "handler_advances l (move t c l\<^sub>1)"
  unfolding handler_advances_def using assms
  by (intro exI [of _ t] exI [of _ c]) (simp add: move_def)

lemma stages_start: "stages (start_pc j) \<le> 8"
  by (cases j) simp_all

lemma stages_audit: "stages (JAudit j st reply) \<le> 3" "Suc 0 < stages (JAudit j st reply)"
  by (cases reply; simp)+

lemma frame_step_advances:
  "frame_step U dir failing l l' \<Longrightarrow> \<forall>t. jpcs l t = JIdle \<longrightarrow> jpcs l' t = JIdle \<Longrightarrow> handler_advances l l'"
proof (induction rule: frame_step.induct)
  case (arrive l t j)
  moreover have "start_pc j \<noteq> JIdle" by (cases j) simp_all
  ultimately show ?case by (auto simp: move_def)
qed (rule handler_advancesI; simp add: stages_audit)+

lemma get_step_advances: "get_step res failing l l' \<Longrightarrow> handler_advances l l'"
  by (induction rule: get_step.induct) (rule handler_advancesI; auto)+

lemma put_step_advances: "put_step res failing l l' \<Longrightarrow> handler_advances l l'"
  by (induction rule: put_step.induct) (rule handler_advancesI; simp)+

lemma lin_step_advances:
  "lin_step U dir res l l' \<Longrightarrow> \<forall>t. jpcs l t = JIdle \<longrightarrow> jpcs l' t = JIdle \<Longrightarrow> handler_advances l l'"
  using frame_step_advances get_step_advances put_step_advances unfolding lin_step_def lin_move_def by blast

lemma handler_advances_left:
  assumes "handler_advances (lin w) l" and inv: "whole_inv clients U dir res fs N w"
  shows "(w\<lparr>lin := l\<rparr>, w) \<in> work_order N"
proof -
  obtain t c where t: "jpcs (lin w) t \<noteq> JIdle" "jpcs l = (jpcs (lin w))(t := c)"
    and adv: "stages c < stages (jpcs (lin w) t)
      \<or> stages c = stages (jpcs (lin w) t) \<and> transfer_left c < transfer_left (jpcs (lin w) t)"
    using assms(1) by (auto simp: handler_advances_def)
  have "t < N" using busy_worker [OF inv t(1)] by simp
  then have "tally N stages (jpcs l) + stages (jpcs (lin w) t) = tally N stages (jpcs (lin w)) + stages c"
    "tally N transfer_left (jpcs l) + transfer_left (jpcs (lin w) t) =
      tally N transfer_left (jpcs (lin w)) + transfer_left c"
    unfolding t(2) by (rule tally_upd)+
  with adv show ?thesis by (intro work_orderI) (auto simp: stages_left_def bytes_left_def)
qed

section \<open>Every step of work counts\<close>

text \<open>The dispatcher's only step that accepts nothing and changes something is the end of a submission.\<close>

lemma main_step_left:
  assumes "main_step sock (sv w) s" and "server_inv sock N (sv w)"
    and "w\<lparr>sv := s\<rparr> \<noteq> w" and "accepted s = accepted (sv w)"
  shows "(w\<lparr>sv := s\<rparr>, w) \<in> work_order N"
  using assms
proof (cases rule: main_step.cases)
  case (accept_fail env connfd t)
  then have "t = sv_table (sv w)" using accept_cases [of env sock "sv_table (sv w)" connfd t] by simp
  with accept_fail have "s = sv w" by simp
  then have "w\<lparr>sv := s\<rparr> = w" by (cases w) simp
  with assms(3) show ?thesis by simp
next
  case (submit_conn fd q)
  have "queue_wf (pq (sv_pool (sv w)))"
    using assms(2) by (auto simp: server_inv_def pool_inv_def pool_view_def)
  with submit_conn ring.put_law [of "pq (sv_pool (sv w))" fd q] show ?thesis
    by (intro work_orderI) (simp add: stages_left_def)
qed (use assms(4) in simp)

lemma takes_left:
  assumes "queue_wf (pq p)" and "t < N" and "wpcs p t = WPop" and "pop_ret (pq p) = Some (fd, q)"
    and "sv_pool (sv w) = p" and "todo w t = None"
  shows "(w\<lparr>sv := (sv w)\<lparr>sv_pool := p\<lparr>pq := q, wpcs := (wpcs p)(t := WRun fd),
      started := started p @ [fd]\<rparr>\<rparr>, todo := (todo w)(t \<mapsto> cl)\<rparr>, w) \<in> work_order N"
    (is "(?w', w) \<in> _")
proof -
  have "tally N run_left ((wpcs p)(t := WRun fd)) = tally N run_left (wpcs p) + 1"
    using tally_upd [OF assms(2), of run_left "wpcs p" "WRun fd"] assms(3) by simp
  moreover have "tally N todo_left ((todo w)(t \<mapsto> cl)) = tally N todo_left (todo w) + 9"
    using tally_upd [OF assms(2), of todo_left "todo w" "Some cl"] assms(6) by simp
  moreover have "length (queue_items (pq p)) = Suc (length (queue_items q))"
    using ring.get_law [OF assms(1,4)] by simp
  ultimately have "stages_left N ?w' < stages_left N w"
    using assms(5) by (simp add: stages_left_def)
  then show ?thesis by (blast intro: work_orderI)
qed

lemma work_step_left:
  assumes "work_step clients U dir res sock N w w'" and inv: "whole_inv clients U dir res fs N w"
    and sinv: "server_inv sock N (sv w)"
  shows "(w', w) \<in> work_order N"
proof -
  have wf: "queue_wf (pq (sv_pool (sv w)))"
    using sinv by (auto simp: server_inv_def pool_inv_def pool_view_def)
  have ok: "worker_ok (wpcs (sv_pool (sv w)) t) (todo w t) (jpcs (lin w) t)" for t
    using inv by (simp add: whole_inv_def)
  from assms(1) have step: "whole_step clients U dir res sock N w w'" and "w' \<noteq> w"
    "accepted (sv w') = accepted (sv w)" "sv_end (sv w') = None" by (simp_all add: work_step_def)
  from step this(2-) show ?thesis
  proof (induction rule: whole_step.cases)
    case (dispatches w0 s)
    then show ?case using main_step_left [of sock w0 s N] sinv by auto
  next
    case (takes w0 t fd q)
    then have "todo w t = None" using ok [of t] by (auto simp: worker_ok_def)
    with takes wf show ?case by (auto intro: takes_left)
  next
    case (parses w0 t cl j)
    then have "jpcs (lin w) t = JIdle" using ok [of t] by (auto simp: worker_ok_def)
    with parses tally_upd [OF parses(4), of todo_left "todo w" None]
      tally_upd [OF parses(4), of stages "jpcs (lin w)" "start_pc j"] stages_start [of j] show ?case
      by (intro work_orderI) (simp add: stages_left_def move_def)
  next
    case (silent w0 t cl)
    with tally_upd [OF silent(4), of todo_left "todo w" None] show ?case
      by (intro work_orderI) (simp add: stages_left_def)
  next
    case (handles w0 l)
    then show ?case using handler_advances_left [OF lin_step_advances inv] by auto
  next
    case (returns w0 t fd)
    with tally_upd [OF returns(4), of run_left "wpcs (sv_pool (sv w))" WPop] show ?case
      by (intro work_orderI) (simp add: stages_left_def)
  next
    case (signals w0 sig)
    then show ?case by (auto simp: deliver_def split: disposition.splits)
  qed
qed

section \<open>Somebody can work\<close>

text \<open>A worker that holds its lockfile, or has given up on it, goes on without a failure.\<close>

definition goes_on :: "bytes set \<Rightarrow> bytes \<Rightarrow> (bytes \<Rightarrow> bytes) \<Rightarrow> nat \<Rightarrow> lin_sys \<Rightarrow> bool" where
  "goes_on U dir res t l \<longleftrightarrow> (\<exists>c l\<^sub>1. lin_move U dir res False l (move t c l\<^sub>1) \<and> jpcs l\<^sub>1 = jpcs l)"

lemma goes_onI:
  "frame_step U dir False l (move t c l\<^sub>1) \<Longrightarrow> jpcs l\<^sub>1 = jpcs l \<Longrightarrow> goes_on U dir res t l"
  "get_step res False l (move t c l\<^sub>1) \<Longrightarrow> jpcs l\<^sub>1 = jpcs l \<Longrightarrow> goes_on U dir res t l"
  "put_step res False l (move t c l\<^sub>1) \<Longrightarrow> jpcs l\<^sub>1 = jpcs l \<Longrightarrow> goes_on U dir res t l"
  by (auto simp: goes_on_def lin_move_def)

lemma reader_goes_on:
  assumes t: "jpcs l t = JOpenR u"
  shows "goes_on U dir res t l"
proof -
  consider "lfs l (res u) = None" | d wr where "lfs l (res u) = Some (Regular d False wr)"
    | d wr where "lfs l (res u) = Some Directory \<or> lfs l (res u) = Some (Regular d True wr)"
    by (metis (full_types) fnode.exhaust option.exhaust)
  then show ?thesis
  proof cases
    case 1
    from get_step.open_none [where res = res, OF t 1] show ?thesis by (rule goes_onI(2)) simp
  next
    case 2
    from get_step.open_denied [where res = res, OF t 2] show ?thesis by (rule goes_onI(2)) simp
  next
    case 3
    from get_step.open_file [where res = res, OF t 3] show ?thesis by (rule goes_onI(2)) simp
  qed
qed

lemma stat_goes_on:
  assumes v: "lin_view U dir res fs l sp" and t: "jpcs l t = JStat u"
  shows "goes_on U dir res t l"
proof -
  consider "lfs l (res u) = Some Directory" | d rd wr where "lfs l (res u) = Some (Regular d rd wr)"
    using view_ok [OF v, of t "Get u"] t by auto
  then show ?thesis
  proof cases
    case 1
    from get_step.stat_dir [where res = res, OF t 1] show ?thesis by (rule goes_onI(2)) simp
  next
    case 2
    from get_step.stat_file [where res = res, OF t 2] show ?thesis by (rule goes_onI(2)) simp
  qed
qed

lemma transfer_goes_on:
  assumes v: "lin_view U dir res fs l sp" and t: "jpcs l t = JRead u n got"
  shows "goes_on U dir res t l"
proof -
  obtain d wr where d: "lfs l (res u) = Some (Regular d True wr)" "n = length d" "prefix got d"
    using view_ok [OF v, of t "Get u"] t by auto
  show ?thesis
  proof (cases "length got = n")
    case True
    show ?thesis
      by (rule goes_onI(2) [OF get_step.read_end [where t = t, OF t]]) (simp_all add: True)
  next
    case False
    with d(2,3) have "length got + 1 \<le> n" by (auto dest: prefix_length_le)
    with d show ?thesis
      by (intro goes_onI(2) [OF get_step.read_chunk [where t = t and k = 1, OF t]])
        (simp_all add: content_def)
  qed
qed

lemma writer_goes_on:
  assumes t: "jpcs l t = JOpenW u b ex"
  shows "goes_on U dir res t l"
proof -
  consider "lfs l (res u) = None" | d rd where "lfs l (res u) = Some (Regular d rd True)"
    | "lfs l (res u) = Some Directory" | d rd where "lfs l (res u) = Some (Regular d rd False)"
    by (metis (full_types) fnode.exhaust option.exhaust)
  then show ?thesis
  proof cases
    case 1
    from put_step.create [where res = res, OF t 1] show ?thesis by (rule goes_onI(3)) simp
  next
    case 2
    from put_step.open_write [where res = res, OF t 2] show ?thesis by (rule goes_onI(3)) simp
  next
    case 3
    from put_step.open_directory [where res = res, OF t 3] show ?thesis by (rule goes_onI(3)) simp
  next
    case 4
    from put_step.denied [where res = res, OF t 4] show ?thesis by (rule goes_onI(3)) simp
  qed
qed

lemma body_goes_on:
  assumes "jpcs l t = JWrite u b ex wr rest"
  shows "goes_on U dir res t l"
proof (cases rest)
  case Nil
  from put_step.written [OF assms [unfolded Nil]] show ?thesis by (rule goes_onI(3)) simp
next
  case (Cons c rest')
  from put_step.write_byte [OF assms [unfolded Cons]] show ?thesis by (rule goes_onI(3)) simp
qed

lemma holder_goes_on:
  assumes v: "lin_view U dir res fs l sp" and "jpcs l t \<noteq> JIdle" and "\<forall>j. jpcs l t \<noteq> JWait j"
  shows "goes_on U dir res t l"
proof (cases "jpcs l t")
  case (JAccess u b)
  from put_step.exists [OF JAccess] show ?thesis by (rule goes_onI(3)) simp
next
  case (JTrunc u b ex)
  from put_step.truncate [OF JTrunc] show ?thesis by (rule goes_onI(3)) simp
next
  case (JAudit j st reply)
  from frame_step.audit [OF JAudit] show ?thesis by (rule goes_onI(1)) simp
next
  case (JRefused j st)
  from frame_step.audit_refused [OF JRefused] show ?thesis by (rule goes_onI(1)) simp
next
  case (JUnlock j)
  from frame_step.unlock [OF JUnlock] show ?thesis by (rule goes_onI(1)) simp
qed (use assms in \<open>simp_all add: reader_goes_on stat_goes_on transfer_goes_on writer_goes_on body_goes_on\<close>)

text \<open>Whoever waits for a lockfile gets it when nobody holds one.\<close>

lemma waiter_goes_on:
  assumes v: "lin_view U dir res fs l sp" and t: "jpcs l t = JWait j"
    and free: "\<forall>t. pc_job (jpcs l t) = None"
  shows "goes_on U dir res t l"
proof -
  have "flocks l path x = None" for path x using view_locks [OF v] free by (simp add: lock_of_def)
  then have may: "may_flock op (flocks l path)" for op path by (cases op) (simp_all add: may_flock_def)
  show ?thesis
  proof (cases j)
    case (Get u)
    from frame_step.lock_get [OF t [unfolded Get] may] show ?thesis by (rule goes_onI(1)) simp
  next
    case (Put u b)
    from frame_step.lock_put [OF t [unfolded Put] may] show ?thesis by (rule goes_onI(1)) simp
  next
    case (Refuse m u r)
    with view_in [OF v, of t] t show ?thesis by simp
  qed
qed

lemma somebody_goes_on:
  assumes v: "lin_view U dir res fs l sp" and "jpcs l t \<noteq> JIdle"
  shows "\<exists>t. jpcs l t \<noteq> JIdle \<and> goes_on U dir res t l"
proof (cases "\<exists>t. pc_job (jpcs l t) \<noteq> None")
  case True
  then obtain x where "pc_job (jpcs l x) \<noteq> None" by blast
  then have "jpcs l x \<noteq> JIdle" "\<forall>j. jpcs l x \<noteq> JWait j" by auto
  with holder_goes_on [OF v] show ?thesis by blast
next
  case False
  with assms waiter_goes_on [OF v, of t] holder_goes_on [OF v, of t] show ?thesis by blast
qed

text \<open>The kinds of work, from the handlers back to the dispatcher.\<close>

definition can_work :: "(nat \<Rightarrow> client) \<Rightarrow> bytes set \<Rightarrow> bytes \<Rightarrow> (bytes \<Rightarrow> bytes)
    \<Rightarrow> Listener_Socket \<Rightarrow> nat \<Rightarrow> whole_sys \<Rightarrow> bool" where
  "can_work clients U dir res sock N w \<longleftrightarrow> (\<exists>w'. work_step clients U dir res sock N w w' \<and> fault_free U dir res w w')"

lemma can_workI:
  "whole_step clients U dir res sock N w w' \<Longrightarrow> w' \<noteq> w \<Longrightarrow> accepted (sv w') = accepted (sv w) \<Longrightarrow>
     sv_end (sv w') = None \<Longrightarrow> fault_free U dir res w w' \<Longrightarrow> can_work clients U dir res sock N w"
  by (auto simp: can_work_def work_step_def)

lemma handler_works:
  assumes inv: "whole_inv clients U dir res fs N w" and inj: "inj_on res U" and alive: "sv_end (sv w) = None"
    and "jpcs (lin w) t \<noteq> JIdle"
  shows "can_work clients U dir res sock N w"
proof -
  obtain sp where v: "lin_view U dir res fs (lin w) sp"
    using inv inj by (auto simp: whole_inv_def lin_inv_def)
  from somebody_goes_on [OF v assms(4)] obtain x c l where x: "jpcs (lin w) x \<noteq> JIdle"
    and calm: "lin_move U dir res False (lin w) (move x c l)" and l: "jpcs l = jpcs (lin w)"
    by (auto simp: goes_on_def)
  then have step: "lin_step U dir res (lin w) (move x c l)" by (auto simp: lin_step_def)
  have idle: "\<forall>t. jpcs (lin w) t = JIdle \<longrightarrow> jpcs (move x c l) t = JIdle"
    using x l by (auto simp: move_def)
  have "(w\<lparr>lin := move x c l\<rparr>, w) \<in> work_order N"
    using handler_advances_left [OF lin_step_advances [OF step idle] inv] .
  with work_order_irrefl have "w\<lparr>lin := move x c l\<rparr> \<noteq> w" by metis
  then show ?thesis
    by (rule can_workI [OF whole_step.handles [OF alive step idle]])
      (use alive calm in \<open>simp_all add: fault_free_def\<close>)
qed

lemma parser_works:
  assumes inv: "whole_inv clients U dir res fs N w" and alive: "sv_end (sv w) = None"
    and t: "t < N" "todo w t = Some cl"
  shows "can_work clients U dir res sock N w"
proof -
  have "todo (w'\<lparr>todo := (todo w)(t := None)\<rparr>) \<noteq> todo w" for w' :: whole_sys
    using t(2) by (auto dest: fun_cong [of _ _ t])
  then have new: "w'\<lparr>todo := (todo w)(t := None)\<rparr> \<noteq> w" for w' by metis
  show ?thesis
  proof (cases "request_of cl")
    case None
    show ?thesis
      by (rule can_workI [OF whole_step.silent [OF alive t None] new])
        (use alive in \<open>simp_all add: fault_free_def\<close>)
  next
    case (Some j)
    have "jpcs (lin w) t = JIdle" "job_in U j"
      using inv t Some by (auto simp: whole_inv_def worker_ok_def)
    from frame_step.arrive [OF this] show ?thesis
      by (intro can_workI [OF whole_step.parses [OF alive t Some] new])
        (use alive in \<open>simp_all add: fault_free_def lin_move_def\<close>)
  qed
qed

lemma returning_works:
  assumes "sv_end (sv w) = None" and "t < N" and run: "wpcs (sv_pool (sv w)) t = WRun fd"
    and "todo w t = None" and "jpcs (lin w) t = JIdle"
  shows "can_work clients U dir res sock N w"
proof -
  let ?w = "w\<lparr>sv := (sv w)\<lparr>sv_table := close_socket fd (sv_table (sv w)),
      sv_pool := (sv_pool (sv w))\<lparr>wpcs := (wpcs (sv_pool (sv w)))(t := WPop),
                             finished := finished (sv_pool (sv w)) @ [fd]\<rparr>\<rparr>\<rparr>"
  have "wpcs (sv_pool (sv ?w)) t \<noteq> wpcs (sv_pool (sv w)) t" using run by simp
  then have "?w \<noteq> w" by metis
  then show ?thesis
    by (rule can_workI [OF whole_step.returns [OF assms]])
      (use assms(1) in \<open>auto simp: fault_free_def\<close>)
qed

lemma queue_works:
  assumes inv: "whole_inv clients U dir res fs N w" and sinv: "server_inv sock N (sv w)"
    and alive: "sv_end (sv w) = None" and t: "t < N" "wpcs (sv_pool (sv w)) t = WPop"
    and "queue_items (pq (sv_pool (sv w))) \<noteq> []"
  shows "can_work clients U dir res sock N w"
proof -
  let ?p = "sv_pool (sv w)"
  from sinv obtain fds k where v: "pool_view N ?p fds k" by (auto simp: server_inv_def pool_inv_def)
  have "disp ?p = DRun \<or> (\<exists>fd. disp ?p = DSubmit fd)" using sinv by (simp add: server_inv_def)
  with v have items: "queue_items (pq ?p) = fds" "queue_wf (pq ?p)" "\<forall>fd \<in> set fds. 0 \<le> fd"
    by (auto simp: pool_view_def)
  with assms(6) ring.get_blocks [OF items(2)] obtain fd q where pop: "pop_ret (pq ?p) = Some (fd, q)"
    by fastforce
  with ring.get_law [OF items(2) pop] items(1,3) have "fd \<noteq> STOP_SENTINEL"
    by (auto simp: STOP_SENTINEL_def)
  note step = whole_step.takes [OF alive t pop this]
  have "worker_ok (wpcs ?p t) (todo w t) (jpcs (lin w) t)" using inv by (simp add: whole_inv_def)
  then have "todo w t = None" using t(2) by (auto simp: worker_ok_def)
  from takes_left [OF items(2) t pop refl this, of "clients (length (started ?p))"] work_order_irrefl
  have "w\<lparr>sv := (sv w)\<lparr>sv_pool := ?p\<lparr>pq := q, wpcs := (wpcs ?p)(t := WRun fd),
      started := started ?p @ [fd]\<rparr>\<rparr>, todo := (todo w)(t \<mapsto> clients (length (started ?p)))\<rparr> \<noteq> w" by metis
  then show ?thesis
    by (rule can_workI [OF step]) (use alive in \<open>auto simp: fault_free_def\<close>)
qed

lemma submission_works:
  assumes sinv: "server_inv sock N (sv w)" and alive: "sv_end (sv w) = None"
    and d: "disp (sv_pool (sv w)) = DSubmit fd" and "queue_items (pq (sv_pool (sv w))) = []"
  shows "can_work clients U dir res sock N w"
proof -
  let ?p = "sv_pool (sv w)"
  have wf: "queue_wf (pq ?p)" using sinv by (auto simp: server_inv_def pool_inv_def pool_view_def)
  then have "0 < queue_cap (pq ?p)" by (simp add: queue_wf_def queue_cap_def)
  with ring.put_blocks [OF wf, of fd] assms(4) obtain q where push: "push_ret fd (pq ?p) = Some q"
    by fastforce
  let ?w = "w\<lparr>sv := (sv w)\<lparr>sv_pool := ?p\<lparr>disp := DRun, pq := q, submitted := submitted ?p @ [fd]\<rparr>\<rparr>\<rparr>"
  have "disp (sv_pool (sv ?w)) \<noteq> disp (sv_pool (sv w))" using d by simp
  then have "?w \<noteq> w" by metis
  then show ?thesis
    by (rule can_workI [OF whole_step.dispatches [OF alive main_step.submit_conn [OF d push]]])
      (use alive in \<open>auto simp: fault_free_def\<close>)
qed

lemma no_worker_left:
  assumes "server_inv sock N (sv w)" and "t < N"
  shows "wpcs (sv_pool (sv w)) t \<noteq> WDone"
proof
  assume "wpcs (sv_pool (sv w)) t = WDone"
  moreover from assms(1) have "tally N is_done (wpcs (sv_pool (sv w))) = 0"
    by (auto simp: server_inv_def pool_inv_def pool_view_def)
  ultimately show False using assms(2) by (auto simp: tally_zero dest: spec [of _ t])
qed

lemma work_enabled:
  assumes inv: "whole_inv clients U dir res fs N w" and sinv: "server_inv sock N (sv w)"
    and inj: "inj_on res U" and alive: "sv_end (sv w) = None" and N: "0 < N" and "\<not> quiescent N w"
  shows "can_work clients U dir res sock N w"
proof (cases "(\<exists>t. jpcs (lin w) t \<noteq> JIdle) \<or> (\<exists>t < N. todo w t \<noteq> None)")
  case True
  with handler_works [OF inv inj alive] parser_works [OF inv alive] show ?thesis by blast
next
  case False
  show ?thesis
  proof (cases "\<exists>t < N. \<exists>fd. wpcs (sv_pool (sv w)) t = WRun fd")
    case True
    with False returning_works [OF alive] show ?thesis by blast
  next
    case idle: False
    then have pop: "wpcs (sv_pool (sv w)) t = WPop" if "t < N" for t
      using no_worker_left [OF sinv that] that by (cases "wpcs (sv_pool (sv w)) t") auto
    show ?thesis
    proof (cases "queue_items (pq (sv_pool (sv w))) = []")
      case True
      with assms(6) pop obtain fd where "disp (sv_pool (sv w)) = DSubmit fd"
        using sinv by (auto simp: quiescent_def server_inv_def)
      with submission_works [OF sinv alive _ True] show ?thesis by blast
    next
      case False
      with queue_works [OF inv sinv alive N pop [OF N]] show ?thesis by blast
    qed
  qed
qed

section \<open>The server comes to rest\<close>

definition live_inv :: "(nat \<Rightarrow> client) \<Rightarrow> bytes set \<Rightarrow> bytes \<Rightarrow> (bytes \<Rightarrow> bytes)
    \<Rightarrow> (bytes \<Rightarrow> fnode option) \<Rightarrow> Listener_Socket \<Rightarrow> nat \<Rightarrow> whole_sys \<Rightarrow> bool" where
  "live_inv clients U dir res fs sock N w \<longleftrightarrow> whole_inv clients U dir res fs N w \<and> server_inv sock N (sv w)
     \<and> inj_on res U \<and> 0 < N \<and> sv_end (sv w) = None"

lemma live_inv_step:
  assumes "work_step clients U dir res sock N w w'" and "live_inv clients U dir res fs sock N w"
  shows "live_inv clients U dir res fs sock N w'"
proof -
  have step: "whole_step clients U dir res sock N w w'" using assms(1) by (simp add: work_step_def)
  have "server_inv sock N (sv w')"
    using whole_step_server [OF step] assms(2) server_step_inv by (auto simp: live_inv_def)
  with assms whole_step_inv [OF step] show ?thesis by (simp add: live_inv_def work_step_def)
qed

interpretation working: settling_system
  "live_inv clients U dir res fs sock N" "work_step clients U dir res sock N" "live_inv clients U dir res fs sock N"
  "work_order N" "fault_free U dir res" "quiescent N" for clients U dir res fs sock N
proof
  show "wf (work_order N)" by (rule wf_work_order)
  show "(w', w) \<in> work_order N"
    if "work_step clients U dir res sock N w w'" "live_inv clients U dir res fs sock N w" for w w'
    using work_step_left that by (auto simp: live_inv_def)
  show "\<exists>w'. work_step clients U dir res sock N w w' \<and> fault_free U dir res w w'"
    if "live_inv clients U dir res fs sock N w" "\<not> quiescent N w" for w
    using work_enabled [of clients U dir res fs N w sock] that by (auto simp: live_inv_def can_work_def)
qed (auto intro: live_inv_step)

lemma running_threads: "block_sized env \<Longrightarrow> main_init env = Running m \<Longrightarrow> 0 < tp_created (p_pool m)"
  using main_init_cases [of env] opt_parse_accepts(1)
  by (fastforce simp: boot_ok_def threads_ok_def)

lemma started_live:
  assumes "block_sized env" and "main_init env = Running m" and "N = tp_created (p_pool m)"
    and "asks_in clients U" and "inj_on res U"
    and "(whole_step clients U dir res (p_sock m) N)\<^sup>*\<^sup>* (whole_start m fs) w" and "sv_end (sv w) = None"
  shows "live_inv clients U dir res fs (p_sock m) N w"
proof -
  have "whole_inv clients U dir res fs N w"
    using assms(4,6) by (intro whole.reach_inv [of clients U "whole_start m fs" fs]) auto
  moreover have "(server_step (p_sock m) N)\<^sup>*\<^sup>* (serving m) (sv w)"
    using whole_run_server [OF assms(6)] by (simp add: whole_start_def)
  then have "server_inv (p_sock m) N (sv w)"
    using assms(1-3) by (intro running_server.reach_inv [of "p_sock m" N "serving m"]) auto
  ultimately show ?thesis
    using assms(3,5,7) running_threads [OF assms(1,2)] by (simp add: live_inv_def)
qed

text \<open>What holds at rest: no connection is open, every accepted one has been handled, and every request
  is audited.\<close>

lemma live_at_rest:
  assumes "live_inv clients U dir res fs sock N w" and "quiescent N w"
  shows "conn_fds sock (sv_table (sv w)) = {} \<and> mset (finished (sv_pool (sv w))) = mset (accepted (sv w))
    \<and> audited_jobs (lin w) = requests_of clients (length (accepted (sv w)))"
proof -
  have inv: "whole_inv clients U dir res fs N w" and sinv: "server_inv sock N (sv w)"
    using assms(1) by (simp_all add: live_inv_def)
  from sinv obtain fds k where "pool_view N (sv_pool (sv w)) fds k"
    by (auto simp: server_inv_def pool_inv_def)
  then have "mset (started (sv_pool (sv w))) = mset (finished (sv_pool (sv w)))"
    using assms(2) by (simp add: pool_view_def quiescent_def in_flight_def)
  moreover have "audited_jobs (lin w) + open_jobs N w
      = requests_of clients (length (started (sv_pool (sv w))))"
    using inv by (simp add: whole_inv_def)
  ultimately show ?thesis
    using quiescent_server [OF sinv assms(2)] quiescent_open [OF inv assms(2)] by simp
qed

lemma work_keeps:
  "(\<lambda>v v'. work_step clients U dir res sock N v v' \<and> fault_free U dir res v v')\<^sup>*\<^sup>* w w' \<Longrightarrow>
     live_inv clients U dir res fs sock N w \<Longrightarrow>
     live_inv clients U dir res fs sock N w' \<and> accepted (sv w') = accepted (sv w)"
proof (induction rule: rtranclp_induct)
  case (step y z)
  then show ?case using live_inv_step [of clients U dir res sock N y z fs] by (simp add: work_step_def)
qed simp

text \<open>
  C2: the server serves whom it has accepted. In every state that the running server can reach, as
  long as different URIs among the GETs and PUTs name different files and no client declares a
  length whose arithmetic C leaves undefined: without new connections it cannot work for ever,
  whatever the schedule and whichever calls fail; while an accepted connection is not dealt with,
  some thread can go on without any call failing, so that there is no deadlock between the queue,
  the lockfiles and the workers; and such steps lead to a state of rest in which nothing new was
  accepted, no connection is open, every accepted connection has been through a worker that closed
  it, and every request that the clients made is in the audit log.
\<close>

theorem whole_server_settles:
  assumes "block_sized env" and "main_init env = Running m" and "N = tp_created (p_pool m)"
    and "asks_in clients U" and "inj_on res U"
    and "(whole_step clients U dir res (p_sock m) N)\<^sup>*\<^sup>* (whole_start m fs) w" and "sv_end (sv w) = None"
  shows "(\<nexists>run. run 0 = w \<and> (\<forall>i. work_step clients U dir res (p_sock m) N (run i) (run (Suc i))))
    \<and> (\<not> quiescent N w \<longrightarrow>
         (\<exists>w'. work_step clients U dir res (p_sock m) N w w' \<and> fault_free U dir res w w'))
    \<and> (\<exists>w'. (\<lambda>v v'. work_step clients U dir res (p_sock m) N v v' \<and> fault_free U dir res v v')\<^sup>*\<^sup>* w w'
         \<and> quiescent N w' \<and> accepted (sv w') = accepted (sv w)
         \<and> conn_fds (p_sock m) (sv_table (sv w')) = {}
         \<and> mset (finished (sv_pool (sv w'))) = mset (accepted (sv w))
         \<and> audited_jobs (lin w') = requests_of clients (length (accepted (sv w))))"
proof -
  have live: "live_inv clients U dir res fs (p_sock m) N w" using assms by (rule started_live)
  obtain w' where w': "(\<lambda>v v'. work_step clients U dir res (p_sock m) N v v'
      \<and> fault_free U dir res v v')\<^sup>*\<^sup>* w w'" "quiescent N w'"
    using working.comes_to_rest [OF live] by blast
  from work_keeps [OF w'(1) live] have "live_inv clients U dir res fs (p_sock m) N w'"
    and acc: "accepted (sv w') = accepted (sv w)" by simp_all
  from live_at_rest [OF this(1) w'(2)] w' acc show ?thesis
    using working.no_endless_run [OF live] working.enabled [OF live] by auto
qed

text \<open>The sample server, with a connection accepted and not yet submitted.\<close>

lemma sample_accepted:
  assumes "main_init sample_boot = Running m"
  shows "\<exists>w. whole_step clients U dir res (p_sock m) N (whole_start m fs) w \<and> accepted (sv w) = [4]
    \<and> disp (sv_pool (sv w)) = DSubmit 4 \<and> sv_end (sv w) = None"
proof -
  let ?w = "whole_start m fs" and ?env = "\<lparr>a_accept = 4, a_rcvtimeo = True, a_sndtimeo = True\<rparr>"
  have free: "p_table m 4 = None"
    using main_init_cases [OF sample_boot_ok(1)] assms by (auto simp: sample_boot_def)
  obtain t where a: "listener_accept ?env (p_sock m) (sv_table (sv ?w)) = (4, t)"
    by (simp add: listener_accept_def Let_def)
  have "whole_step clients U dir res (p_sock m) N ?w (?w\<lparr>sv := (sv ?w)\<lparr>sv_table := t,
      accepted := accepted (sv ?w) @ [4], sv_pool := (sv_pool (sv ?w))\<lparr>disp := DSubmit 4\<rparr>\<rparr>\<rparr>)"
    by (rule whole_step.dispatches [OF _ main_step.accept_conn [OF _ _ a]])
      (use free in \<open>simp_all add: whole_start_def serving_def\<close>)
  then show ?thesis by (intro exI conjI) (assumption, simp_all add: whole_start_def serving_def)
qed

theorem whole_server_settles_witness:
  "\<exists>(w :: whole_sys) (w' :: whole_sys). accepted (sv w) = [4] \<and> disp (sv_pool (sv w)) = DSubmit 4
     \<and> finished (sv_pool (sv w')) = [4] \<and> audited_jobs (lin w') = {#Get ''a.txt''#}"
proof -
  obtain m where m: "main_init sample_boot = Running m" using sample_running by blast
  let ?N = "tp_created (p_pool m)" and ?go = "whole_step (\<lambda>_. sample_client) {''a.txt''} ''d'' id"
  obtain w where w: "?go (p_sock m) ?N (whole_start m (\<lambda>_. None)) w"
    "accepted (sv w) = [4]" "disp (sv_pool (sv w)) = DSubmit 4" "sv_end (sv w) = None"
    using sample_accepted [OF m] by blast
  have asks: "asks_in (\<lambda>_. sample_client) {''a.txt''}"
    by (simp add: asks_in_def sample_request job_in_def)
  note settles = whole_server_settles [OF sample_boot_ok(1) m refl asks inj_on_id
      r_into_rtranclp [where r = "?go (p_sock m) ?N", OF w(1)] w(4), THEN conjunct2, THEN conjunct2]
  from settles [unfolded w(2)]
  obtain w' :: whole_sys where "mset (finished (sv_pool (sv w'))) = mset [4]"
    "audited_jobs (lin w') = requests_of (\<lambda>_. sample_client) (length [4 :: int])" by blast
  then show ?thesis
    using w(2,3) by (intro exI [of _ w] exI [of _ w'])
      (simp add: requests_of_def List.map_filter_def sample_request)
qed

end
