(* ===== verification/Log_Readback.thy ===== *)
theory Log_Readback
  imports Server_Refinement
begin

text \<open>
  What the audit log of a run can be used for: a reader for its lines, and the proof that whatever
  clients send, the log that \<open>handle_connection\<close> (\<open>src/httpserver.c\<close>) writes through \<open>src/log.c\<close> is
  well typed and is read back to the entries that were audited.
\<close>

section \<open>A reader\<close>

text \<open>The bytes before the first \<open>c\<close> and those behind it.\<close>

definition read_field :: "byte \<Rightarrow> bytes \<Rightarrow> (bytes \<times> bytes) option" where
  "read_field c s =
     (case dropWhile (\<lambda>x. x \<noteq> c) s of [] \<Rightarrow> None | _ # rest \<Rightarrow> Some (takeWhile (\<lambda>x. x \<noteq> c) s, rest))"

definition read_entry :: "bytes \<Rightarrow> (audit_entry \<times> bytes) option" where
  "read_entry s =
     Option.bind (read_field (CHR '','') s) (\<lambda>(oper, s1).
     Option.bind (read_field (CHR '','') s1) (\<lambda>(u, s2).
     Option.bind (read_field (CHR '','') s2) (\<lambda>(status, s3).
     Option.bind (read_field LF s3) (\<lambda>(rid, s4).
       Some (\<lparr>a_oper = oper, a_uri = u, a_status = dec_val status, a_rid = rid\<rparr>, s4)))))"

lemma read_field_shorter: "read_field c s = Some (a, rest) \<Longrightarrow> length rest < length s"
  using length_dropWhile_le [of "\<lambda>x. x \<noteq> c" s]
  by (auto simp: read_field_def split: list.splits)

lemma read_entry_shorter: "read_entry s = Some (e, rest) \<Longrightarrow> length rest < length s"
  by (auto simp: read_entry_def bind_eq_Some_conv dest!: read_field_shorter)

function read_log :: "bytes \<Rightarrow> audit_entry list option" where
  "read_log s =
     (if s = [] then Some []
      else case read_entry s of
        None \<Rightarrow> None
      | Some (e, rest) \<Rightarrow> map_option ((#) e) (read_log rest))"
  by pat_completeness auto
termination
  by (relation "measure length") (auto dest: read_entry_shorter)

declare read_log.simps [simp del]

lemma read_field_plain: "c \<notin> set a \<Longrightarrow> read_field c (a @ c # rest) = Some (a, rest)"
  by (auto simp: read_field_def takeWhile_append dropWhile_append)

lemma read_entry_line:
  assumes "plain_entry e"
  shows "read_entry (entry_line e @ rest) = Some (e, rest)"
proof -
  have "CHR '','' \<notin> set (a_oper e)" "CHR '','' \<notin> set (a_uri e)" "LF \<notin> set (a_rid e)"
    "CHR '','' \<notin> set (dec_of_nat (a_status e))"
    using assms plain_dec_of_nat [of "a_status e"] by (simp_all add: plain_entry_def plain_field_def)
  then show ?thesis by (simp add: read_entry_def entry_line_def audit_line_def read_field_plain)
qed

lemma read_log_lines: "list_all plain_entry es \<Longrightarrow> read_log (concat (map entry_line es)) = Some es"
proof (induction es)
  case (Cons e es)
  then show ?case using entry_line_nonempty [of e]
    by (simp add: read_log.simps [of "entry_line e @ _"] read_entry_line)
qed (simp add: read_log.simps)

section \<open>The fields of a parsed request\<close>

lemma header_field_match:
  assumes "matches_as HEADER_FIELD s ks"
  shows "\<exists>k v. ks = [k, 1, 1, v, 1, 1] \<and> list_all is_value_char (take v (drop (k + 2) s))"
proof -
  from assms obtain k a1 where 1: "ks = k # a1"
    "matches_as (lit '':'' @ Item False is_space 1 1 # Item True is_value_char 1 128 # lit crlf @ [])
      (drop k s) a1"
    unfolding HEADER_FIELD_def append_Nil2 by (rule matches_as_ItemE)
  from 1(2) obtain a2 where 2: "a1 = [1] @ a2"
    "matches_as (Item False is_space 1 1 # Item True is_value_char 1 128 # lit crlf @ [])
      (drop (k + 1) s) a2"
    by (rule matches_as_litE) simp
  from 2(2) obtain a3 where 3: "a2 = 1 # a3"
    "matches_as (Item True is_value_char 1 128 # lit crlf @ []) (drop 1 (drop (k + 1) s)) a3"
    by (rule matches_as_ItemE) (metis le_antisym)
  from 3(2) obtain v a4 where 4: "a3 = v # a4"
    "list_all is_value_char (take v (drop 1 (drop (k + 1) s)))"
    "matches_as (lit crlf @ []) (drop v (drop 1 (drop (k + 1) s))) a4"
    by (rule matches_as_ItemE)
  from 4(3) have "a4 = [1, 1]" by (rule matches_as_litE) simp
  with 1 2 3 4 show ?thesis by (simp add: add.commute)
qed

lemma header_value_chars:
  assumes "regexec False HEADER_FIELD s = Some [m, kv, (vso, veo)]"
  shows "list_all is_value_char (slice s vso veo)"
proof -
  from assms obtain i ks where rx: "regexec_from False HEADER_FIELD s 0 = Some (i, ks)"
    and ms: "[m, kv, (vso, veo)] = (i, i + sum_list ks) # group_spans HEADER_FIELD ks i"
    by (auto simp: regexec_def)
  from regexec_from_SomeD [OF rx] have "matches_as HEADER_FIELD (drop i s) ks"
    by (auto dest: best_SomeD)
  then obtain k v where kv: "ks = [k, 1, 1, v, 1, 1]"
    "list_all is_value_char (take v (drop (k + 2) (drop i s)))"
    using header_field_match by blast
  from ms kv(1) have "vso = i + k + 2" "veo = i + k + 2 + v" by (auto simp: HEADER_FIELD_def)
  with kv(2) show ?thesis by (simp add: slice_def add.commute add.left_commute)
qed

definition rid_ok :: "conn \<Rightarrow> bool" where
  "rid_ok c \<longleftrightarrow> list_all is_value_char (request_id c)"

lemma apply_header_rid: "rid_ok c \<Longrightarrow> list_all is_value_char v \<Longrightarrow> rid_ok (apply_header k v c)"
  by (auto simp: rid_ok_def apply_header_def list_all_iff dest: in_set_takeD)

lemma parse_headers_loop_rid:
  "parse_headers_loop hs off c = (off', c') \<Longrightarrow> rid_ok c \<Longrightarrow> rid_ok c'"
proof (induction hs off c rule: parse_headers_loop.induct)
  case (1 hs off c)
  note unf = parse_headers_loop.simps [of hs off c]
  show ?case
  proof (cases "regexec False HEADER_FIELD (drop off hs)")
    case None
    with 1(2,3) show ?thesis by (auto simp: unf)
  next
    case (Some ms)
    then obtain so eo kso keo vso veo where ms: "ms = [(so, eo), (kso, keo), (vso, veo)]"
      using regexec_SomeD [OF Some] by (auto simp: length_Suc_conv numeral_2_eq_2)
    let ?c = "apply_header (slice (drop off hs) kso keo) (slice (drop off hs) vso veo) c"
    from 1(2) Some ms have rec: "parse_headers_loop hs (off + eo) ?c = (off', c')" by (simp add: unf)
    have "rid_ok ?c" using apply_header_rid [OF 1(3)] header_value_chars Some ms by blast
    with 1(1) [OF Some] ms rec show ?thesis by fastforce
  qed
qed

lemma process_request_rid: "process_request rl hf c = (r, c') \<Longrightarrow> rid_ok c \<Longrightarrow> rid_ok c'"
proof -
  have frame: "rid_ok (c\<lparr>request := m\<rparr>) = rid_ok c" "rid_ok (c\<lparr>uri := u\<rparr>) = rid_ok c"
    "rid_ok (c\<lparr>message_start := n\<rparr>) = rid_ok c" for c m u n by (simp_all add: rid_ok_def)
  have ph: "parse_headers hf c = (r, c') \<Longrightarrow> rid_ok c \<Longrightarrow> rid_ok c'" for c r c'
    by (auto simp: parse_headers_def frame split: if_splits prod.splits dest: parse_headers_loop_rid)
  show "process_request rl hf c = (r, c') \<Longrightarrow> rid_ok c \<Longrightarrow> rid_ok c'"
    by (auto simp: process_request_def Let_def frame split: if_splits option.splits list.splits
        prod.splits dest: ph)
qed

lemma conn_parse_rid:
  assumes "conn_parse rl hf c = (r, c')" and "rid_ok c"
  shows "rid_ok c'"
proof -
  have frame: "rid_ok (c\<lparr>buffer := b, sock_in := s, bytes_read := n\<rparr>) = rid_ok c"
    "rid_ok (d\<lparr>in_message := k\<rparr>) = rid_ok d" for b s n d k by (simp_all add: rid_ok_def)
  show ?thesis using assms
    by (auto simp: conn_parse_def Let_def frame split: prod.splits sum.splits if_splits option.splits
        dest: process_request_rid)
qed

section \<open>The log of a run\<close>

definition typed_entry :: "audit_entry \<Rightarrow> bool" where
  "typed_entry e \<longleftrightarrow> a_oper e \<in> {''GET'', ''PUT'', ''UNSUPPORTED''}
     \<and> length (a_uri e) \<le> 63 \<and> list_all is_uri_char (a_uri e)
     \<and> a_status e \<in> {200, 201, 400, 403, 404, 500, 501, 505}
     \<and> length (a_rid e) \<le> 128 \<and> list_all is_value_char (a_rid e)"

lemma typed_plain: "typed_entry e \<Longrightarrow> plain_entry e"
proof -
  assume t: "typed_entry e"
  have "plain_field s" if "list_all is_uri_char s \<or> list_all is_value_char s" for s
    using that by (auto simp: plain_field_def list_all_iff class_defs is_value_char_def)
  moreover have "plain_field (a_oper e)"
    using t by (auto simp: typed_entry_def plain_field_def)
  ultimately show "plain_entry e" using t by (simp add: typed_entry_def plain_entry_def)
qed

lemma audit_entry_typed:
  assumes "conn_wf c" and "rid_ok c"
  shows "typed_entry (audit_entry_of c res)"
proof -
  have "request_get_str (conn_get_request c) \<in> {''GET'', ''PUT'', ''UNSUPPORTED''}"
    by (cases "conn_get_request c") simp_all
  moreover have "unat (response_get_code res) \<in> {200, 201, 400, 403, 404, 500, 501, 505}"
    by (cases res) simp_all
  ultimately show ?thesis using assms
    by (simp add: typed_entry_def audit_entry_of_def conn_wf_def rid_ok_def conn_get_uri_def
        conn_get_header_def)
qed

text \<open>Whether a connection is a request at all.\<close>

definition asked :: "kenv \<Rightarrow> istream \<Rightarrow> bool" where
  "asked env sin \<longleftrightarrow> k_alloc env \<and> fst (read_until sin CONN_BUFFER_SIZE (crlf @ crlf)) \<noteq> Inr 0"

text \<open>
  What the entry of a connection tells: the status is that of the message the client was sent, all of
  it unless a transfer failed; and for a well-formed request the operation, the URI and the request id are the
  ones the client wrote, the id being the value of its last \<open>Request-Id\<close> header or 0.
\<close>

definition tells :: "kenv \<Rightarrow> istream \<Rightarrow> ostream \<Rightarrow> ostream \<Rightarrow> audit_entry \<Rightarrow> bool" where
  "tells env sin sout out e \<longleftrightarrow>
     (\<exists>res. a_status e = unat (response_get_code res) \<and> answered env res sout out)
     \<and> (\<forall>m u hs body. k_regcomp_line env \<and> k_regcomp_header env \<and> well_formed_request sin m u hs body \<longrightarrow>
          a_oper e = request_get_str (method_of (m @ '' /'')) \<and> a_uri e = u \<and> a_rid e = declared_id hs)"

lemma tellsI:
  assumes "conn_new (k_alloc env) sin sout = Some c"
    and cp: "conn_parse (k_regcomp_line env) (k_regcomp_header env) c = (r, c')"
    and "answered env res sout out"
  shows "tells env sin sout out (audit_entry_of c' res)"
  unfolding tells_def
proof (intro conjI allI impI)
  show "\<exists>r. a_status (audit_entry_of c' res) = unat (response_get_code r) \<and> answered env r sout out"
    using assms(3) by auto
next
  fix m u hs body
  assume a: "k_regcomp_line env \<and> k_regcomp_header env \<and> well_formed_request sin m u hs body"
  have d: "is_digit (CHR ''1'')" by (simp add: is_digit_def)
  have "conn_new True sin sout = Some c" using assms(1) by (simp add: conn_new_def split: if_splits)
  with a conn_parse_wellformed [of m u "CHR ''1''" hs body sin sout c] d cp
  have "request c' = method_of (m @ '' /'') \<and> uri c' = u \<and> request_id c' = declared_id hs"
    by (auto simp: well_formed_request_def)
  then show "a_oper (audit_entry_of c' res) = request_get_str (method_of (m @ '' /''))"
    "a_uri (audit_entry_of c' res) = u" "a_rid (audit_entry_of c' res) = declared_id hs"
    by (simp_all add: audit_entry_of_def conn_get_request_def conn_get_uri_def conn_get_header_def)
qed

lemma dispatch_entry:
  "\<exists>res. handled (\<lambda>_. True) (audit_entry_of c res) w (snd (dispatch env c w))
     \<and> answered env res (sock_out c) (sock_out (fst (dispatch env c w)))"
  using dispatch_answered [of c w env] unfolding disciplined_def by (blast intro: handled_mono)

text \<open>A connection adds the line of one entry that tells what happened, or none when nothing was asked.\<close>

definition logged :: "kenv \<Rightarrow> istream \<Rightarrow> ostream \<Rightarrow> world \<Rightarrow> ostream \<times> world \<Rightarrow> audit_entry list \<Rightarrow> bool" where
  "logged env sin sout w r es \<longleftrightarrow>
     log_content (alog (snd r)) = log_content (alog w) @ concat (map entry_line es)
     \<and> log_stream (alog (snd r)) = log_stream (alog w)
     \<and> (if asked env sin then \<exists>e. es = [e] \<and> typed_entry e \<and> tells env sin sout (fst r) e else es = [])"

lemma connection_entry:
  assumes "log_stream (alog w) \<noteq> None"
  shows "\<exists>es. logged env sin sout w (handle_connection env sin sout w) es"
proof (cases "conn_new (k_alloc env) sin sout")
  case None
  then have "\<not> asked env sin" "alog (snd (handle_connection env sin sout w)) = alog w"
    by (auto simp: asked_def conn_new_def handle_connection_def close_conn_def split: if_splits)
  then show ?thesis by (intro exI [of _ "[]"]) (simp add: logged_def)
next
  case (Some c)
  obtain r c' where cp: "conn_parse (k_regcomp_line env) (k_regcomp_header env) c = (r, c')"
    by fastforce
  note hc = handle_connection_cases [OF Some cp, of w] and fresh = conn_new_fresh [OF Some]
  have wf: "conn_wf c'" "sock_out c' = sout"
    using conn_parse_step_wf [of c "k_regcomp_line env" "k_regcomp_header env"] fresh cp
    by (cases r; auto)+
  have "rid_ok c'"
    by (rule conn_parse_rid [OF cp]) (simp add: rid_ok_def fresh class_defs is_value_char_def)
  with wf(1) have typed: "typed_entry (audit_entry_of c' res)" for res by (rule audit_entry_typed)
  have asks: "asked env sin \<longleftrightarrow> \<not> conn_is_empty c'"
    using parse_empty [OF Some cp] fresh by (simp add: asked_def)
  have one: ?thesis if "handled (\<lambda>_. True) (audit_entry_of c' res) w w'" "answered env res sout out"
    "asked env sin" "handle_connection env sin sout w = (out, close_conn w')" for res w' out
    using that typed [of res] assms tellsI [OF Some cp that(2)]
    by (intro exI [of _ "[audit_entry_of c' res]"]) (auto simp: handled_def close_conn_def logged_def)
  show ?thesis
  proof (cases r)
    case None
    obtain res where "handled (\<lambda>_. True) (audit_entry_of c' res) w (snd (dispatch env c' w))"
      "answered env res sout (sock_out (fst (dispatch env c' w)))"
      using dispatch_entry [of c' w env] wf(2) by auto
    with None hc asks parse_none_nonempty [OF Some] cp show ?thesis by (intro one) auto
  next
    case (Some res)
    have "handled (\<lambda>_. True) (audit_entry_of c' (parse_status res c')) w
        (snd (respond c' (parse_status res c') w))"
      "answered env (parse_status res c') sout (sock_out (fst (respond c' (parse_status res c') w)))"
      using resp_out_answered [of env "parse_status res c'" c'] wf(2) by (auto simp: respond_eq handled_def)
    then show ?thesis
    proof (cases "conn_is_empty c'")
      case True
      with Some hc asks show ?thesis by (intro exI [of _ "[]"]) (simp add: close_conn_def logged_def)
    qed (use Some hc asks one in auto)
  qed
qed

text \<open>Connections served one after the other: what each client was sent, and the world at the end.\<close>

fun serve_all :: "(kenv \<times> istream \<times> ostream) list \<Rightarrow> world \<Rightarrow> ostream list \<times> world" where
  "serve_all [] w = ([], w)"
| "serve_all ((env, sin, sout) # cs) w =
     (case handle_connection env sin sout w of (out, w\<^sub>1) \<Rightarrow>
        (case serve_all cs w\<^sub>1 of (outs, w\<^sub>2) \<Rightarrow> (out # outs, w\<^sub>2)))"

text \<open>The entries tell, one by one and in order, of the connections that asked for something.\<close>

definition log_tells :: "(kenv \<times> istream \<times> ostream) list \<Rightarrow> ostream list \<Rightarrow> audit_entry list \<Rightarrow> bool" where
  "log_tells cs outs es \<longleftrightarrow> list_all2 (\<lambda>((env, sin, sout), out) e. tells env sin sout out e)
     (filter (\<lambda>((env, sin, _), _). asked env sin) (zip cs outs)) es"

lemma serve_all_entries:
  assumes "log_stream (alog w) \<noteq> None" and "serve_all cs w = (outs, w')"
  shows "\<exists>es. list_all typed_entry es \<and> log_tells cs outs es
    \<and> log_content (alog w') = log_content (alog w) @ concat (map entry_line es)"
  using assms
proof (induction cs w arbitrary: outs w' rule: serve_all.induct)
  case (2 env sin sout cs w)
  obtain out w1 where hc: "handle_connection env sin sout w = (out, w1)" by fastforce
  obtain outs' where rest: "serve_all cs w1 = (outs', w')" and outs: "outs = out # outs'"
    using 2(3) hc by (auto split: prod.splits)
  from connection_entry [OF 2(2), of env sin sout] obtain es where es: "logged env sin sout w (out, w1) es"
    unfolding hc by blast
  then have "log_stream (alog w1) \<noteq> None" using 2(2) by (simp add: logged_def)
  from 2(1) [OF hc [symmetric] this rest] obtain es' where es': "list_all typed_entry es'" "log_tells cs outs' es'"
    "log_content (alog w') = log_content (alog w1) @ concat (map entry_line es')" by blast
  with es outs show ?case
    by (intro exI [of _ "es @ es'"]) (auto simp: logged_def log_tells_def split: if_splits)
qed (auto simp: log_tells_def intro: exI [of _ "[]"])

text \<open>
  C14: the audit log is well typed and tells what happened. After any sequence of connections,
  whatever the clients sent and the kernel did, reading the log gives one entry for every connection
  that sent a byte, in their order. The status of each entry is that of the message the client was
  sent; and where the client sent a well-formed request, the entry holds the method and the URI of
  that request and the value of its \<open>Request-Id\<close> header. Every entry has one of the three operations,
  a URI of at most 63 permitted characters, one of the eight status codes, and a request id of at
  most 128 permitted characters; no client can forge a line or break one.
\<close>

theorem audit_log_readback:
  assumes "log_stream (alog w) \<noteq> None" and "log_content (alog w) = []"
    and "serve_all cs w = (outs, w')"
  shows "\<exists>es. read_log (log_content (alog w')) = Some es
    \<and> log_content (alog w') = concat (map entry_line es)
    \<and> list_all typed_entry es \<and> log_tells cs outs es"
proof -
  obtain es where es: "list_all typed_entry es" "log_tells cs outs es"
    "log_content (alog w') = concat (map entry_line es)"
    using serve_all_entries [OF assms(1,3)] assms(2) by auto
  moreover have "list_all plain_entry es" using es(1) typed_plain by (auto simp: list_all_iff)
  ultimately show ?thesis using read_log_lines by auto
qed

theorem audit_log_readback_witness:
  "\<exists>e. read_log (log_content (alog (snd (serve_all [(calm_env, sample_input, no_out)] empty_world)))) = Some [e]
     \<and> a_oper e = ''PUT'' \<and> a_uri e = ''a.txt'' \<and> a_rid e = ''7''"
proof -
  have log: "log_stream (alog empty_world) \<noteq> None" "log_content (alog empty_world) = []"
    by (simp_all add: empty_world_def log_init_def log_static_def log_content_def)
  obtain out w' where run: "serve_all [(calm_env, sample_input, no_out)] empty_world = ([out], w')"
    by (cases "handle_connection calm_env sample_input no_out empty_world") simp
  have asked: "asked calm_env sample_input"
    using read_until_Inr [of sample_input CONN_BUFFER_SIZE "crlf @ crlf" 0]
    by (cases "read_until sample_input CONN_BUFFER_SIZE (crlf @ crlf)")
      (auto simp: asked_def calm_env_def sample_input_def CONN_BUFFER_SIZE_def)
  have env: "k_regcomp_line calm_env" "k_regcomp_header calm_env" by (simp_all add: calm_env_def)
  have vals: "method_of (''PUT'' @ '' /'') = REQUEST_PUT"
    "declared_id [(''Content-Length'', ''2''), (''Request-Id'', ''7'')] = ''7''"
    by (simp_all add: method_of_def declared_id_def)
  from audit_log_readback [OF log run] obtain es where es: "read_log (log_content (alog w')) = Some es"
    "log_tells [(calm_env, sample_input, no_out)] [out] es" by blast
  then obtain e where "es = [e]" "tells calm_env sample_input no_out out e"
    using asked by (auto simp: log_tells_def list_all2_Cons1)
  with es env sample_input_wf vals show ?thesis unfolding run tells_def by fastforce
qed

end
