(* ===== verification/Queue_Concurrent.thy ===== *)
theory Queue_Concurrent
  imports Bounded_Queue
begin

text \<open>
  Any number of threads inside \<open>queue_push\<close> and \<open>queue_pop\<close> at once, interleaved statement by
  statement. A thread's location says which statement it executes next; the waits and posts are
  \<open>sem_wait_checked\<close> and \<open>sem_post_checked\<close>, and the statements of the critical sections are separate
  steps. The history records what has been pushed and popped, each at its index update.
\<close>

section \<open>The threads\<close>

datatype 'a qpc =
    Idle
  | PFull 'a | PMutex 'a | PStore 'a | PTail 'a | PCount 'a | PPostMutex 'a | PPostEmpty 'a
  | GEmpty | GMutex | GLoad | GHead 'a | GCount 'a | GPostMutex 'a | GPostFull 'a

record 'a qsys =
  sq :: "'a queue"
  qpc :: "nat \<Rightarrow> 'a qpc"
  pushed :: "'a list"
  popped :: "'a list"
  waiting :: "'a list"

definition goto :: "nat \<Rightarrow> 'a qpc \<Rightarrow> 'a qsys \<Rightarrow> 'a qsys" where
  "goto t c s = s\<lparr>qpc := (qpc s)(t := c)\<rparr>"

inductive q_step :: "nat \<Rightarrow> 'a qsys \<Rightarrow> 'a qsys \<Rightarrow> bool" for N :: nat where
  push_call: "t < N \<Longrightarrow> qpc s t = Idle \<Longrightarrow> q_step N s (goto t (PFull x) s)"
| push_full: "t < N \<Longrightarrow> qpc s t = PFull x \<Longrightarrow> sem_wait_checked [] (q_full (sq s)) = Ret f \<Longrightarrow>
    q_step N s (goto t (PMutex x) (s\<lparr>sq := (sq s)\<lparr>q_full := f\<rparr>\<rparr>))"
| push_mutex: "t < N \<Longrightarrow> qpc s t = PMutex x \<Longrightarrow> sem_wait_checked [] (q_mutex (sq s)) = Ret m \<Longrightarrow>
    q_step N s (goto t (PStore x) (s\<lparr>sq := (sq s)\<lparr>q_mutex := m\<rparr>\<rparr>))"
| push_store: "t < N \<Longrightarrow> qpc s t = PStore x \<Longrightarrow>
    q_step N s (goto t (PTail x)
      (s\<lparr>sq := (sq s)\<lparr>q_buffer := (q_buffer (sq s))[nat (q_tail (sq s)) := x]\<rparr>\<rparr>))"
| push_tail: "t < N \<Longrightarrow> qpc s t = PTail x \<Longrightarrow>
    q_step N s (goto t (PCount x)
      (s\<lparr>sq := (sq s)\<lparr>q_tail := (q_tail (sq s) + 1) mod q_size (sq s)\<rparr>,
         pushed := pushed s @ [x], waiting := waiting s @ [x]\<rparr>))"
| push_count: "t < N \<Longrightarrow> qpc s t = PCount x \<Longrightarrow>
    q_step N s (goto t (PPostMutex x) (s\<lparr>sq := (sq s)\<lparr>q_count := q_count (sq s) + 1\<rparr>\<rparr>))"
| push_post_mutex: "t < N \<Longrightarrow> qpc s t = PPostMutex x \<Longrightarrow>
    sem_post_checked (q_mutex (sq s)) = Ret m \<Longrightarrow>
    q_step N s (goto t (PPostEmpty x) (s\<lparr>sq := (sq s)\<lparr>q_mutex := m\<rparr>\<rparr>))"
| push_post_empty: "t < N \<Longrightarrow> qpc s t = PPostEmpty x \<Longrightarrow>
    sem_post_checked (q_empty (sq s)) = Ret e \<Longrightarrow>
    q_step N s (goto t Idle (s\<lparr>sq := (sq s)\<lparr>q_empty := e\<rparr>\<rparr>))"
| pop_call: "t < N \<Longrightarrow> qpc s t = Idle \<Longrightarrow> q_step N s (goto t GEmpty s)"
| pop_empty: "t < N \<Longrightarrow> qpc s t = GEmpty \<Longrightarrow> sem_wait_checked [] (q_empty (sq s)) = Ret e \<Longrightarrow>
    q_step N s (goto t GMutex (s\<lparr>sq := (sq s)\<lparr>q_empty := e\<rparr>\<rparr>))"
| pop_mutex: "t < N \<Longrightarrow> qpc s t = GMutex \<Longrightarrow> sem_wait_checked [] (q_mutex (sq s)) = Ret m \<Longrightarrow>
    q_step N s (goto t GLoad (s\<lparr>sq := (sq s)\<lparr>q_mutex := m\<rparr>\<rparr>))"
| pop_load: "t < N \<Longrightarrow> qpc s t = GLoad \<Longrightarrow>
    q_step N s (goto t (GHead (q_buffer (sq s) ! nat (q_head (sq s)))) s)"
| pop_head: "t < N \<Longrightarrow> qpc s t = GHead x \<Longrightarrow>
    q_step N s (goto t (GCount x)
      (s\<lparr>sq := (sq s)\<lparr>q_head := (q_head (sq s) + 1) mod q_size (sq s)\<rparr>,
         popped := popped s @ [x], waiting := tl (waiting s)\<rparr>))"
| pop_count: "t < N \<Longrightarrow> qpc s t = GCount x \<Longrightarrow>
    q_step N s (goto t (GPostMutex x) (s\<lparr>sq := (sq s)\<lparr>q_count := q_count (sq s) - 1\<rparr>\<rparr>))"
| pop_post_mutex: "t < N \<Longrightarrow> qpc s t = GPostMutex x \<Longrightarrow>
    sem_post_checked (q_mutex (sq s)) = Ret m \<Longrightarrow>
    q_step N s (goto t (GPostFull x) (s\<lparr>sq := (sq s)\<lparr>q_mutex := m\<rparr>\<rparr>))"
| pop_post_full: "t < N \<Longrightarrow> qpc s t = GPostFull x \<Longrightarrow>
    sem_post_checked (q_full (sq s)) = Ret f \<Longrightarrow>
    q_step N s (goto t Idle (s\<lparr>sq := (sq s)\<lparr>q_full := f\<rparr>\<rparr>))"

text \<open>Initially no thread is inside an operation and the queue is as \<open>queue_new\<close> leaves it.\<close>

definition q_init :: "'a qsys \<Rightarrow> bool" where
  "q_init s \<longleftrightarrow> queue_wf (sq s) \<and> q_count (sq s) = 0 \<and> (\<forall>t. qpc s t = Idle)
     \<and> pushed s = [] \<and> popped s = [] \<and> waiting s = []"

section \<open>What each location holds\<close>

text \<open>Weights of a location: inside the critical section; a slot taken from \<open>full\<close> that no element
  occupies; an element that \<open>empty\<close> does not show; a pending change of \<open>count\<close>.\<close>

fun in_cs :: "'a qpc \<Rightarrow> nat" where
  "in_cs (PStore _) = 1" | "in_cs (PTail _) = 1" | "in_cs (PCount _) = 1"
| "in_cs (PPostMutex _) = 1" | "in_cs GLoad = 1" | "in_cs (GHead _) = 1"
| "in_cs (GCount _) = 1" | "in_cs (GPostMutex _) = 1"
| "in_cs _ = 0"

fun slot_held :: "'a qpc \<Rightarrow> nat" where
  "slot_held (PMutex _) = 1" | "slot_held (PStore _) = 1" | "slot_held (PTail _) = 1"
| "slot_held (GCount _) = 1" | "slot_held (GPostMutex _) = 1" | "slot_held (GPostFull _) = 1"
| "slot_held _ = 0"

fun item_held :: "'a qpc \<Rightarrow> nat" where
  "item_held GMutex = 1" | "item_held GLoad = 1" | "item_held (GHead _) = 1"
| "item_held (PCount _) = 1" | "item_held (PPostMutex _) = 1" | "item_held (PPostEmpty _) = 1"
| "item_held _ = 0"

fun count_due_up :: "'a qpc \<Rightarrow> nat" where
  "count_due_up (PCount _) = 1"
| "count_due_up _ = 0"

fun count_due_down :: "'a qpc \<Rightarrow> nat" where
  "count_due_down (GCount _) = 1"
| "count_due_down _ = 0"

section \<open>The invariant\<close>

definition q_ring :: "'a queue \<Rightarrow> 'a list \<Rightarrow> bool" where
  "q_ring q ws \<longleftrightarrow> 0 < q_size q \<and> q_size q \<le> INT_MAX \<and> length (q_buffer q) = nat (q_size q)
     \<and> 0 \<le> q_head q \<and> q_head q < q_size q
     \<and> q_tail q = (q_head q + int (length ws)) mod q_size q
     \<and> (\<forall>i < length ws. q_buffer q ! nat ((q_head q + int i) mod q_size q) = ws ! i)"

definition q_counts :: "nat \<Rightarrow> 'a queue \<Rightarrow> (nat \<Rightarrow> 'a qpc) \<Rightarrow> nat \<Rightarrow> bool" where
  "q_counts N q p n \<longleftrightarrow> q_mutex q + tally N in_cs p = 1
     \<and> q_full q + n + tally N slot_held p = nat (q_size q)
     \<and> q_empty q + tally N item_held p = n
     \<and> q_count q + int (tally N count_due_up p) = int n + int (tally N count_due_down p)"

fun local_ok :: "'a queue \<Rightarrow> 'a list \<Rightarrow> 'a qpc \<Rightarrow> bool" where
  "local_ok q ws (PTail x) = (q_buffer q ! nat (q_tail q) = x)"
| "local_ok q ws (GHead x) = (ws \<noteq> [] \<and> hd ws = x)"
| "local_ok q ws _ = True"

definition q_inv :: "nat \<Rightarrow> 'a qsys \<Rightarrow> bool" where
  "q_inv N s \<longleftrightarrow> q_ring (sq s) (waiting s) \<and> q_counts N (sq s) (qpc s) (length (waiting s))
     \<and> (\<forall>t < N. local_ok (sq s) (waiting s) (qpc s t)) \<and> pushed s = popped s @ waiting s"

lemma q_counts_mutual:
  assumes "q_counts N q p n" and "t < N" and "t' < N" and "in_cs (p t) = 1" and "in_cs (p t') = 1"
  shows "t = t'"
proof (rule ccontr)
  assume "t \<noteq> t'"
  with assms tally_two [of t N t' in_cs p] show False by (simp add: q_counts_def)
qed

lemma local_ok_outside: "in_cs c = 0 \<Longrightarrow> local_ok q ws c"
  by (cases c) auto

text \<open>A step of a thread in the critical section keeps the local facts: no other thread is there.\<close>

lemma local_ok_cs:
  assumes "q_counts N q p n" and "t < N" and "in_cs (p t) = 1" and "local_ok q' ws' c"
  shows "\<forall>t' < N. local_ok q' ws' ((p(t := c)) t')"
proof (intro allI impI)
  fix t' assume t': "t' < N"
  have "in_cs (p t') = 0 \<or> in_cs (p t') = 1" by (cases "p t'") auto
  then show "local_ok q' ws' ((p(t := c)) t')"
    using assms t' q_counts_mutual [OF assms(1,2) t'] local_ok_outside by (cases "t' = t") auto
qed

text \<open>The semaphores and the count do not matter for them.\<close>

lemma local_ok_frame [simp]:
  "local_ok (q\<lparr>q_mutex := m\<rparr>) ws c = local_ok q ws c"
  "local_ok (q\<lparr>q_empty := e\<rparr>) ws c = local_ok q ws c"
  "local_ok (q\<lparr>q_full := f\<rparr>) ws c = local_ok q ws c"
  "local_ok (q\<lparr>q_count := n\<rparr>) ws c = local_ok q ws c"
  by (cases c; simp)+

text \<open>The counting part after a move of one thread, from the weights of its two locations.\<close>

lemma q_counts_move:
  assumes "q_counts N q p n" and "t < N"
    and "q_mutex q' + in_cs c = q_mutex q + in_cs (p t)"
    and "q_full q' + n' + slot_held c = q_full q + n + slot_held (p t)"
    and "q_empty q' + item_held c + n = q_empty q + item_held (p t) + n'"
    and "q_count q' + int (count_due_up c) + int n + int (count_due_down (p t))
         = q_count q + int (count_due_up (p t)) + int n' + int (count_due_down c)"
    and "q_size q' = q_size q"
  shows "q_counts N q' (p(t := c)) n'"
  using assms tally_upd [OF assms(2), of in_cs p c] tally_upd [OF assms(2), of slot_held p c]
    tally_upd [OF assms(2), of item_held p c] tally_upd [OF assms(2), of count_due_up p c]
    tally_upd [OF assms(2), of count_due_down p c]
  unfolding q_counts_def by linarith

section \<open>The steps keep the invariant\<close>

lemma q_ring_frame [simp]:
  "q_ring (q\<lparr>q_mutex := m\<rparr>) ws = q_ring q ws"
  "q_ring (q\<lparr>q_empty := e\<rparr>) ws = q_ring q ws"
  "q_ring (q\<lparr>q_full := f\<rparr>) ws = q_ring q ws"
  "q_ring (q\<lparr>q_count := c\<rparr>) ws = q_ring q ws"
  by (simp_all add: q_ring_def)

lemma q_ring_tail_range: "q_ring q ws \<Longrightarrow> nat (q_tail q) < length (q_buffer q)"
  by (simp add: q_ring_def nat_less_iff)

lemma q_ring_store:
  assumes "q_ring q ws" and "length ws < nat (q_size q)"
  shows "q_ring (q\<lparr>q_buffer := (q_buffer q)[nat (q_tail q) := x]\<rparr>) ws"
proof -
  have "(q_buffer q)[nat (q_tail q) := x] ! nat ((q_head q + int i) mod q_size q) = ws ! i"
    if "i < length ws" for i
    using ring_index_neq [of "int i" "int (length ws)" "q_size q" "q_head q"] that assms
    by (simp add: q_ring_def zless_nat_eq_int_zless)
  then show ?thesis using assms(1) by (simp add: q_ring_def)
qed

lemma q_ring_tail:
  assumes "q_ring q ws" and "q_buffer q ! nat (q_tail q) = x"
  shows "q_ring (q\<lparr>q_tail := (q_tail q + 1) mod q_size q\<rparr>) (ws @ [x])"
  using assms by (auto simp: q_ring_def nth_append mod_simps less_Suc_eq ac_simps)

lemma q_ring_head:
  assumes "q_ring q (y # ws)"
  shows "q_ring (q\<lparr>q_head := (q_head q + 1) mod q_size q\<rparr>) ws"
proof -
  have "q_buffer q ! nat (((q_head q + 1) mod q_size q + int i) mod q_size q) = ws ! i"
    if "i < length ws" for i
  proof -
    have "q_buffer q ! nat ((q_head q + int (Suc i)) mod q_size q) = (y # ws) ! Suc i"
      using assms that unfolding q_ring_def by (metis Suc_less_eq length_Cons)
    moreover have "((q_head q + 1) mod q_size q + int i) mod q_size q
        = (q_head q + int (Suc i)) mod q_size q" by (simp add: mod_simps add.assoc)
    ultimately show ?thesis by simp
  qed
  then show ?thesis using assms by (simp add: q_ring_def mod_simps ac_simps)
qed

lemma q_ring_hd:
  assumes "q_ring q ws" and "ws \<noteq> []"
  shows "q_buffer q ! nat (q_head q) = hd ws"
proof -
  have "q_buffer q ! nat ((q_head q + int 0) mod q_size q) = ws ! 0"
    using assms unfolding q_ring_def by blast
  then show ?thesis using assms by (simp add: q_ring_def hd_conv_nth)
qed

lemma q_slot_room:
  "q_counts N q p n \<Longrightarrow> t < N \<Longrightarrow> slot_held (p t) = 1 \<Longrightarrow> n < nat (q_size q)"
  using tally_ge [of t N slot_held p] by (auto simp: q_counts_def)

lemma q_item_there: "q_counts N q p n \<Longrightarrow> t < N \<Longrightarrow> item_held (p t) = 1 \<Longrightarrow> 0 < n"
  using tally_ge [of t N item_held p] by (auto simp: q_counts_def)

lemma sem_wait_Ret: "sem_wait_checked [] v = Ret v' \<longleftrightarrow> v = Suc v'"
  by auto

lemma sem_post_Ret: "sem_post_checked v = Ret v' \<Longrightarrow> v' = Suc v"
  by (auto simp: sem_post_checked_def split: if_splits)

lemma q_step_inv: "q_step N s s' \<Longrightarrow> q_inv N s \<Longrightarrow> q_inv N s'"
proof (induction rule: q_step.induct)
  case (push_store t s x)
  then have ring: "q_ring (sq s) (waiting s)"
    and cnt: "q_counts N (sq s) (qpc s) (length (waiting s))" by (simp_all add: q_inv_def)
  let ?q = "(sq s)\<lparr>q_buffer := (q_buffer (sq s))[nat (q_tail (sq s)) := x]\<rparr>"
  have "q_ring ?q (waiting s)"
    using q_ring_store [OF ring] q_slot_room [OF cnt] push_store by simp
  moreover have "q_counts N ?q ((qpc s)(t := PTail x)) (length (waiting s))"
    using push_store by (intro q_counts_move [OF cnt]) simp_all
  moreover have "\<forall>t' < N. local_ok ?q (waiting s) (((qpc s)(t := PTail x)) t')"
    using push_store q_ring_tail_range [OF ring] by (intro local_ok_cs [OF cnt]) simp_all
  ultimately show ?case using push_store by (simp add: q_inv_def goto_def)
next
  case (push_tail t s x)
  then have ring: "q_ring (sq s) (waiting s)"
    and cnt: "q_counts N (sq s) (qpc s) (length (waiting s))" by (simp_all add: q_inv_def)
  have loc: "local_ok (sq s) (waiting s) (PTail x)" using push_tail unfolding q_inv_def by metis
  let ?q = "(sq s)\<lparr>q_tail := (q_tail (sq s) + 1) mod q_size (sq s)\<rparr>"
  have "q_ring ?q (waiting s @ [x])" using q_ring_tail [OF ring] loc push_tail by simp
  moreover have "q_counts N ?q ((qpc s)(t := PCount x)) (length (waiting s @ [x]))"
    using push_tail by (intro q_counts_move [OF cnt]) simp_all
  moreover have "\<forall>t' < N. local_ok ?q (waiting s @ [x]) (((qpc s)(t := PCount x)) t')"
    using push_tail by (intro local_ok_cs [OF cnt]) simp_all
  ultimately show ?case using push_tail by (simp add: q_inv_def goto_def)
next
  case (pop_load t s)
  then have ring: "q_ring (sq s) (waiting s)"
    and cnt: "q_counts N (sq s) (qpc s) (length (waiting s))" by (simp_all add: q_inv_def)
  have ne: "waiting s \<noteq> []" using q_item_there [OF cnt] pop_load by fastforce
  let ?c = "GHead (q_buffer (sq s) ! nat (q_head (sq s)))"
  have "q_counts N (sq s) ((qpc s)(t := ?c)) (length (waiting s))"
    using pop_load by (intro q_counts_move [OF cnt]) simp_all
  moreover have "\<forall>t' < N. local_ok (sq s) (waiting s) (((qpc s)(t := ?c)) t')"
    using pop_load q_ring_hd [OF ring ne] ne by (intro local_ok_cs [OF cnt]) simp_all
  ultimately show ?case using pop_load by (simp add: q_inv_def goto_def)
next
  case (pop_head t s x)
  then have ring: "q_ring (sq s) (waiting s)"
    and cnt: "q_counts N (sq s) (qpc s) (length (waiting s))" by (simp_all add: q_inv_def)
  have loc: "local_ok (sq s) (waiting s) (GHead x)" using pop_head unfolding q_inv_def by metis
  let ?q = "(sq s)\<lparr>q_head := (q_head (sq s) + 1) mod q_size (sq s)\<rparr>"
  from loc pop_head obtain ws where ws: "waiting s = x # ws" by (cases "waiting s") auto
  have "q_ring ?q ws" using q_ring_head [of "sq s" x ws] ring ws by simp
  moreover have "q_counts N ?q ((qpc s)(t := GCount x)) (length ws)"
    using pop_head ws by (intro q_counts_move [OF cnt]) simp_all
  moreover have "\<forall>t' < N. local_ok ?q ws (((qpc s)(t := GCount x)) t')"
    using pop_head by (intro local_ok_cs [OF cnt]) simp_all
  ultimately show ?case using pop_head ws by (simp add: q_inv_def goto_def)
qed (unfold q_inv_def goto_def sem_wait_Ret, auto dest!: sem_post_Ret intro!: q_counts_move)

lemma q_init_inv: "q_init s \<Longrightarrow> q_inv N s"
  by (auto simp: q_init_def q_inv_def queue_wf_def q_ring_def q_counts_def tally_def)

interpretation q_threads: invariant_system q_init "q_step N" "q_inv N" for N
  by unfold_locales (auto intro: q_init_inv q_step_inv)

section \<open>Consequences\<close>

text \<open>The abstract queue that the threads see: a list of at most \<open>cap\<close> elements.\<close>

inductive fifo_step :: "nat \<Rightarrow> 'a list \<Rightarrow> 'a list \<Rightarrow> bool" for cap :: nat where
  enqueue: "length ws < cap \<Longrightarrow> fifo_step cap ws (ws @ [x])"
| dequeue: "fifo_step cap (x # ws) ws"

inductive_cases fifo_stepE: "fifo_step cap ws ws'"

lemma q_inv_bounded: "q_inv N s \<Longrightarrow> length (waiting s) \<le> nat (q_size (sq s))"
  by (simp add: q_inv_def q_counts_def)

lemma q_step_simulation:
  assumes "q_step N s s'" and "q_inv N s"
  shows "waiting s' = waiting s \<or> fifo_step (nat (q_size (sq s))) (waiting s) (waiting s')"
  using assms
proof (induction rule: q_step.induct)
  case (push_tail t s x)
  then have "length (waiting s) < nat (q_size (sq s))"
    using q_slot_room [of N "sq s" "qpc s" _ t] by (simp add: q_inv_def)
  then show ?case by (simp add: goto_def fifo_step.enqueue)
next
  case (pop_head t s x)
  then have "local_ok (sq s) (waiting s) (GHead x)" unfolding q_inv_def by metis
  then obtain ws where "waiting s = x # ws" by (cases "waiting s") auto
  then show ?case by (simp add: goto_def fifo_step.dequeue)
qed (simp_all add: goto_def)

lemma q_step_size: "q_step N s s' \<Longrightarrow> q_size (sq s') = q_size (sq s)"
  by (induction rule: q_step.induct) (simp_all add: goto_def)

lemma q_quiescent:
  assumes "q_inv N s" and "\<forall>t < N. qpc s t = Idle"
  shows "queue_wf (sq s) \<and> queue_items (sq s) = waiting s"
proof -
  have z: "tally N w (qpc s) = 0" if "w Idle = 0" for w using assms(2) that by (simp add: tally_zero)
  have cnt: "q_count (sq s) = int (length (waiting s))" "q_mutex (sq s) = 1"
      "q_empty (sq s) = length (waiting s)"
      "q_full (sq s) + length (waiting s) = nat (q_size (sq s))"
    using assms(1) by (simp_all add: q_inv_def q_counts_def z)
  moreover have ring: "q_ring (sq s) (waiting s)" using assms(1) by (simp add: q_inv_def)
  moreover have "queue_items (sq s) = waiting s"
    using ring cnt(1) by (auto simp: queue_items_def q_ring_def intro!: nth_equalityI)
  ultimately show ?thesis by (auto simp: queue_wf_def q_ring_def)
qed

text \<open>
  C9: no interleaving of pushes and pops loses, duplicates or reorders an element. In every
  reachable state the elements pushed so far are those popped so far, in the same order, followed
  by the waiting ones; at most \<open>size\<close> wait; the indices stay within the array; at most one thread
  is in a critical section. Every step acts on the waiting elements as an abstract bounded queue
  does, or not at all, and whenever no operation is in progress the structure is a well-formed
  queue that holds exactly the waiting elements.
\<close>

theorem queue_concurrent_fifo:
  assumes "q_init s\<^sub>0" and "(q_step N)\<^sup>*\<^sup>* s\<^sub>0 s"
  shows "pushed s = popped s @ waiting s \<and> length (waiting s) \<le> nat (q_size (sq s))
    \<and> 0 \<le> q_head (sq s) \<and> q_head (sq s) < q_size (sq s)
    \<and> 0 \<le> q_tail (sq s) \<and> q_tail (sq s) < q_size (sq s)
    \<and> (\<forall>t t'. t < N \<and> t' < N \<and> in_cs (qpc s t) = 1 \<and> in_cs (qpc s t') = 1 \<longrightarrow> t = t')
    \<and> (\<forall>s'. q_step N s s' \<longrightarrow> waiting s' = waiting s
         \<or> fifo_step (nat (q_size (sq s))) (waiting s) (waiting s'))
    \<and> ((\<forall>t < N. qpc s t = Idle) \<longrightarrow> queue_wf (sq s) \<and> queue_items (sq s) = waiting s)"
proof -
  have inv: "q_inv N s" using assms by (rule q_threads.reach_inv)
  then have "q_counts N (sq s) (qpc s) (length (waiting s))" by (simp add: q_inv_def)
  from q_counts_mutual [OF this] inv q_inv_bounded [OF inv] q_step_simulation [OF _ inv]
    q_quiescent [OF inv]
  show ?thesis by (auto simp: q_inv_def q_ring_def)
qed

definition start_sys :: "int qsys" where
  "start_sys = \<lparr>sq = sample_queue, qpc = (\<lambda>_. Idle), pushed = [], popped = [], waiting = []\<rparr>"

definition pushing_sys :: "int qsys" where
  "pushing_sys = goto 0 (PMutex 7) (start_sys\<lparr>sq := sample_queue\<lparr>q_full := 1\<rparr>\<rparr>)"

lemma sample_queue_eq:
  "sample_queue = \<lparr>q_size = 2, q_count = 0, q_buffer = [0, 0], q_head = 0, q_tail = 0,
     q_mutex = 1, q_empty = 0, q_full = 2\<rparr>"
  by (simp add: sample_queue_def queue_new_def set_fields_def)

lemma start_sys_init: "q_init start_sys"
  by (simp add: q_init_def start_sys_def sample_queue_eq queue_wf_def INT_MAX_def)

lemma start_sys_run: "(q_step 2)\<^sup>*\<^sup>* start_sys pushing_sys"
proof -
  have 1: "q_step 2 start_sys (goto 0 (PFull 7) start_sys)"
    by (rule q_step.push_call) (simp_all add: start_sys_def)
  have "q_step 2 (goto 0 (PFull 7) start_sys) (goto 0 (PMutex 7) ((goto 0 (PFull 7) start_sys)
      \<lparr>sq := (sq (goto 0 (PFull 7) start_sys))\<lparr>q_full := 1\<rparr>\<rparr>))"
    by (rule q_step.push_full) (simp_all add: start_sys_def sample_queue_eq goto_def)
  then have 2: "q_step 2 (goto 0 (PFull 7) start_sys) pushing_sys"
    by (simp add: pushing_sys_def start_sys_def goto_def)
  show ?thesis
    by (rule converse_rtranclp_into_rtranclp [OF 1 r_into_rtranclp [where r = "q_step 2", OF 2]])
qed

theorem queue_concurrent_fifo_witness:
  "pushed pushing_sys = popped pushing_sys @ waiting pushing_sys
     \<and> q_tail (sq pushing_sys) < q_size (sq pushing_sys)"
  using queue_concurrent_fifo [OF start_sys_init start_sys_run] by simp

text \<open>A step that starts no new call.\<close>

definition q_work :: "nat \<Rightarrow> 'a qsys \<Rightarrow> 'a qsys \<Rightarrow> bool" where
  "q_work N s s' \<longleftrightarrow> q_step N s s' \<and> (\<forall>t < N. qpc s t = Idle \<longrightarrow> qpc s' t = Idle)"

fun steps_left :: "'a qpc \<Rightarrow> nat" where
  "steps_left Idle = 0"
| "steps_left (PFull _) = 7" | "steps_left (PMutex _) = 6" | "steps_left (PStore _) = 5"
| "steps_left (PTail _) = 4" | "steps_left (PCount _) = 3" | "steps_left (PPostMutex _) = 2"
| "steps_left (PPostEmpty _) = 1"
| "steps_left GEmpty = 7" | "steps_left GMutex = 6" | "steps_left GLoad = 5"
| "steps_left (GHead _) = 4" | "steps_left (GCount _) = 3" | "steps_left (GPostMutex _) = 2"
| "steps_left (GPostFull _) = 1"

lemma q_work_less:
  assumes "q_work N s s'"
  shows "tally N steps_left (qpc s') < tally N steps_left (qpc s)"
proof -
  have "q_step N s s'" and idle: "\<forall>t < N. qpc s t = Idle \<longrightarrow> qpc s' t = Idle"
    using assms by (simp_all add: q_work_def)
  then show ?thesis
  proof (induction rule: q_step.induct)
    case (push_call t s x)
    then show ?case by (auto simp: goto_def)
  next
    case (pop_call t s)
    then show ?case by (auto simp: goto_def)
  qed (simp_all add: goto_def tally_less)
qed

fun blocked :: "'a queue \<Rightarrow> 'a qpc \<Rightarrow> bool" where
  "blocked q (PFull _) = (q_full q = 0)"
| "blocked q GEmpty = (q_empty q = 0)"
| "blocked q (PMutex _) = (q_mutex q = 0)"
| "blocked q GMutex = (q_mutex q = 0)"
| "blocked q _ = False"

text \<open>The value that a thread is about to post to.\<close>

fun posting :: "'a queue \<Rightarrow> 'a qpc \<Rightarrow> nat option" where
  "posting q (PPostMutex _) = Some (q_mutex q)"
| "posting q (GPostMutex _) = Some (q_mutex q)"
| "posting q (PPostEmpty _) = Some (q_empty q)"
| "posting q (GPostFull _) = Some (q_full q)"
| "posting q _ = None"

lemma q_post_ok:
  assumes "q_inv N s" and "t < N" and "posting (sq s) (qpc s t) = Some v"
  shows "v < SEM_VALUE_MAX"
proof -
  have "q_size (sq s) \<le> INT_MAX" "q_counts N (sq s) (qpc s) (length (waiting s))"
    using assms(1) by (simp_all add: q_inv_def q_ring_def)
  then show ?thesis
    using assms(2,3) tally_ge [OF assms(2), of in_cs "qpc s"]
      tally_ge [OF assms(2), of item_held "qpc s"] tally_ge [OF assms(2), of slot_held "qpc s"]
    by (cases "qpc s t") (auto simp: q_counts_def SEM_VALUE_MAX_def INT_MAX_def)
qed

lemma q_work_goto:
  "t < N \<Longrightarrow> qpc s t \<noteq> Idle \<Longrightarrow> q_step N s (goto t c s1) \<Longrightarrow> qpc s1 = qpc s \<Longrightarrow>
     \<exists>s'. q_work N s s'"
  by (rule exI [of _ "goto t c s1"]) (auto simp: q_work_def goto_def)

lemma q_enabled:
  assumes "q_inv N s" and t: "t < N" and "qpc s t \<noteq> Idle" and "\<not> blocked (sq s) (qpc s t)"
  shows "\<exists>s'. q_work N s s'"
proof -
  note go = q_work_goto [OF t assms(3)]
  note post = q_post_ok [OF assms(1) t]
  have up: "sem_post_checked v = Ret (v + 1)" if "v < SEM_VALUE_MAX" for v
    using that by (simp add: sem_post_checked_def)
  have down: "sem_wait_checked [] v = Ret (v - 1)" if "v \<noteq> 0" for v using that by simp
  show ?thesis
  proof (cases "qpc s t")
    case (PFull x)
    with assms(4) show ?thesis by (intro go [OF q_step.push_full [OF t PFull down]]) simp_all
  next
    case (PMutex x)
    with assms(4) show ?thesis by (intro go [OF q_step.push_mutex [OF t PMutex down]]) simp_all
  next
    case (PStore x)
    show ?thesis by (rule go [OF q_step.push_store [OF t PStore]]) simp
  next
    case (PTail x)
    show ?thesis by (rule go [OF q_step.push_tail [OF t PTail]]) simp
  next
    case (PCount x)
    show ?thesis by (rule go [OF q_step.push_count [OF t PCount]]) simp
  next
    case (PPostMutex x)
    with post show ?thesis
      by (intro go [OF q_step.push_post_mutex [OF t PPostMutex up]]) simp_all
  next
    case (PPostEmpty x)
    with post show ?thesis
      by (intro go [OF q_step.push_post_empty [OF t PPostEmpty up]]) simp_all
  next
    case GEmpty
    with assms(4) show ?thesis by (intro go [OF q_step.pop_empty [OF t GEmpty down]]) simp_all
  next
    case GMutex
    with assms(4) show ?thesis by (intro go [OF q_step.pop_mutex [OF t GMutex down]]) simp_all
  next
    case GLoad
    show ?thesis by (rule go [OF q_step.pop_load [OF t GLoad]]) simp
  next
    case (GHead x)
    show ?thesis by (rule go [OF q_step.pop_head [OF t GHead]]) simp
  next
    case (GCount x)
    show ?thesis by (rule go [OF q_step.pop_count [OF t GCount]]) simp
  next
    case (GPostMutex x)
    with post show ?thesis
      by (intro go [OF q_step.pop_post_mutex [OF t GPostMutex up]]) simp_all
  next
    case (GPostFull x)
    with post show ?thesis
      by (intro go [OF q_step.pop_post_full [OF t GPostFull up]]) simp_all
  qed (use assms(3) in simp)
qed

lemma q_all_blocked:
  assumes "q_inv N s" and all: "\<forall>t < N. qpc s t = Idle \<or> blocked (sq s) (qpc s t)"
  shows "(\<forall>t < N. qpc s t = Idle
            \<or> (\<exists>x. qpc s t = PFull x) \<and> length (waiting s) = nat (q_size (sq s)))
       \<or> (\<forall>t < N. qpc s t = Idle \<or> qpc s t = GEmpty \<and> waiting s = [])"
proof -
  have cnt: "q_counts N (sq s) (qpc s) (length (waiting s))" and pos: "0 < q_size (sq s)"
    using assms(1) by (simp_all add: q_inv_def q_ring_def)
  have "tally N in_cs (qpc s) = 0"
    unfolding tally_zero using all by (metis blocked.simps in_cs.simps qpc.exhaust)
  with cnt have mu: "q_mutex (sq s) = 1" by (simp add: q_counts_def)
  have at: "qpc s t = Idle \<or> (\<exists>x. qpc s t = PFull x) \<and> q_full (sq s) = 0
      \<or> qpc s t = GEmpty \<and> q_empty (sq s) = 0" if "t < N" for t
    using all that mu by (cases "qpc s t") fastforce+
  have "tally N slot_held (qpc s) = 0" "tally N item_held (qpc s) = 0"
    unfolding tally_zero using at by fastforce+
  with cnt have "q_full (sq s) + length (waiting s) = nat (q_size (sq s))"
    "q_empty (sq s) = length (waiting s)" by (simp_all add: q_counts_def)
  with at pos show ?thesis by (cases "q_empty (sq s) = 0") fastforce+
qed

text \<open>
  C10: the queue never deadlocks and never aborts. In every reachable state a semaphore that is
  about to be posted is below its maximum; every step that starts no new call brings the calls in
  progress closer to their end (they have at most seven statements each to go), so they cannot run
  for ever; and when none of them can go on, they are all pushes waiting on a full queue, or all
  pops waiting on an empty one.
\<close>

theorem queue_progress:
  assumes "q_init s\<^sub>0" and "(q_step N)\<^sup>*\<^sup>* s\<^sub>0 s"
  shows "(\<forall>t < N. \<forall>v. posting (sq s) (qpc s t) = Some v \<longrightarrow> sem_post_checked v = Ret (v + 1))
    \<and> (\<forall>s'. q_work N s s' \<longrightarrow> tally N steps_left (qpc s') < tally N steps_left (qpc s))
    \<and> ((\<nexists>s'. q_work N s s') \<longrightarrow>
         (\<forall>t < N. qpc s t = Idle
            \<or> (\<exists>x. qpc s t = PFull x) \<and> length (waiting s) = nat (q_size (sq s)))
       \<or> (\<forall>t < N. qpc s t = Idle \<or> qpc s t = GEmpty \<and> waiting s = []))"
proof -
  have inv: "q_inv N s" using assms by (rule q_threads.reach_inv)
  have "(\<nexists>s'. q_work N s s') \<longrightarrow> (\<forall>t < N. qpc s t = Idle \<or> blocked (sq s) (qpc s t))"
    using q_enabled [OF inv] by blast
  then show ?thesis
    using q_post_ok [OF inv] q_all_blocked [OF inv] by (simp add: q_work_less sem_post_checked_def)
qed

theorem queue_progress_witness:
  "\<exists>s'. q_work 2 pushing_sys s'
     \<and> tally 2 steps_left (qpc s') < tally 2 steps_left (qpc pushing_sys)"
proof -
  have "q_inv 2 pushing_sys" using start_sys_init start_sys_run by (rule q_threads.reach_inv)
  then obtain s' where "q_work 2 pushing_sys s'"
    using q_enabled [of 2 pushing_sys 0]
    by (auto simp: pushing_sys_def goto_def start_sys_def sample_queue_eq)
  then show ?thesis using queue_progress [OF start_sys_init start_sys_run] by blast
qed

end
