(* ===== verification/Pool_Creation.thy ===== *)
theory Pool_Creation
  imports Thread_Pool
begin

text \<open>
  The loop of \<open>pthread_create\<close> calls in \<open>threadpool_new\<close> (\<open>src/threadpool.c\<close>) as it runs beside the
  workers it has already started, and its rollback, which pushes one sentinel per started worker
  and joins them before it frees the queue they wait on.
\<close>

section \<open>The loop beside the workers\<close>

text \<open>\<open>made\<close> is the loop variable: the number of workers that have been started.\<close>

record boot_sys =
  made :: nat
  psys :: pool_sys

text \<open>
  \<open>create_ok i\<close> says whether the \<open>i\<close>-th \<open>pthread_create\<close> succeeds. The rollback has the two loops of
  \<open>threadpool_destroy\<close>, with the number of started workers as their bound.
\<close>

inductive create_step :: "(nat \<Rightarrow> bool) \<Rightarrow> nat \<Rightarrow> boot_sys \<Rightarrow> boot_sys \<Rightarrow> bool"
  for create_ok :: "nat \<Rightarrow> bool" and n :: nat where
  created: "disp (psys b) = DRun \<Longrightarrow> made b < n \<Longrightarrow> create_ok (made b) \<Longrightarrow>
    create_step create_ok n b (b\<lparr>made := Suc (made b)\<rparr>)"
| failed: "disp (psys b) = DRun \<Longrightarrow> made b < n \<Longrightarrow> \<not> create_ok (made b) \<Longrightarrow>
    create_step create_ok n b (b\<lparr>psys := (psys b)\<lparr>disp := DStop 0\<rparr>\<rparr>)"
| rollback: "stopping (psys b) \<Longrightarrow> dispatcher_step (made b) (psys b) s \<Longrightarrow>
    create_step create_ok n b (b\<lparr>psys := s\<rparr>)"
| worker: "worker_step (made b) (psys b) s \<Longrightarrow> create_step create_ok n b (b\<lparr>psys := s\<rparr>)"

definition boot_init :: "boot_sys \<Rightarrow> bool" where
  "boot_init b \<longleftrightarrow> made b = 0 \<and> pool_init (psys b)"

text \<open>Until a creation fails the queue is empty and the workers wait on it; from then on the pool is
  shutting down with the workers made so far, and no connection was ever submitted.\<close>

definition boot_inv :: "(nat \<Rightarrow> bool) \<Rightarrow> nat \<Rightarrow> boot_sys \<Rightarrow> bool" where
  "boot_inv create_ok n b \<longleftrightarrow> made b \<le> n \<and> (\<forall>j < made b. create_ok j)
     \<and> (pool_init (psys b)
        \<or> stopping (psys b) \<and> pool_inv (made b) (psys b) \<and> 0 < queue_cap (pq (psys b))
          \<and> submitted (psys b) = [] \<and> made b < n \<and> \<not> create_ok (made b))"

lemma pool_init_facts:
  assumes "pool_init s"
  shows "disp s = DRun" "queue_wf (pq s)" "0 < queue_cap (pq s)" "submitted s = []" "\<not> stopping s"
  using assms by (auto simp: pool_init_def stopping_def queue_wf_def queue_cap_def)

lemma pool_init_waits: "pool_init s \<Longrightarrow> \<not> worker_step N s s'"
  by (auto simp: pool_init_def elim!: worker_step.cases dest: ring.get_law)

lemma pool_init_fails:
  assumes "pool_init s"
  shows "pool_inv N (s\<lparr>disp := DStop 0\<rparr>)"
  using pool_init_inv [OF assms, of N] pool_init_facts(1) [OF assms]
  by (auto simp: pool_inv_def pool_view_def)

lemma stopping_submitted: "pool_step N s s' \<Longrightarrow> stopping s \<Longrightarrow> submitted s' = submitted s"
  by (auto simp: pool_step_def stopping_def elim!: dispatcher_step.cases worker_step.cases)

lemma pool_inv_wf: "pool_inv N s \<Longrightarrow> queue_wf (pq s)"
  by (auto simp: pool_inv_def pool_view_def)

text \<open>A step of the pool in the rollback, whoever takes it.\<close>

lemma rollback_inv:
  assumes "boot_inv ok n b" and "stopping (psys b)" and "pool_step (made b) (psys b) s"
  shows "boot_inv ok n (b\<lparr>psys := s\<rparr>)"
proof -
  have inv: "pool_inv (made b) (psys b)" "0 < queue_cap (pq (psys b))" "submitted (psys b) = []"
    "made b < n" "\<not> ok (made b)" "\<forall>j < made b. ok j"
    using assms(1,2) pool_init_facts(5) by (auto simp: boot_inv_def)
  note wf = pool_inv_wf [OF inv(1)]
  have "stopping s" using shutdown_step [OF assms(3) wf assms(2)] by simp
  with inv pool_step_inv [OF assms(3)] pool_step_cap [OF assms(3) wf]
    stopping_submitted [OF assms(3,2)] show ?thesis
    by (auto simp: boot_inv_def)
qed

lemma create_step_inv: "create_step ok n b b' \<Longrightarrow> boot_inv ok n b \<Longrightarrow> boot_inv ok n b'"
proof (induction rule: create_step.induct)
  case (created b)
  then show ?case by (auto simp: boot_inv_def stopping_def less_Suc_eq)
next
  case (failed b)
  then have i: "pool_init (psys b)" by (auto simp: boot_inv_def stopping_def)
  with failed pool_init_facts [OF i] pool_init_fails [OF i] show ?case
    by (auto simp: boot_inv_def stopping_def)
next
  case (rollback b s)
  then show ?case by (blast intro: rollback_inv pool_step_dispatcher)
next
  case (worker b s)
  then have "stopping (psys b)" using pool_init_waits by (auto simp: boot_inv_def)
  with worker show ?case by (blast intro: rollback_inv pool_step_worker)
qed

lemma boot_init_inv: "boot_init b \<Longrightarrow> boot_inv ok n b"
  by (simp add: boot_init_def boot_inv_def)

interpretation booting: invariant_system boot_init "create_step ok n" "boot_inv ok n" for ok n
  by unfold_locales (auto intro: boot_init_inv create_step_inv)

section \<open>The loop ends\<close>

definition boot_left :: "nat \<Rightarrow> boot_sys \<Rightarrow> nat" where
  "boot_left n b = (if disp (psys b) = DRun then 9 * n + 3 - made b
     else shutdown_left (made b) (psys b))"

lemma pool_init_left: "pool_init s \<Longrightarrow> shutdown_left N (s\<lparr>disp := DStop 0\<rparr>) = 7 * N + 2"
  by (simp add: pool_init_def shutdown_left_def tally_def)

lemma create_step_left:
  assumes "create_step ok n b b'" and "boot_inv ok n b"
  shows "boot_left n b' < boot_left n b"
  using assms
proof (induction rule: create_step.induct)
  case (failed b)
  then have "pool_init (psys b)" by (auto simp: boot_inv_def stopping_def)
  with failed pool_init_left [of "psys b" "made b"] show ?case by (simp add: boot_left_def)
next
  case (rollback b s)
  then have "queue_wf (pq (psys b))" "disp (psys b) \<noteq> DRun"
    using pool_inv_wf by (auto simp: boot_inv_def pool_init_def stopping_def)
  with rollback shutdown_dispatcher [of "made b" "psys b" s] show ?case
    by (auto simp: boot_left_def stopping_def)
next
  case (worker b s)
  then have "stopping (psys b)" "queue_wf (pq (psys b))"
    using pool_init_waits pool_inv_wf by (auto simp: boot_inv_def)
  with worker shutdown_worker [of "made b" "psys b" s] show ?case
    by (auto simp: boot_left_def stopping_def)
qed (simp add: boot_left_def)

lemma create_loop_result:
  assumes "m \<le> n" and "\<forall>j < m. ok j" and "m < n \<longrightarrow> \<not> ok m"
  shows "create_loop ok 0 n = (if m < n then Inl m else Inr n)"
  using create_loop_cases [of 0 n ok] assms
  by (auto split: sum.splits) (meson linorder_neqE_nat order_less_trans)+

lemma create_stuck:
  assumes inv: "boot_inv ok n b" and stuck: "\<nexists>b'. create_step ok n b b'"
  shows "pool_init (psys b) \<and> made b = n \<or> disp (psys b) = DDone \<and> made b < n \<and> \<not> ok (made b)"
proof (cases "stopping (psys b)")
  case False
  with inv have i: "pool_init (psys b)" by (auto simp: boot_inv_def)
  from stuck pool_init_facts(1) [OF i] have "\<not> made b < n"
    by (meson create_step.created create_step.failed)
  with i inv show ?thesis by (auto simp: boot_inv_def)
next
  case True
  with inv pool_init_facts(5) obtain fds k where v: "pool_view (made b) (psys b) fds k"
    and rest: "0 < queue_cap (pq (psys b))" "made b < n" "\<not> ok (made b)"
    by (auto simp: boot_inv_def pool_inv_def)
  have "\<nexists>s. pool_step (made b) (psys b) s"
    using stuck True by (auto simp: pool_step_def intro: create_step.rollback create_step.worker)
  with pool_enabled [OF v rest(1)] True rest(2,3) show ?thesis by blast
qed

section \<open>Property\<close>

text \<open>
  C13: creating the workers ends, whatever the creations do and however the started workers run
  beside the loop. Every step brings \<open>threadpool_new\<close> closer to its return, and where nothing can
  happen any more it has returned: either every worker was created and waits on the empty queue, or
  the first creation that failed was that of worker \<open>i\<close>, the \<open>i\<close> workers before it have been
  stopped and joined, and the queue that is freed is empty and has no user left. Both are what the
  sequential summary of the loop says.
\<close>

theorem pool_creation_terminates:
  assumes "boot_init b\<^sub>0" and "(create_step create_ok n)\<^sup>*\<^sup>* b\<^sub>0 b"
  shows "(\<forall>b'. create_step create_ok n b b' \<longrightarrow> boot_left n b' < boot_left n b)
    \<and> ((\<nexists>b'. create_step create_ok n b b') \<longrightarrow>
        (case create_loop create_ok 0 n of
           Inr i \<Rightarrow> made b = i \<and> pool_init (psys b)
         | Inl i \<Rightarrow> made b = i \<and> disp (psys b) = DDone \<and> queue_items (pq (psys b)) = []
             \<and> (\<forall>t < i. wpcs (psys b) t = WDone)))"
proof (intro conjI allI impI)
  have inv: "boot_inv create_ok n b" using assms by (rule booting.reach_inv)
  show "boot_left n b' < boot_left n b" if "create_step create_ok n b b'" for b'
    using that inv by (rule create_step_left)
  assume stuck: "\<nexists>b'. create_step create_ok n b b'"
  have loop: "create_loop create_ok 0 n = (if made b < n then Inl (made b) else Inr n)"
    using create_loop_result [of "made b" n create_ok] inv create_stuck [OF inv stuck]
    by (auto simp: boot_inv_def)
  from create_stuck [OF inv stuck] show "case create_loop create_ok 0 n of
      Inr i \<Rightarrow> made b = i \<and> pool_init (psys b)
    | Inl i \<Rightarrow> made b = i \<and> disp (psys b) = DDone \<and> queue_items (pq (psys b)) = []
        \<and> (\<forall>t < i. wpcs (psys b) t = WDone)"
  proof
    assume d: "disp (psys b) = DDone \<and> made b < n \<and> \<not> create_ok (made b)"
    then obtain fds k where v: "pool_view (made b) (psys b) fds k" and "submitted (psys b) = []"
      using inv pool_init_facts(1) by (force simp: boot_inv_def pool_inv_def)
    with all_joined [OF v] d loop show ?thesis by (auto simp: pool_view_def)
  qed (simp add: loop)
qed

theorem pool_creation_terminates_witness:
  "\<exists>b'. create_step (\<lambda>_. False) 1 \<lparr>made = 0, psys = idle_pool\<rparr> b'
     \<and> boot_left 1 b' < boot_left 1 \<lparr>made = 0, psys = idle_pool\<rparr>"
proof -
  let ?b = "\<lparr>made = 0, psys = idle_pool\<rparr> :: boot_sys"
  have init: "boot_init ?b" by (simp add: boot_init_def idle_pool_init)
  have "create_step (\<lambda>_. False) 1 ?b (?b\<lparr>psys := (psys ?b)\<lparr>disp := DStop 0\<rparr>\<rparr>)"
    by (rule create_step.failed) (simp_all add: idle_pool_def)
  with pool_creation_terminates [OF init rtranclp.rtrancl_refl, of "\<lambda>_. False" 1] show ?thesis
    by blast
qed

end
