(* ===== verification/Starter.thy ===== *)
theory Starter
  imports Server_Refinement Opt_Parse
begin

text \<open>
  The template \<open>practica/asgn4-starter/httpserver.c\<close> that the server grew out of: a single-threaded
  server without locks and audit log, whose GET is still to be written. It is linked with a library
  of which the repository has only the headers; the library is a parameter here. With the
  repository's own \<open>src/connection.c\<close> in its place the template can be compared with the server.
\<close>

section \<open>The template\<close>

text \<open>The functions of the library that the template calls, on a connection object of any type.\<close>

record 'c helper_lib =
  h_new :: "int \<Rightarrow> 'c"
  h_parse :: "'c \<Rightarrow> Response option \<times> 'c"
  h_request :: "'c \<Rightarrow> Request"
  h_uri :: "'c \<Rightarrow> bytes"
  h_recv :: "'c \<Rightarrow> ostream \<Rightarrow> Response option \<times> 'c \<times> ostream"
  h_send :: "'c \<Rightarrow> Response \<Rightarrow> 'c"

text \<open>\<open>open(uri, O_CREAT | O_TRUNC | O_WRONLY, 0600)\<close>.\<close>

definition sys_open_trunc :: "kenv \<Rightarrow> bytes \<Rightarrow> world \<Rightarrow> (errno + fnode) \<times> world" where
  "sys_open_trunc env u w =
     (case sys_open_creat env u w of
        (Inl e, w') \<Rightarrow> (Inl e, w')
      | (Inr (Regular d rd wr), w') \<Rightarrow>
          (Inr (Regular [] rd wr), record_ev (EvTrunc u) (set_file u (Regular [] rd wr) w'))
      | (Inr Directory, w') \<Rightarrow> (Inr Directory, w'))"

definition send_to :: "'c helper_lib \<Rightarrow> 'c \<Rightarrow> Response \<Rightarrow> world \<Rightarrow> 'c \<times> world" where
  "send_to lib c res w = (h_send lib c res, record_ev (EvSend res) w)"

text \<open>\<open>handle_get\<close> reads the URI for a debug message and returns.\<close>

definition starter_handle_get :: "'c helper_lib \<Rightarrow> 'c \<Rightarrow> world \<Rightarrow> 'c \<times> world" where
  "starter_handle_get lib c w = (c, w)"

definition starter_handle_unsupported :: "'c helper_lib \<Rightarrow> 'c \<Rightarrow> world \<Rightarrow> 'c \<times> world" where
  "starter_handle_unsupported lib c w = send_to lib c RESPONSE_NOT_IMPLEMENTED w"

definition starter_handle_put :: "'c helper_lib \<Rightarrow> kenv \<Rightarrow> 'c \<Rightarrow> world \<Rightarrow> 'c \<times> world" where
  "starter_handle_put lib env c w =
     (let u = h_uri lib c;
          existed = (file_at w u \<noteq> None);
          w1 = record_ev (EvAccess u) w
      in case sys_open_trunc env u w1 of
           (Inl e, w2) \<Rightarrow>
             let res = (if e = EACCES \<or> e = EISDIR \<or> e = ENOENT then RESPONSE_FORBIDDEN
                        else RESPONSE_INTERNAL_SERVER_ERROR)
             in send_to lib c res w2
         | (Inr node, w2) \<Rightarrow>
             let (rd, wr) = (case node of Regular _ rd wr \<Rightarrow> (rd, wr) | Directory \<Rightarrow> (True, True));
                 (r, c1, fd) = h_recv lib c \<lparr>odata = [], osched = k_wsched env\<rparr>;
                 w3 = record_ev (EvWrite u) (set_file u (Regular (odata fd) rd wr) w2);
                 res = (case r of Some x \<Rightarrow> x
                        | None \<Rightarrow> if existed then RESPONSE_OK else RESPONSE_CREATED)
             in send_to lib c1 res (sys_close u w3))"

definition starter_handle_connection :: "'c helper_lib \<Rightarrow> kenv \<Rightarrow> int \<Rightarrow> world \<Rightarrow> 'c \<times> world" where
  "starter_handle_connection lib env connfd w =
     (case h_parse lib (h_new lib connfd) of
        (Some res, c) \<Rightarrow> send_to lib c res w
      | (None, c) \<Rightarrow>
          if h_request lib c = REQUEST_GET then starter_handle_get lib c w
          else if h_request lib c = REQUEST_PUT then starter_handle_put lib env c w
          else starter_handle_unsupported lib c w)"

text \<open>One turn of the loop of \<open>main\<close>: what \<open>listener_accept\<close> returned is handled and closed, be it a
  descriptor or not.\<close>

definition starter_turn :: "'c helper_lib \<Rightarrow> kenv \<Rightarrow> int \<Rightarrow> world \<Rightarrow> 'c \<times> world" where
  "starter_turn lib env connfd w =
     (let (c, w1) = starter_handle_connection lib env connfd w
      in (c, if connfd < 0 then w1 else close_conn w1))"

text \<open>\<open>main\<close> before the loop: \<open>None\<close> where it returns \<open>EXIT_FAILURE\<close>, otherwise the port that is
  handed to \<open>listener_init\<close>, whose result is ignored. The rest of a number is where \<open>strtol\<close> and
  \<open>strtoull\<close> stop alike; \<open>size_t\<close> is converted to the \<open>int\<close> of the parameter.\<close>

definition starter_main :: "bytes list \<Rightarrow> int option" where
  "starter_main argv =
     (if length argv < 2 then None
      else let (_, _, endptr) = strtol10 (argv ! 1)
           in if endptr \<noteq> [] then None
              else Some (sint (ucast (strtoull10 (argv ! 1)) :: 32 word)))"

section \<open>The template with the server's connections\<close>

definition src_lib :: "kenv \<Rightarrow> istream \<Rightarrow> ostream \<Rightarrow> conn helper_lib" where
  "src_lib env sin sout = \<lparr>h_new = (\<lambda>_. the (conn_new True sin sout)),
     h_parse = conn_parse (k_regcomp_line env) (k_regcomp_header env),
     h_request = conn_get_request, h_uri = conn_get_uri, h_recv = conn_recv_file,
     h_send = (\<lambda>c res. snd (conn_send_response c res))\<rparr>"

lemma src_lib_simps [simp]:
  "h_parse (src_lib env sin sout) = conn_parse (k_regcomp_line env) (k_regcomp_header env)"
  "h_request (src_lib env sin sout) = conn_get_request" "h_uri (src_lib env sin sout) = conn_get_uri"
  "h_recv (src_lib env sin sout) = conn_recv_file"
  "h_send (src_lib env sin sout) c res = snd (conn_send_response c res)"
  by (simp_all add: src_lib_def)

lemma send_response_eq: "snd (conn_send_response c res) = c\<lparr>sock_out := resp_out c res\<rparr>"
  using respond_eq [of c res undefined] by (simp add: respond_def Let_def)

text \<open>What a client and the file system see of a handler.\<close>

definition same_effect :: "conn \<times> world \<Rightarrow> conn \<times> world \<Rightarrow> bool" where
  "same_effect a b \<longleftrightarrow> fst a = fst b \<and> files (snd a) = files (snd b) \<and> open_fds (snd a) = open_fds (snd b)"

lemma starter_put_same:
  assumes "locks_ok env" and "k_ftruncate env"
  shows "same_effect (starter_handle_put (src_lib env sin sout) env c w) (handle_put env c w)"
proof -
  obtain si fd where rf: "conn_recv_file c \<lparr>odata = [], osched = k_wsched env\<rparr>
      = (recv_result c env, c\<lparr>sock_in := si\<rparr>, fd)" "odata fd = recv_data c env"
    using recv_file_eq by blast
  have "conn_get_uri (c\<lparr>sock_in := si\<rparr>) = conn_get_uri c" by (simp add: conn_get_uri_def)
  then show ?thesis
    using assms
    by (auto simp: same_effect_def starter_handle_put_def send_to_def send_response_eq
        sys_open_trunc_def handle_put_def put_into_def uri_lock_def locks_ok_def respond_eq
        put_open_error_def sys_defs rf audited_def Let_def split: option.splits fnode.splits)
qed

lemma starter_unsupported_same:
  "same_effect (starter_handle_unsupported (src_lib env sin sout) c w) (handle_unsupported c w)"
  by (simp add: same_effect_def starter_handle_unsupported_def send_to_def send_response_eq
      handle_unsupported_def respond_eq record_ev_def)

text \<open>
  C38: linked with \<open>src/connection.c\<close>, and as long as no lock and no truncation fails, the template
  and the server do the same for every PUT and every unsupported method: the same bytes to the
  client, the same files and no descriptor left open. They differ where the server was changed on
  purpose: the template leaves a GET unanswered, answers 400 to a client that sends nothing where
  the server closes silently, and answers 505 where the server lets 501 take precedence.
\<close>

theorem starter_equivalence:
  assumes "locks_ok env" and "k_ftruncate env" and "k_alloc env" and "0 \<le> connfd"
  shows "case (starter_turn (src_lib env sin sout) env connfd w, handle_connection env sin sout w,
      conn_parse (k_regcomp_line env) (k_regcomp_header env) (the (conn_new True sin sout))) of
    ((c, w1), (out, w2), (r, c')) \<Rightarrow>
      open_fds w1 = open_fds w - 1 \<and> open_fds w2 = open_fds w - 1 \<and> files w1 = files w2
      \<and> (case r of
           None \<Rightarrow> sock_out c = (if conn_get_request c' = REQUEST_GET then sout else out)
         | Some res \<Rightarrow> sock_out c = resp_out c' res \<and> files w1 = files w
             \<and> out = (if conn_is_empty c' then sout else resp_out c' (parse_status res c')))"
proof -
  obtain c0 where new: "conn_new True sin sout = Some c0" by (simp add: conn_new_def)
  obtain r c' where cp: "conn_parse (k_regcomp_line env) (k_regcomp_header env) c0 = (r, c')" by fastforce
  have alloc: "conn_new (k_alloc env) sin sout = Some c0" using new assms(3) by simp
  note hc = handle_connection_cases [OF alloc cp, of w]
  have out: "sock_out c' = sout"
    using conn_parse_step_wf [of c0 "k_regcomp_line env" "k_regcomp_header env"]
      conn_new_fresh [OF new] cp by (cases r) auto
  have fds: "open_fds (snd (dispatch env c' w)) = open_fds w"
    using dispatch_disciplined [of c' w env] by (auto simp: disciplined_def handled_def)
  have turn: "starter_turn (src_lib env sin sout) env connfd w =
    (case r of
       Some res \<Rightarrow> (c'\<lparr>sock_out := resp_out c' res\<rparr>, close_conn (record_ev (EvSend res) w))
     | None \<Rightarrow>
         let a = (if conn_get_request c' = REQUEST_GET then (c', w)
                  else if conn_get_request c' = REQUEST_PUT
                  then starter_handle_put (src_lib env sin sout) env c' w
                  else starter_handle_unsupported (src_lib env sin sout) c' w)
         in (fst a, close_conn (snd a)))"
    using cp new assms(4)
    by (auto simp: starter_turn_def starter_handle_connection_def starter_handle_get_def src_lib_def
        send_to_def send_response_eq split_beta Let_def split: option.splits)
  show ?thesis
  proof (cases r)
    case (Some res)
    with hc turn cp new out show ?thesis
      by (auto simp: close_conn_def record_ev_def respond_eq)
  next
    case None
    with hc turn cp new out fds starter_put_same [OF assms(1,2), of sin sout c' w]
      starter_unsupported_same [of env sin sout c' w] handle_get_files [of env c' w]
    show ?thesis
      by (auto simp: close_conn_def dispatch_def same_effect_def Let_def split: if_splits)
  qed
qed

theorem starter_equivalence_witness:
  "files (snd (starter_turn (src_lib calm_env sample_input no_out) calm_env 4 empty_world)) ''a.txt''
     = Some (Regular ''hi'' True True)"
proof -
  have env: "locks_ok calm_env" "k_ftruncate calm_env" "k_alloc calm_env"
    using calm_env_benign benign_locks by (auto simp: benign_def)
  have "files (snd (handle_connection calm_env sample_input no_out empty_world)) ''a.txt''
      = Some (Regular ''hi'' True True)"
    using connection_implements [OF calm_env_benign empty_world_small sample_input_wf no_out_calm]
    by (auto simp: empty_world_def method_of_def split: prod.splits)
  with starter_equivalence [OF env, where connfd = 4 and sin = sample_input and sout = no_out
      and w = empty_world] show ?thesis
    by (auto split: prod.splits)
qed

end
