(* ===== verification/Rwlock.thy ===== *)
theory Rwlock
  imports Http_Prelude
begin

text \<open>
  The reader-writer lock of \<open>practica/pthreads/rwlock\<close>: the monitor of \<open>rwlock.c\<close>, the three
  policies that can be linked to it and the threads of \<open>user.c\<close> that use it. A thread's
  location says which statement comes next; the mutex, the condition variables and spurious
  wake-ups are explicit, so the steps of the threads interleave as they do under pthreads.
\<close>

section \<open>The lock\<close>

record rwlock =
  areaders :: int
  awriters :: int
  wreaders :: int
  wwriters :: int

definition rwlock_new :: rwlock where
  "rwlock_new = \<lparr>areaders = 0, awriters = 0, wreaders = 0, wwriters = 0\<rparr>"

text \<open>The object file that is linked in decides.\<close>

datatype policy = Policy_none | Policy_rstarve | Policy_wstarve

fun reader_wait :: "policy \<Rightarrow> rwlock \<Rightarrow> bool" where
  "reader_wait Policy_none rw = False"
| "reader_wait Policy_rstarve rw = (awriters rw \<noteq> 0 \<or> wwriters rw \<noteq> 0)"
| "reader_wait Policy_wstarve rw = (awriters rw \<noteq> 0)"

fun writer_wait :: "policy \<Rightarrow> rwlock \<Rightarrow> bool" where
  "writer_wait Policy_none rw = False"
| "writer_wait Policy_rstarve rw = (awriters rw \<noteq> 0 \<or> areaders rw \<noteq> 0)"
| "writer_wait Policy_wstarve rw = (awriters rw \<noteq> 0 \<or> areaders rw \<noteq> 0)"

section \<open>The threads\<close>

datatype role = Reader | Writer

text \<open>
  The locations, in program order: the loop head of a user thread; in \<open>read_lock\<close> or \<open>write_lock\<close>
  the calls and assignments up to the return; the use of the lock; in \<open>read_unlock\<close> or
  \<open>write_unlock\<close> the same; and the end of the thread.
\<close>

datatype rpc =
    Top | Call | Want | Test | Asleep | Woken | Pass | Admit | Release
  | Inside | Busy | Leave | WakeR | WakeW | Unlock | Exited

record rw_sys =
  rw :: rwlock
  mu :: "nat option"
  pcs :: "nat \<Rightarrow> rpc"
  counts :: "nat \<Rightarrow> int"
  quit :: bool

definition add_waiting :: "role \<Rightarrow> int \<Rightarrow> rwlock \<Rightarrow> rwlock" where
  "add_waiting r d l =
     (case r of Reader \<Rightarrow> l\<lparr>wreaders := wreaders l + d\<rparr> | Writer \<Rightarrow> l\<lparr>wwriters := wwriters l + d\<rparr>)"

definition add_active :: "role \<Rightarrow> int \<Rightarrow> rwlock \<Rightarrow> rwlock" where
  "add_active r d l =
     (case r of Reader \<Rightarrow> l\<lparr>areaders := areaders l + d\<rparr> | Writer \<Rightarrow> l\<lparr>awriters := awriters l + d\<rparr>)"

definition must_wait :: "policy \<Rightarrow> role \<Rightarrow> rwlock \<Rightarrow> bool" where
  "must_wait pol r l = (case r of Reader \<Rightarrow> reader_wait pol l | Writer \<Rightarrow> writer_wait pol l)"

text \<open>\<open>pthread_cond_broadcast\<close> on the condition variable of a role.\<close>

definition broadcast :: "(nat \<Rightarrow> role) \<Rightarrow> role \<Rightarrow> (nat \<Rightarrow> rpc) \<Rightarrow> nat \<Rightarrow> rpc" where
  "broadcast role r p = (\<lambda>t. if role t = r \<and> p t = Asleep then Woken else p t)"

definition at :: "nat \<Rightarrow> rpc \<Rightarrow> rw_sys \<Rightarrow> rw_sys" where
  "at t c s = s\<lparr>pcs := (pcs s)(t := c)\<rparr>"

text \<open>\<open>read_lock\<close> or \<open>write_lock\<close>, by the role of the thread.\<close>

inductive lock_step :: "policy \<Rightarrow> nat \<Rightarrow> (nat \<Rightarrow> role) \<Rightarrow> rw_sys \<Rightarrow> rw_sys \<Rightarrow> bool"
  for pol :: policy and N :: nat and role :: "nat \<Rightarrow> role" where
  lock_mu: "t < N \<Longrightarrow> pcs s t = Call \<Longrightarrow> mu s = None \<Longrightarrow>
    lock_step pol N role s (at t Want (s\<lparr>mu := Some t\<rparr>))"
| want: "t < N \<Longrightarrow> pcs s t = Want \<Longrightarrow>
    lock_step pol N role s (at t Test (s\<lparr>rw := add_waiting (role t) 1 (rw s)\<rparr>))"
| sleeps: "t < N \<Longrightarrow> pcs s t = Test \<Longrightarrow> must_wait pol (role t) (rw s) \<Longrightarrow>
    lock_step pol N role s (at t Asleep (s\<lparr>mu := None\<rparr>))"
| rewakes: "t < N \<Longrightarrow> pcs s t = Woken \<Longrightarrow> mu s = None \<Longrightarrow>
    lock_step pol N role s (at t Test (s\<lparr>mu := Some t\<rparr>))"
| passes: "t < N \<Longrightarrow> pcs s t = Test \<Longrightarrow> \<not> must_wait pol (role t) (rw s) \<Longrightarrow>
    lock_step pol N role s (at t Pass s)"
| unwant: "t < N \<Longrightarrow> pcs s t = Pass \<Longrightarrow>
    lock_step pol N role s (at t Admit (s\<lparr>rw := add_waiting (role t) (- 1) (rw s)\<rparr>))"
| admits: "t < N \<Longrightarrow> pcs s t = Admit \<Longrightarrow>
    lock_step pol N role s (at t Release (s\<lparr>rw := add_active (role t) 1 (rw s)\<rparr>))"
| unlock_mu: "t < N \<Longrightarrow> pcs s t = Release \<Longrightarrow>
    lock_step pol N role s (at t Inside (s\<lparr>mu := None\<rparr>))"

text \<open>\<open>read_unlock\<close> or \<open>write_unlock\<close>, with \<open>rwlock_wakeup\<close>.\<close>

inductive unlock_step :: "nat \<Rightarrow> (nat \<Rightarrow> role) \<Rightarrow> rw_sys \<Rightarrow> rw_sys \<Rightarrow> bool"
  for N :: nat and role :: "nat \<Rightarrow> role" where
  relock: "t < N \<Longrightarrow> pcs s t = Busy \<Longrightarrow> mu s = None \<Longrightarrow>
    unlock_step N role s (at t Leave (s\<lparr>mu := Some t\<rparr>))"
| leaves: "t < N \<Longrightarrow> pcs s t = Leave \<Longrightarrow>
    unlock_step N role s (at t WakeR (s\<lparr>rw := add_active (role t) (- 1) (rw s)\<rparr>))"
| wake_readers: "t < N \<Longrightarrow> pcs s t = WakeR \<Longrightarrow>
    unlock_step N role s (at t WakeW
      (if wreaders (rw s) \<noteq> 0 then s\<lparr>pcs := broadcast role Reader (pcs s)\<rparr> else s))"
| wake_writers: "t < N \<Longrightarrow> pcs s t = WakeW \<Longrightarrow>
    unlock_step N role s (at t Unlock
      (if wwriters (rw s) \<noteq> 0 then s\<lparr>pcs := broadcast role Writer (pcs s)\<rparr> else s))"
| unlocks: "t < N \<Longrightarrow> pcs s t = Unlock \<Longrightarrow>
    unlock_step N role s (at t Top (s\<lparr>mu := None\<rparr>))"

text \<open>The loop of \<open>reader_thread\<close> and \<open>writer_thread\<close> around the two calls.\<close>

inductive user_step :: "nat \<Rightarrow> rw_sys \<Rightarrow> rw_sys \<Rightarrow> bool" for N :: nat where
  again: "t < N \<Longrightarrow> pcs s t = Top \<Longrightarrow> \<not> quit s \<Longrightarrow> user_step N s (at t Call s)"
| exits: "t < N \<Longrightarrow> pcs s t = Top \<Longrightarrow> quit s \<Longrightarrow> user_step N s (at t Exited s)"
| tallies: "t < N \<Longrightarrow> pcs s t = Inside \<Longrightarrow>
    user_step N s (at t Busy (s\<lparr>counts := (counts s)(t := counts s t + 1)\<rparr>))"

text \<open>What is not a thread's own step: a spurious wake-up, and \<open>set_done\<close> by the main thread.\<close>

inductive ambient_step :: "nat \<Rightarrow> rw_sys \<Rightarrow> rw_sys \<Rightarrow> bool" for N :: nat where
  spurious: "t < N \<Longrightarrow> pcs s t = Asleep \<Longrightarrow> ambient_step N s (at t Woken s)"
| set_done: "ambient_step N s (s\<lparr>quit := True\<rparr>)"

definition thread_step :: "policy \<Rightarrow> nat \<Rightarrow> (nat \<Rightarrow> role) \<Rightarrow> rw_sys \<Rightarrow> rw_sys \<Rightarrow> bool" where
  "thread_step pol N role s s' \<longleftrightarrow>
     lock_step pol N role s s' \<or> unlock_step N role s s' \<or> user_step N s s'"

definition rw_step :: "policy \<Rightarrow> nat \<Rightarrow> (nat \<Rightarrow> role) \<Rightarrow> rw_sys \<Rightarrow> rw_sys \<Rightarrow> bool" where
  "rw_step pol N role s s' \<longleftrightarrow> thread_step pol N role s s' \<or> ambient_step N s s'"

text \<open>The assertions of \<open>rwlock_destroy\<close>: the mutex is not locked and nobody waits on a condition.\<close>

definition rwlock_destroy :: "nat \<Rightarrow> rw_sys \<Rightarrow> bool" where
  "rwlock_destroy N s \<longleftrightarrow> mu s = None \<and> (\<forall>t < N. pcs s t \<noteq> Asleep)"

definition rw_init :: "rw_sys \<Rightarrow> bool" where
  "rw_init s \<longleftrightarrow> rw s = rwlock_new \<and> mu s = None \<and> (\<forall>t. pcs s t = Top) \<and> (\<forall>t. counts s t = 0)
     \<and> \<not> quit s"

section \<open>Counting threads\<close>

definition head_count :: "nat \<Rightarrow> (nat \<Rightarrow> role) \<Rightarrow> role \<Rightarrow> rpc set \<Rightarrow> (nat \<Rightarrow> rpc) \<Rightarrow> int" where
  "head_count N role r L p = int (card {t. t < N \<and> role t = r \<and> p t \<in> L})"

lemma head_count_sum:
  "head_count N role r L p = (\<Sum>t\<in>{..<N}. of_bool (role t = r \<and> p t \<in> L))"
proof -
  have "{t. t < N \<and> role t = r \<and> p t \<in> L} = {..<N} \<inter> {t. role t = r \<and> p t \<in> L}" by auto
  then show ?thesis by (simp add: head_count_def of_bool_def sum.If_cases)
qed

lemma head_count_upd:
  assumes "t < N"
  shows "head_count N role r L (p(t := c)) =
    head_count N role r L p - of_bool (role t = r \<and> p t \<in> L) + of_bool (role t = r \<and> c \<in> L)"
proof -
  let ?g = "\<lambda>(x, l). of_bool (role x = r \<and> l \<in> L) :: int" and ?q = "\<lambda>x. (x, p x)"
  have "(\<Sum>x\<in>{..<N}. ?g ((?q(t := (t, c))) x)) = head_count N role r L (p(t := c))"
    unfolding head_count_sum by (intro sum.cong) auto
  moreover have "(\<Sum>x\<in>{..<N}. ?g (?q x)) = head_count N role r L p" by (simp add: head_count_sum)
  ultimately show ?thesis using sum_fun_upd [of "{..<N}" t ?g ?q "(t, c)"] assms by simp
qed

lemma head_count_broadcast:
  "Asleep \<in> L \<longleftrightarrow> Woken \<in> L \<Longrightarrow>
     head_count N role r L (broadcast role r' p) = head_count N role r L p"
  unfolding head_count_def broadcast_def by (auto intro!: arg_cong [where f = card])

lemma head_count_nonneg: "0 \<le> head_count N role r L p"
  by (simp add: head_count_def)

lemma head_count_zero: "head_count N role r L p = 0 \<longleftrightarrow> (\<forall>t < N. role t = r \<longrightarrow> p t \<notin> L)"
  by (auto simp: head_count_def card_eq_0_iff)

lemma head_count_one:
  assumes "head_count N role r L p \<le> 1" and "t < N" "u < N"
    and "role t = r" "role u = r" "p t \<in> L" "p u \<in> L"
  shows "t = u"
proof -
  let ?A = "{t. t < N \<and> role t = r \<and> p t \<in> L}"
  have "card ?A \<le> 1" using assms(1) by (simp add: head_count_def)
  moreover have mem: "t \<in> ?A" "u \<in> ?A" and fin: "finite ?A" using assms by auto
  ultimately have "\<forall>x\<in>?A. \<forall>y\<in>?A. x = y" using card_le_Suc0_iff_eq [OF fin] by simp
  with mem show ?thesis by blast
qed

definition holds_mu :: "rpc set" where
  "holds_mu = {Want, Test, Pass, Admit, Release, Leave, WakeR, WakeW, Unlock}"

definition active :: "rpc set" where
  "active = {Release, Inside, Busy, Leave}"

definition waiting :: "rpc set" where
  "waiting = {Test, Asleep, Woken, Pass}"

lemmas loc_defs = holds_mu_def active_def waiting_def

lemma broadcast_apply:
  "broadcast role r p t = (if role t = r \<and> p t = Asleep then Woken else p t)"
  by (simp add: broadcast_def)

section \<open>The monitor\<close>

text \<open>The mutex has one owner, and the four counters of the lock are exact.\<close>

definition mu_ok :: "nat \<Rightarrow> rw_sys \<Rightarrow> bool" where
  "mu_ok N s \<longleftrightarrow> (\<forall>t < N. mu s = Some t \<longleftrightarrow> pcs s t \<in> holds_mu) \<and> (\<forall>t. mu s = Some t \<longrightarrow> t < N)"

definition counters_ok :: "nat \<Rightarrow> (nat \<Rightarrow> role) \<Rightarrow> rw_sys \<Rightarrow> bool" where
  "counters_ok N role s \<longleftrightarrow>
     areaders (rw s) = head_count N role Reader active (pcs s)
     \<and> awriters (rw s) = head_count N role Writer active (pcs s)
     \<and> wreaders (rw s) = head_count N role Reader waiting (pcs s)
     \<and> wwriters (rw s) = head_count N role Writer waiting (pcs s)"

lemma mu_ok_at:
  assumes "mu_ok N s" and "t < N" and "mu s' = Some t \<longleftrightarrow> c \<in> holds_mu"
    and "mu s' = mu s \<or> mu s = None \<and> mu s' = Some t \<or> mu s = Some t \<and> mu s' = None"
    and "\<forall>u. u \<noteq> t \<longrightarrow> (pcs s' u \<in> holds_mu \<longleftrightarrow> pcs s u \<in> holds_mu)"
  shows "mu_ok N (at t c s')"
  using assms unfolding mu_ok_def at_def by (auto, metis option.inject)

lemma mu_owner: "mu_ok N s \<Longrightarrow> t < N \<Longrightarrow> pcs s t \<in> holds_mu \<Longrightarrow> mu s = Some t"
  by (simp add: mu_ok_def)

lemma lock_step_mu: "lock_step pol N role s s' \<Longrightarrow> mu_ok N s \<Longrightarrow> mu_ok N s'"
  by (induction rule: lock_step.induct)
    ((rule mu_ok_at, assumption, assumption); force simp: mu_ok_def holds_mu_def)+

lemma unlock_step_mu: "unlock_step N role s s' \<Longrightarrow> mu_ok N s \<Longrightarrow> mu_ok N s'"
  by (induction rule: unlock_step.induct)
    ((rule mu_ok_at, assumption, assumption); force simp: mu_ok_def holds_mu_def broadcast_apply)+

lemma user_step_mu: "user_step N s s' \<Longrightarrow> mu_ok N s \<Longrightarrow> mu_ok N s'"
  by (induction rule: user_step.induct)
    ((rule mu_ok_at, assumption, assumption); force simp: mu_ok_def holds_mu_def)+

lemma ambient_step_mu: "ambient_step N s s' \<Longrightarrow> mu_ok N s \<Longrightarrow> mu_ok N s'"
  by (induction rule: ambient_step.induct) (auto simp: mu_ok_def at_def holds_mu_def)

lemmas count_simps = counters_ok_def at_def add_waiting_def add_active_def head_count_upd
  head_count_broadcast broadcast_apply active_def waiting_def

lemma lock_step_counters: "lock_step pol N role s s' \<Longrightarrow> counters_ok N role s \<Longrightarrow> counters_ok N role s'"
  by (induction rule: lock_step.induct) (auto simp: count_simps split: role.splits)

lemma unlock_step_counters:
  "unlock_step N role s s' \<Longrightarrow> counters_ok N role s \<Longrightarrow> counters_ok N role s'"
  by (induction rule: unlock_step.induct) (auto simp: count_simps split: role.splits)

lemma user_step_counters: "user_step N s s' \<Longrightarrow> counters_ok N role s \<Longrightarrow> counters_ok N role s'"
  by (induction rule: user_step.induct) (auto simp: count_simps)

lemma ambient_step_counters: "ambient_step N s s' \<Longrightarrow> counters_ok N role s \<Longrightarrow> counters_ok N role s'"
  by (induction rule: ambient_step.induct) (auto simp: count_simps)

lemma rw_step_monitor:
  assumes "rw_step pol N role s s'" and "mu_ok N s" and "counters_ok N role s"
  shows "mu_ok N s'" and "counters_ok N role s'"
  using assms unfolding rw_step_def thread_step_def
  by (auto intro: lock_step_mu unlock_step_mu user_step_mu ambient_step_mu lock_step_counters
    unlock_step_counters user_step_counters ambient_step_counters)

lemma mu_unique:
  "mu_ok N s \<Longrightarrow> t < N \<Longrightarrow> u < N \<Longrightarrow> pcs s t \<in> holds_mu \<Longrightarrow> pcs s u \<in> holds_mu \<Longrightarrow> u = t"
  unfolding mu_ok_def by (metis option.inject)

lemma counted:
  assumes "t < N" and "role t = r" and "p t \<in> L"
  shows "1 \<le> head_count N role r L p"
  using assms head_count_nonneg [of N role r L p] head_count_zero [of N role r L p] by fastforce

section \<open>Policies that exclude\<close>

text \<open>What the lock needs of a policy: nobody passes a writer, a writer passes nobody, and a reader
  waits for a reason that ends.\<close>

locale exclusive_policy =
  fixes pol :: policy
  assumes reader_excluded: "awriters l \<noteq> 0 \<Longrightarrow> reader_wait pol l"
    and reader_reason: "reader_wait pol l \<Longrightarrow> awriters l \<noteq> 0 \<or> wwriters l \<noteq> 0"
    and writer_reason: "writer_wait pol l \<longleftrightarrow> awriters l \<noteq> 0 \<or> areaders l \<noteq> 0"

interpretation rstarve: exclusive_policy Policy_rstarve
  by unfold_locales auto

interpretation wstarve: exclusive_policy Policy_wstarve
  by unfold_locales auto

definition exclusive :: "rwlock \<Rightarrow> bool" where
  "exclusive l \<longleftrightarrow> awriters l = 0 \<or> awriters l = 1 \<and> areaders l = 0"

text \<open>A thread that has passed its test may still be admitted.\<close>

definition pass_ok :: "nat \<Rightarrow> (nat \<Rightarrow> role) \<Rightarrow> rw_sys \<Rightarrow> bool" where
  "pass_ok N role s \<longleftrightarrow> (\<forall>t < N. pcs s t = Pass \<or> pcs s t = Admit \<longrightarrow>
     awriters (rw s) = 0 \<and> (role t = Writer \<longrightarrow> areaders (rw s) = 0))"

text \<open>A thread is asleep for a reason, or its wake-up is on its way.\<close>

definition sleep_ok :: "nat \<Rightarrow> (nat \<Rightarrow> role) \<Rightarrow> rw_sys \<Rightarrow> bool" where
  "sleep_ok N role s \<longleftrightarrow> (\<forall>t < N. pcs s t = Asleep \<longrightarrow>
     (case role t of
        Writer \<Rightarrow> awriters (rw s) \<noteq> 0 \<or> areaders (rw s) \<noteq> 0
          \<or> (\<exists>u < N. pcs s u = WakeR \<or> pcs s u = WakeW)
      | Reader \<Rightarrow> awriters (rw s) \<noteq> 0 \<or> wwriters (rw s) \<noteq> 0
          \<or> (\<exists>u < N. pcs s u = WakeR \<or> pcs s u = Admit \<and> role u = Writer)))"

definition rw_inv :: "nat \<Rightarrow> (nat \<Rightarrow> role) \<Rightarrow> rw_sys \<Rightarrow> bool" where
  "rw_inv N role s \<longleftrightarrow> mu_ok N s \<and> counters_ok N role s \<and> exclusive (rw s) \<and> pass_ok N role s
     \<and> sleep_ok N role s"

lemmas excl_defs = exclusive_def pass_ok_def at_def add_waiting_def add_active_def

lemma owner_alone:
  assumes "rw_inv N role s" and "t < N" and "pcs s t \<in> holds_mu"
    and others: "\<And>u. u \<noteq> t \<Longrightarrow> pcs s' u = pcs s u"
  shows "pass_ok N role (at t c s') \<longleftrightarrow> c \<noteq> Pass \<and> c \<noteq> Admit
    \<or> awriters (rw s') = 0 \<and> (role t = Writer \<longrightarrow> areaders (rw s') = 0)"
proof -
  have "pcs s' u \<noteq> Pass \<and> pcs s' u \<noteq> Admit" if u: "u < N" "u \<noteq> t" for u
    using mu_unique [of N s t u] assms(1-3) u others [OF u(2)] by (auto simp: rw_inv_def holds_mu_def)
  then show ?thesis using assms(2) by (auto simp: pass_ok_def at_def)
qed

lemma active_counted:
  assumes "rw_inv N role s" and "t < N" and "pcs s t \<in> active"
  shows "case role t of Reader \<Rightarrow> 1 \<le> areaders (rw s) | Writer \<Rightarrow> 1 \<le> awriters (rw s)"
  using assms counted [of t N role "role t" "pcs s" active]
  by (cases "role t") (simp_all add: rw_inv_def counters_ok_def)

lemma unlock_step_excl:
  assumes "unlock_step N role s s'" and "rw_inv N role s"
  shows "exclusive (rw s') \<and> pass_ok N role s'"
  using assms
proof (induction rule: unlock_step.induct)
  case (leaves t s)
  have "pass_ok N role (at t WakeR (s\<lparr>rw := add_active (role t) (- 1) (rw s)\<rparr>))"
    using leaves by (subst owner_alone [of N role s]) (simp_all add: holds_mu_def)
  moreover have "exclusive (add_active (role t) (- 1) (rw s))"
    using leaves active_counted [of N role s t]
    by (auto simp: rw_inv_def exclusive_def active_def add_active_def split: role.splits)
  ultimately show ?case by (simp add: at_def)
qed (auto simp: rw_inv_def excl_defs broadcast_apply)

lemma user_step_excl:
  "user_step N s s' \<Longrightarrow> rw_inv N role s \<Longrightarrow> exclusive (rw s') \<and> pass_ok N role s'"
  by (induction rule: user_step.induct) (auto simp: rw_inv_def excl_defs)

lemma ambient_step_excl:
  "ambient_step N s s' \<Longrightarrow> rw_inv N role s \<Longrightarrow> exclusive (rw s') \<and> pass_ok N role s'"
  by (induction rule: ambient_step.induct) (auto simp: rw_inv_def excl_defs)

context exclusive_policy
begin

lemma lock_step_excl:
  assumes "lock_step pol N role s s'" and "rw_inv N role s"
  shows "exclusive (rw s') \<and> pass_ok N role s'"
  using assms
proof (induction rule: lock_step.induct)
  case (passes t s)
  then show ?case using reader_excluded [of "rw s"] writer_reason [of "rw s"]
    by (auto simp: rw_inv_def excl_defs must_wait_def split: role.splits)
next
  case (admits t s)
  have "pass_ok N role (at t Release (s\<lparr>rw := add_active (role t) 1 (rw s)\<rparr>))"
    using admits by (subst owner_alone [of N role s]) (simp_all add: holds_mu_def)
  moreover have "exclusive (add_active (role t) 1 (rw s))"
    using admits by (auto simp: rw_inv_def exclusive_def pass_ok_def add_active_def split: role.splits)
  ultimately show ?case by (simp add: at_def)
qed (auto simp: rw_inv_def excl_defs split: role.splits)

end

section \<open>No wake-up is lost\<close>

lemma counters_nonneg:
  assumes "rw_inv N role s"
  shows "0 \<le> areaders (rw s)" "0 \<le> awriters (rw s)" "0 \<le> wreaders (rw s)" "0 \<le> wwriters (rw s)"
  using assms by (simp_all add: rw_inv_def counters_ok_def head_count_nonneg)

text \<open>A step that puts nobody to sleep without a reason, and takes no waker and no reason away.\<close>

definition reason :: "role \<Rightarrow> rwlock \<Rightarrow> bool" where
  "reason r l \<longleftrightarrow> awriters l \<noteq> 0
     \<or> (case r of Writer \<Rightarrow> areaders l \<noteq> 0 | Reader \<Rightarrow> wwriters l \<noteq> 0)"

lemma sleep_keep:
  assumes "sleep_ok N role s"
    and "\<forall>u < N. pcs s' u = Asleep \<longrightarrow> pcs s u = Asleep \<or> reason (role u) (rw s')"
    and "\<forall>u < N. pcs s u = WakeR \<or> pcs s u = WakeW \<or> pcs s u = Admit \<longrightarrow> pcs s' u = pcs s u"
    and "awriters (rw s) \<noteq> 0 \<longrightarrow> awriters (rw s') \<noteq> 0"
    and "areaders (rw s) \<noteq> 0 \<longrightarrow> areaders (rw s') \<noteq> 0"
    and "wwriters (rw s) \<noteq> 0 \<longrightarrow> wwriters (rw s') \<noteq> 0"
  shows "sleep_ok N role s'"
  unfolding sleep_ok_def
proof (intro allI impI)
  fix t assume t: "t < N" "pcs s' t = Asleep"
  with assms(2) have "pcs s t = Asleep \<or> reason (role t) (rw s')" by blast
  with t(1) assms(1) show "case role t of
        Writer \<Rightarrow> awriters (rw s') \<noteq> 0 \<or> areaders (rw s') \<noteq> 0
          \<or> (\<exists>u < N. pcs s' u = WakeR \<or> pcs s' u = WakeW)
      | Reader \<Rightarrow> awriters (rw s') \<noteq> 0 \<or> wwriters (rw s') \<noteq> 0
          \<or> (\<exists>u < N. pcs s' u = WakeR \<or> pcs s' u = Admit \<and> role u = Writer)"
    using assms(3-6) by (cases "role t") (fastforce simp: sleep_ok_def reason_def)+
qed

text \<open>A step after which only readers sleep, with no waker or reason of theirs taken away.\<close>

lemma sleep_readers:
  assumes "sleep_ok N role s" and "\<forall>u < N. role u = Reader \<and> pcs s' u = Asleep \<longrightarrow> pcs s u = Asleep"
    and "\<forall>u < N. pcs s u = WakeR \<or> pcs s u = Admit \<longrightarrow> pcs s' u = pcs s u"
    and "rw s' = rw s" and "\<forall>u < N. pcs s' u = Asleep \<longrightarrow> role u = Reader"
  shows "sleep_ok N role s'"
  unfolding sleep_ok_def
proof (intro allI impI)
  fix t assume t: "t < N" "pcs s' t = Asleep"
  with assms(2,5) have r: "pcs s t = Asleep" "role t = Reader" by blast+
  with t(1) assms(1) have "awriters (rw s) \<noteq> 0 \<or> wwriters (rw s) \<noteq> 0
      \<or> (\<exists>u < N. pcs s u = WakeR \<or> pcs s u = Admit \<and> role u = Writer)"
    by (force simp: sleep_ok_def)
  with assms(3,4) have "awriters (rw s') \<noteq> 0 \<or> wwriters (rw s') \<noteq> 0
      \<or> (\<exists>u < N. pcs s' u = WakeR \<or> pcs s' u = Admit \<and> role u = Writer)" by metis
  with r(2) show "case role t of
        Writer \<Rightarrow> awriters (rw s') \<noteq> 0 \<or> areaders (rw s') \<noteq> 0
          \<or> (\<exists>u < N. pcs s' u = WakeR \<or> pcs s' u = WakeW)
      | Reader \<Rightarrow> awriters (rw s') \<noteq> 0 \<or> wwriters (rw s') \<noteq> 0
          \<or> (\<exists>u < N. pcs s' u = WakeR \<or> pcs s' u = Admit \<and> role u = Writer)" by simp
qed

text \<open>A step after which every sleeper has a waker.\<close>

lemma sleep_waker: "t < N \<Longrightarrow> sleep_ok N role (at t WakeR s)"
  by (auto simp: sleep_ok_def at_def split: role.splits)

lemma asleep_counted:
  assumes "rw_inv N role s" and "t < N" and "pcs s t = Asleep"
  shows "case role t of Reader \<Rightarrow> wreaders (rw s) \<noteq> 0 | Writer \<Rightarrow> wwriters (rw s) \<noteq> 0"
  using assms counted [of t N role "role t" "pcs s" waiting]
  by (cases "role t") (auto simp: rw_inv_def counters_ok_def waiting_def)

lemma unlock_step_sleep:
  assumes "unlock_step N role s s'" and "rw_inv N role s"
  shows "sleep_ok N role s'"
  using assms
proof (induction rule: unlock_step.induct)
  case (leaves t s)
  then show ?case by (intro sleep_waker)
next
  case (wake_readers t s)
  then have "pcs (if wreaders (rw s) \<noteq> 0 then s\<lparr>pcs := broadcast role Reader (pcs s)\<rparr> else s) u \<noteq> Asleep
      \<or> role u = Writer" if "u < N" for u
    using asleep_counted [of N role s u] that by (cases "role u") (auto simp: broadcast_apply)
  with wake_readers(1) show ?case unfolding sleep_ok_def at_def
    by (auto split: role.splits)
next
  case (wake_writers t s)
  let ?s = "if wwriters (rw s) \<noteq> 0 then s\<lparr>pcs := broadcast role Writer (pcs s)\<rparr> else s"
  have none: "pcs ?s u \<noteq> Asleep \<or> role u = Reader" if "u < N" for u
    using asleep_counted [of N role s u] that wake_writers(3)
    by (cases "role u") (auto simp: broadcast_apply)
  have a: "\<forall>u < N. role u = Reader \<and> pcs (at t Unlock ?s) u = Asleep \<longrightarrow> pcs s u = Asleep"
    by (auto simp: at_def broadcast_apply split: if_splits)
  have b: "\<forall>u < N. pcs s u = WakeR \<or> pcs s u = Admit \<longrightarrow> pcs (at t Unlock ?s) u = pcs s u"
    using wake_writers(2) by (auto simp: at_def broadcast_apply)
  have c: "rw (at t Unlock ?s) = rw s" by (simp add: at_def)
  have d: "\<forall>u < N. pcs (at t Unlock ?s) u = Asleep \<longrightarrow> role u = Reader"
    using none by (auto simp: at_def)
  have "sleep_ok N role s" using wake_writers(3) by (simp add: rw_inv_def)
  from sleep_readers [OF this a b c d] show ?case .
qed (rule sleep_keep, auto simp: rw_inv_def at_def split: if_splits)+

lemma user_step_sleep: "user_step N s s' \<Longrightarrow> sleep_ok N role s \<Longrightarrow> sleep_ok N role s'"
  by (induction rule: user_step.induct) (erule sleep_keep; auto simp: at_def split: if_splits)+

lemma ambient_step_sleep: "ambient_step N s s' \<Longrightarrow> sleep_ok N role s \<Longrightarrow> sleep_ok N role s'"
  by (induction rule: ambient_step.induct) (erule sleep_keep; auto simp: at_def split: if_splits)+

lemma sleep_okI:
  assumes "\<And>u. u < N \<Longrightarrow> pcs s u = Asleep \<Longrightarrow> role u = Writer \<Longrightarrow>
      awriters (rw s) \<noteq> 0 \<or> areaders (rw s) \<noteq> 0 \<or> (\<exists>u < N. pcs s u = WakeR \<or> pcs s u = WakeW)"
    and "\<And>u. u < N \<Longrightarrow> pcs s u = Asleep \<Longrightarrow> role u = Reader \<Longrightarrow>
      awriters (rw s) \<noteq> 0 \<or> wwriters (rw s) \<noteq> 0
      \<or> (\<exists>u < N. pcs s u = WakeR \<or> pcs s u = Admit \<and> role u = Writer)"
  shows "sleep_ok N role s"
  using assms unfolding sleep_ok_def by (simp split: role.splits)

lemma sleep_okD:
  assumes "sleep_ok N role s" and "u < N" and "pcs s u = Asleep"
  shows "role u = Writer \<Longrightarrow>
      awriters (rw s) \<noteq> 0 \<or> areaders (rw s) \<noteq> 0 \<or> (\<exists>u < N. pcs s u = WakeR \<or> pcs s u = WakeW)"
    and "role u = Reader \<Longrightarrow> awriters (rw s) \<noteq> 0 \<or> wwriters (rw s) \<noteq> 0
      \<or> (\<exists>u < N. pcs s u = WakeR \<or> pcs s u = Admit \<and> role u = Writer)"
  using assms unfolding sleep_ok_def by force+

lemma unwant_sleep:
  assumes "t < N" and "pcs s t = Pass" and "sleep_ok N role s"
  shows "sleep_ok N role (at t Admit (s\<lparr>rw := add_waiting (role t) (- 1) (rw s)\<rparr>))"
proof (cases "role t")
  case Reader
  with assms show ?thesis
    by (intro sleep_keep [OF assms(3)]) (auto simp: at_def add_waiting_def split: if_splits)
next
  case Writer
  show ?thesis
  proof (rule sleep_okI)
    fix u assume "u < N" "role u = Writer"
      "pcs (at t Admit (s\<lparr>rw := add_waiting (role t) (- 1) (rw s)\<rparr>)) u = Asleep"
    with sleep_okD(1) [OF assms(3), of u] assms(2) Writer
    show "awriters (rw (at t Admit (s\<lparr>rw := add_waiting (role t) (- 1) (rw s)\<rparr>))) \<noteq> 0
        \<or> areaders (rw (at t Admit (s\<lparr>rw := add_waiting (role t) (- 1) (rw s)\<rparr>))) \<noteq> 0
        \<or> (\<exists>u < N. pcs (at t Admit (s\<lparr>rw := add_waiting (role t) (- 1) (rw s)\<rparr>)) u = WakeR
            \<or> pcs (at t Admit (s\<lparr>rw := add_waiting (role t) (- 1) (rw s)\<rparr>)) u = WakeW)"
      by (force simp: at_def add_waiting_def split: if_splits)
  qed (use assms(1) Writer in \<open>auto simp: at_def\<close>)
qed

lemma admits_sleep:
  assumes "t < N" and "pcs s t = Admit" and "rw_inv N role s"
  shows "sleep_ok N role (at t Release (s\<lparr>rw := add_active (role t) 1 (rw s)\<rparr>))"
proof (cases "role t")
  case Reader
  have ok: "sleep_ok N role s" using assms(3) by (simp add: rw_inv_def)
  show ?thesis
  proof (rule sleep_okI)
    fix u assume "u < N" "role u = Reader"
      "pcs (at t Release (s\<lparr>rw := add_active (role t) 1 (rw s)\<rparr>)) u = Asleep"
    with sleep_okD(2) [OF ok, of u] assms(2) Reader
    show "awriters (rw (at t Release (s\<lparr>rw := add_active (role t) 1 (rw s)\<rparr>))) \<noteq> 0
        \<or> wwriters (rw (at t Release (s\<lparr>rw := add_active (role t) 1 (rw s)\<rparr>))) \<noteq> 0
        \<or> (\<exists>u < N. pcs (at t Release (s\<lparr>rw := add_active (role t) 1 (rw s)\<rparr>)) u = WakeR
            \<or> pcs (at t Release (s\<lparr>rw := add_active (role t) 1 (rw s)\<rparr>)) u = Admit \<and> role u = Writer)"
      by (force simp: at_def add_active_def split: if_splits)
  qed (use counters_nonneg [OF assms(3)] Reader in \<open>auto simp: at_def add_active_def\<close>)
next
  case Writer
  then show ?thesis using counters_nonneg [OF assms(3)]
    by (intro sleep_okI) (auto simp: at_def add_active_def)
qed

context exclusive_policy
begin

lemma lock_step_sleep:
  assumes "lock_step pol N role s s'" and "rw_inv N role s"
  shows "sleep_ok N role s'"
  using assms
proof (induction rule: lock_step.induct)
  case (want t s)
  then have ok: "sleep_ok N role s" and nn: "0 \<le> wwriters (rw s)"
    using counters_nonneg [OF want(3)] by (simp_all add: rw_inv_def)
  from ok show ?case
    by (rule sleep_keep) (use want(1,2) nn in \<open>auto simp: at_def add_waiting_def split: role.splits\<close>)
next
  case (sleeps t s)
  then have ok: "sleep_ok N role s" by (simp add: rw_inv_def)
  have "reason (role t) (rw s)"
    using sleeps(3) reader_reason [of "rw s"] writer_reason [of "rw s"]
    by (auto simp: must_wait_def reason_def split: role.splits)
  with ok sleeps(1,2) show ?case by (intro sleep_keep [OF ok]) (auto simp: at_def)
next
  case (unwant t s)
  then show ?case by (intro unwant_sleep) (auto simp: rw_inv_def)
next
  case (admits t s)
  then show ?case by (intro admits_sleep)
qed (rule sleep_keep, auto simp: rw_inv_def at_def split: if_splits)+

lemma rw_step_inv:
  assumes "rw_step pol N role s s'" and "rw_inv N role s"
  shows "rw_inv N role s'"
proof -
  have sl: "sleep_ok N role s" using assms(2) by (simp add: rw_inv_def)
  have "mu_ok N s'" "counters_ok N role s'"
    using rw_step_monitor [OF assms(1)] assms(2) by (simp_all add: rw_inv_def)
  moreover have "(exclusive (rw s') \<and> pass_ok N role s') \<and> sleep_ok N role s'"
    using assms unfolding rw_step_def thread_step_def
  proof (elim disjE)
    assume "lock_step pol N role s s'"
    with assms(2) show ?thesis using lock_step_excl lock_step_sleep by simp
  next
    assume "unlock_step N role s s'"
    with assms(2) show ?thesis using unlock_step_excl unlock_step_sleep by simp
  next
    assume "user_step N s s'"
    with assms(2) show ?thesis using user_step_excl user_step_sleep sl by simp
  next
    assume "ambient_step N s s'"
    with assms(2) show ?thesis using ambient_step_excl ambient_step_sleep sl by simp
  qed
  ultimately show ?thesis by (simp add: rw_inv_def)
qed

end

lemma rw_init_inv: "rw_init s \<Longrightarrow> rw_inv N role s"
  by (simp add: rw_init_def rw_inv_def mu_ok_def counters_ok_def head_count_def exclusive_def
      pass_ok_def sleep_ok_def rwlock_new_def loc_defs)

sublocale exclusive_policy \<subseteq> monitor: invariant_system rw_init "rw_step pol N role" "rw_inv N role"
  for N role
  by unfold_locales (auto intro: rw_init_inv rw_step_inv)

section \<open>Who can move\<close>

text \<open>The next step of a thread, when it has one.\<close>

definition go :: "policy \<Rightarrow> (nat \<Rightarrow> role) \<Rightarrow> nat \<Rightarrow> rw_sys \<Rightarrow> rw_sys option" where
  "go pol role t s =
     (case pcs s t of
        Top \<Rightarrow> Some (if quit s then at t Exited s else at t Call s)
      | Call \<Rightarrow> if mu s = None then Some (at t Want (s\<lparr>mu := Some t\<rparr>)) else None
      | Want \<Rightarrow> Some (at t Test (s\<lparr>rw := add_waiting (role t) 1 (rw s)\<rparr>))
      | Test \<Rightarrow> Some (if must_wait pol (role t) (rw s) then at t Asleep (s\<lparr>mu := None\<rparr>) else at t Pass s)
      | Asleep \<Rightarrow> None
      | Woken \<Rightarrow> if mu s = None then Some (at t Test (s\<lparr>mu := Some t\<rparr>)) else None
      | Pass \<Rightarrow> Some (at t Admit (s\<lparr>rw := add_waiting (role t) (- 1) (rw s)\<rparr>))
      | Admit \<Rightarrow> Some (at t Release (s\<lparr>rw := add_active (role t) 1 (rw s)\<rparr>))
      | Release \<Rightarrow> Some (at t Inside (s\<lparr>mu := None\<rparr>))
      | Inside \<Rightarrow> Some (at t Busy (s\<lparr>counts := (counts s)(t := counts s t + 1)\<rparr>))
      | Busy \<Rightarrow> if mu s = None then Some (at t Leave (s\<lparr>mu := Some t\<rparr>)) else None
      | Leave \<Rightarrow> Some (at t WakeR (s\<lparr>rw := add_active (role t) (- 1) (rw s)\<rparr>))
      | WakeR \<Rightarrow> Some (at t WakeW
          (if wreaders (rw s) \<noteq> 0 then s\<lparr>pcs := broadcast role Reader (pcs s)\<rparr> else s))
      | WakeW \<Rightarrow> Some (at t Unlock
          (if wwriters (rw s) \<noteq> 0 then s\<lparr>pcs := broadcast role Writer (pcs s)\<rparr> else s))
      | Unlock \<Rightarrow> Some (at t Top (s\<lparr>mu := None\<rparr>))
      | Exited \<Rightarrow> None)"

lemma go_step: "t < N \<Longrightarrow> go pol role t s = Some s' \<Longrightarrow> thread_step pol N role s s'"
  unfolding thread_step_def
  using unlock_step.wake_readers [of t N s role] unlock_step.wake_writers [of t N s role]
  by (cases "pcs s t")
    (auto simp: go_def split: if_splits intro: lock_step.intros unlock_step.intros user_step.intros)

fun go_all :: "policy \<Rightarrow> (nat \<Rightarrow> role) \<Rightarrow> nat list \<Rightarrow> rw_sys \<Rightarrow> rw_sys option" where
  "go_all pol role [] s = Some s"
| "go_all pol role (t # ts) s = Option.bind (go pol role t s) (go_all pol role ts)"

lemma go_all_steps:
  "go_all pol role ts s = Some s' \<Longrightarrow> \<forall>t \<in> set ts. t < N \<Longrightarrow> (rw_step pol N role)\<^sup>*\<^sup>* s s'"
proof (induction ts arbitrary: s)
  case (Cons t ts)
  then obtain s1 where s1: "go pol role t s = Some s1" "go_all pol role ts s1 = Some s'"
    by (auto simp: bind_eq_Some_conv)
  have "rw_step pol N role s s1" using go_step [OF _ s1(1)] Cons.prems(2) by (simp add: rw_step_def)
  with Cons.IH [OF s1(2)] Cons.prems(2) show ?case by (simp add: converse_rtranclp_into_rtranclp)
qed simp

lemma blocked_locations:
  assumes "go pol role t s = None"
  shows "pcs s t = Asleep \<or> pcs s t = Exited \<or> mu s \<noteq> None \<and> pcs s t \<notin> holds_mu"
  using assms by (cases "pcs s t") (auto simp: go_def holds_mu_def split: if_splits)

lemma stuck_sleepers:
  assumes "rw_inv N role s" and "\<forall>t < N. go pol role t s = None" and "t < N"
  shows "pcs s t = Asleep \<or> pcs s t = Exited"
proof -
  have "mu s = None"
  proof (rule ccontr)
    assume "mu s \<noteq> None"
    then obtain x where "mu s = Some x" by blast
    with assms(1) have "x < N" "pcs s x \<in> holds_mu" by (auto simp: rw_inv_def mu_ok_def)
    with blocked_locations [of pol role x s] assms(2) show False by (auto simp: holds_mu_def)
  qed
  with blocked_locations [of pol role t s] assms(2,3) show ?thesis by auto
qed

lemma all_exited:
  assumes inv: "rw_inv N role s" and stuck: "\<forall>t < N. go pol role t s = None" and t: "t < N"
  shows "pcs s t = Exited"
proof -
  note loc = stuck_sleepers [OF inv stuck]
  have "pcs s u \<notin> active" if "u < N" for u using loc [OF that] by (auto simp: active_def)
  then have z: "areaders (rw s) = 0" "awriters (rw s) = 0"
    using inv by (simp_all add: rw_inv_def counters_ok_def head_count_zero)
  have sl: "sleep_ok N role s" using inv by (simp add: rw_inv_def)
  have idle: "pcs s u \<noteq> WakeR \<and> pcs s u \<noteq> WakeW \<and> pcs s u \<noteq> Admit" if "u < N" for u
    using loc [OF that] by auto
  have w: "pcs s u = Exited" if u: "u < N" "role u = Writer" for u
    using sleep_okD(1) [OF sl u(1) _ u(2)] loc [OF u(1)] z idle by blast
  then have "wwriters (rw s) = 0"
    using inv by (auto simp: rw_inv_def counters_ok_def head_count_zero waiting_def)
  with sleep_okD(2) [OF sl t] loc [OF t] z idle w [OF t] show ?thesis by (cases "role t") blast+
qed

section \<open>Properties\<close>

definition critical :: "rpc set" where
  "critical = {Inside, Busy}"

lemma inv_exclusion:
  assumes "rw_inv N role s" and "t < N" "u < N" "t \<noteq> u" "pcs s t \<in> critical" "pcs s u \<in> critical"
  shows "role t = Reader"
proof (rule ccontr)
  assume "role t \<noteq> Reader"
  then have w: "role t = Writer" by (cases "role t") auto
  have act: "pcs s t \<in> active" "pcs s u \<in> active" using assms by (auto simp: critical_def active_def)
  have "1 \<le> awriters (rw s)" using active_counted [OF assms(1,2) act(1)] w by simp
  with assms(1) have one: "awriters (rw s) = 1" "areaders (rw s) = 0"
    by (auto simp: rw_inv_def exclusive_def)
  then have "role u = Writer" using active_counted [OF assms(1,3) act(2)] by (cases "role u") auto
  with head_count_one [of N role Writer active "pcs s" t u] assms one w act show False
    by (simp add: rw_inv_def counters_ok_def)
qed

lemma policy_inv:
  assumes "pol = Policy_rstarve \<or> pol = Policy_wstarve" and "rw_init s\<^sub>0"
    and "(rw_step pol N role)\<^sup>*\<^sup>* s\<^sub>0 s"
  shows "rw_inv N role s"
  using assms rstarve.monitor.reach_inv wstarve.monitor.reach_inv by blast

text \<open>
  C36: with either of the two real policies the lock excludes. In every reachable state of any
  number of reader and writer threads, under any interleaving and with spurious wake-ups, a writer
  inside the lock is alone there, and the counters of the lock are the numbers of threads that
  hold it and that wait for it.
\<close>

theorem rwlock_exclusion:
  assumes "pol = Policy_rstarve \<or> pol = Policy_wstarve" and "rw_init s\<^sub>0"
    and "(rw_step pol N role)\<^sup>*\<^sup>* s\<^sub>0 s"
  shows "(\<forall>t u. t < N \<and> u < N \<and> t \<noteq> u \<and> pcs s t \<in> critical \<and> pcs s u \<in> critical \<longrightarrow>
      role t = Reader \<and> role u = Reader)
    \<and> areaders (rw s) = head_count N role Reader active (pcs s)
    \<and> awriters (rw s) = head_count N role Writer active (pcs s)
    \<and> wreaders (rw s) = head_count N role Reader waiting (pcs s)
    \<and> wwriters (rw s) = head_count N role Writer waiting (pcs s)"
proof -
  have inv: "rw_inv N role s" using assms by (rule policy_inv)
  then have "counters_ok N role s" by (simp add: rw_inv_def)
  with inv_exclusion [OF inv] show ?thesis by (auto simp: counters_ok_def)
qed

text \<open>The threads of \<open>user.c\<close>: two readers and two writers.\<close>

definition THREADS :: nat where
  "THREADS = 4"

definition user_role :: "nat \<Rightarrow> role" where
  "user_role t = (if t < 2 then Reader else Writer)"

definition user_start :: rw_sys where
  "user_start = \<lparr>rw = rwlock_new, mu = None, pcs = (\<lambda>_. Top), counts = (\<lambda>_. 0), quit = False\<rparr>"

lemma user_start_init: "rw_init user_start"
  by (simp add: user_start_def rw_init_def)

lemmas go_defs = go_def at_def user_start_def user_role_def rwlock_new_def add_waiting_def
  add_active_def must_wait_def

text \<open>Both readers enter.\<close>

lemma two_readers:
  "\<exists>s. (rw_step Policy_wstarve THREADS user_role)\<^sup>*\<^sup>* user_start s
     \<and> pcs s 0 = Inside \<and> pcs s 1 = Inside \<and> areaders (rw s) = 2"
proof -
  obtain s where s: "go_all Policy_wstarve user_role (replicate 7 0 @ replicate 7 1) user_start = Some s"
    "pcs s 0 = Inside" "pcs s 1 = Inside" "areaders (rw s) = 2"
    by (simp add: eval_nat_numeral go_defs)
  have "(rw_step Policy_wstarve THREADS user_role)\<^sup>*\<^sup>* user_start s"
    using s(1) by (rule go_all_steps) (auto simp: THREADS_def)
  with s show ?thesis by blast
qed

theorem rwlock_exclusion_witness:
  "\<exists>s :: rw_sys. pcs s 0 = Inside \<and> pcs s 1 = Inside
     \<and> head_count THREADS user_role Reader active (pcs s) = 2"
proof -
  obtain s where "(rw_step Policy_wstarve THREADS user_role)\<^sup>*\<^sup>* user_start s"
    "pcs s 0 = Inside" "pcs s 1 = Inside" "areaders (rw s) = 2"
    using two_readers by blast
  with rwlock_exclusion [of Policy_wstarve user_start THREADS user_role s] user_start_init
  show ?thesis by auto
qed

lemma inv_progress:
  assumes "rw_inv N role s" and "\<exists>t < N. pcs s t \<noteq> Exited"
  shows "\<exists>s'. thread_step pol N role s s'"
  using all_exited [OF assms(1), of pol] assms(2) go_step [of _ N pol role s] by (metis option.exhaust)

lemma inv_finished:
  assumes "rw_inv N role s" and "\<forall>t < N. pcs s t = Exited"
  shows "rw s = rwlock_new \<and> rwlock_destroy N s"
proof
  have "head_count N role r active (pcs s) = 0" "head_count N role r waiting (pcs s) = 0" for r
    using assms(2) by (simp_all add: head_count_zero loc_defs)
  then show "rw s = rwlock_new"
    using assms(1) by (cases "rw s") (simp add: rw_inv_def counters_ok_def rwlock_new_def)
  have "mu s = None"
    using assms by (cases "mu s") (auto simp: rw_inv_def mu_ok_def holds_mu_def)
  with assms(2) show "rwlock_destroy N s" by (simp add: rwlock_destroy_def)
qed

text \<open>
  C37: no wake-up is lost. Whenever some thread has not finished, some thread can take a step of its
  own, without help from a spurious wake-up; so with the real policies the threads never all sleep,
  and when the run is over every thread has left its loop, the counters are back at zero and the
  assertions of \<open>rwlock_destroy\<close> hold.
\<close>

theorem rwlock_progress:
  assumes "pol = Policy_rstarve \<or> pol = Policy_wstarve" and "rw_init s\<^sub>0"
    and "(rw_step pol N role)\<^sup>*\<^sup>* s\<^sub>0 s"
  shows "if \<exists>t < N. pcs s t \<noteq> Exited then \<exists>s'. thread_step pol N role s s'
    else rw s = rwlock_new \<and> rwlock_destroy N s"
proof -
  have inv: "rw_inv N role s" using assms by (rule policy_inv)
  then show ?thesis using inv_progress [OF inv, of pol] inv_finished [OF inv] by auto
qed

theorem rwlock_progress_witness:
  "\<exists>(s :: rw_sys) s'. pcs s 0 = Inside \<and> pcs s 1 = Inside
     \<and> thread_step Policy_wstarve THREADS user_role s s'"
proof -
  obtain s where "(rw_step Policy_wstarve THREADS user_role)\<^sup>*\<^sup>* user_start s"
    "pcs s 0 = Inside" "pcs s 1 = Inside"
    using two_readers by blast
  moreover from this have "\<exists>t < THREADS. pcs s t \<noteq> Exited" by (intro exI [of _ 0]) (simp add: THREADS_def)
  ultimately show ?thesis
    using rwlock_progress [of Policy_wstarve user_start THREADS user_role s] user_start_init by auto
qed

text \<open>
  With \<open>policy_none.c\<close> linked in the lock does not exclude: the two writers of \<open>user.c\<close> can both
  be inside it, together with a reader.
\<close>

theorem policy_none_unsafe:
  "\<exists>s. (rw_step Policy_none THREADS user_role)\<^sup>*\<^sup>* user_start s
     \<and> pcs s 0 \<in> critical \<and> pcs s 2 \<in> critical \<and> pcs s 3 \<in> critical \<and> awriters (rw s) = 2"
proof -
  obtain s where s: "go_all Policy_none user_role
      (replicate 7 0 @ replicate 7 2 @ replicate 7 3) user_start = Some s"
    "pcs s 0 = Inside" "pcs s 2 = Inside" "pcs s 3 = Inside" "awriters (rw s) = 2"
    by (simp add: eval_nat_numeral go_defs)
  have "(rw_step Policy_none THREADS user_role)\<^sup>*\<^sup>* user_start s"
    using s(1) by (rule go_all_steps) (auto simp: THREADS_def)
  with s show ?thesis by (auto simp: critical_def)
qed

end
