(* ===== verification/Rwlock_User.thy ===== *)
theory Rwlock_User
  imports Rwlock "HOL-Library.Word"
begin

text \<open>
  \<open>main\<close> of \<open>practica/pthreads/rwlock/user.c\<close> around the threads of \<^verbatim>\<open>Rwlock\<close>: it creates two readers
  and two writers, sleeps, sets the flag that ends their loops, joins them one by one while it adds
  up their counts, destroys the lock and prints the share of each thread.
\<close>

section \<open>The program\<close>

datatype user_pc = USleep | UJoin nat | UDone | UFailed

record user_sys =
  upc :: user_pc
  usum :: "64 word"
  threads :: rw_sys

text \<open>The threads run, and may wake up for no reason, as long as the lock exists; \<open>set_done\<close> is the
  main thread's. \<open>UFailed\<close> is a failed assertion in \<open>rwlock_destroy\<close>.\<close>

inductive main_thread :: "user_sys \<Rightarrow> user_sys \<Rightarrow> bool" where
  wakes_up: "upc u = USleep \<Longrightarrow>
    main_thread u (u\<lparr>upc := UJoin 0, threads := (threads u)\<lparr>quit := True\<rparr>\<rparr>)"
| joins: "upc u = UJoin i \<Longrightarrow> i < THREADS \<Longrightarrow> pcs (threads u) i = Exited \<Longrightarrow>
    main_thread u (u\<lparr>upc := UJoin (Suc i), usum := usum u + of_int (counts (threads u) i)\<rparr>)"
| destroys: "upc u = UJoin i \<Longrightarrow> \<not> i < THREADS \<Longrightarrow>
    main_thread u (u\<lparr>upc := (if rwlock_destroy THREADS (threads u) then UDone else UFailed)\<rparr>)"

definition user_over :: "user_sys \<Rightarrow> bool" where
  "user_over u \<longleftrightarrow> upc u = UDone \<or> upc u = UFailed"

inductive user_main_step :: "policy \<Rightarrow> user_sys \<Rightarrow> user_sys \<Rightarrow> bool" for pol :: policy where
  main_moves: "main_thread u u' \<Longrightarrow> user_main_step pol u u'"
| thread_moves: "\<not> user_over u \<Longrightarrow> thread_step pol THREADS user_role (threads u) s \<Longrightarrow>
    user_main_step pol u (u\<lparr>threads := s\<rparr>)"
| thread_woken: "\<not> user_over u \<Longrightarrow> t < THREADS \<Longrightarrow> pcs (threads u) t = Asleep \<Longrightarrow>
    user_main_step pol u (u\<lparr>threads := at t Woken (threads u)\<rparr>)"

definition user_main_start :: user_sys where
  "user_main_start = \<lparr>upc = USleep, usum = 0, threads = user_start\<rparr>"

section \<open>The invariant\<close>

fun joined_threads :: "user_pc \<Rightarrow> nat" where
  "joined_threads USleep = 0"
| "joined_threads (UJoin i) = i"
| "joined_threads _ = THREADS"

definition user_inv :: "user_sys \<Rightarrow> bool" where
  "user_inv u \<longleftrightarrow> rw_inv THREADS user_role (threads u) \<and> upc u \<noteq> UFailed
     \<and> joined_threads (upc u) \<le> THREADS
     \<and> (\<forall>t < joined_threads (upc u). pcs (threads u) t = Exited)
     \<and> usum u = of_int (\<Sum>t < joined_threads (upc u). counts (threads u) t)"

text \<open>A thread that has left its loop neither moves nor counts any more.\<close>

lemma exited_stays:
  assumes "thread_step pol N role s s'" and "pcs s t = Exited"
  shows "pcs s' t = Exited \<and> counts s' t = counts s t"
  using assms unfolding thread_step_def
  by (elim disjE lock_step.cases unlock_step.cases user_step.cases) (auto simp: at_def broadcast_def)

lemma threads_inv:
  assumes "rw_step pol THREADS user_role (threads u) s" and "user_inv u"
    and "exclusive_policy pol"
    and "\<And>t. pcs (threads u) t = Exited \<Longrightarrow> pcs s t = Exited \<and> counts s t = counts (threads u) t"
  shows "user_inv (u\<lparr>threads := s\<rparr>)"
proof -
  have "rw_inv THREADS user_role s"
    using exclusive_policy.rw_step_inv [OF assms(3,1)] assms(2) by (simp add: user_inv_def)
  moreover have "(\<Sum>t < joined_threads (upc u). counts s t) =
      (\<Sum>t < joined_threads (upc u). counts (threads u) t)"
    using assms(2,4) by (intro sum.cong) (auto simp: user_inv_def)
  ultimately show ?thesis using assms(2,4) by (auto simp: user_inv_def)
qed

lemma main_thread_inv:
  assumes "main_thread u u'" and "user_inv u" and "exclusive_policy pol"
  shows "user_inv u'"
  using assms
proof (induction rule: main_thread.induct)
  case (wakes_up u)
  have "rw_step pol THREADS user_role (threads u) ((threads u)\<lparr>quit := True\<rparr>)"
    by (simp add: rw_step_def ambient_step.set_done)
  from exclusive_policy.rw_step_inv [OF wakes_up(3) this] wakes_up show ?case
    by (simp add: user_inv_def)
next
  case (joins u i)
  then show ?case by (auto simp: user_inv_def less_Suc_eq)
next
  case (destroys u i)
  then have "\<forall>t < THREADS. pcs (threads u) t = Exited" "i = THREADS" by (auto simp: user_inv_def)
  with inv_finished [of THREADS user_role "threads u"] destroys show ?case by (simp add: user_inv_def)
qed

lemma user_main_step_inv:
  "user_main_step pol u u' \<Longrightarrow> user_inv u \<Longrightarrow> exclusive_policy pol \<Longrightarrow> user_inv u'"
proof (induction rule: user_main_step.induct)
  case (thread_moves u s)
  then show ?case using exited_stays by (intro threads_inv) (auto simp: rw_step_def)
next
  case (thread_woken u t)
  have "rw_step pol THREADS user_role (threads u) (at t Woken (threads u))"
    using thread_woken(2,3) by (simp add: rw_step_def ambient_step.spurious)
  then show ?case using thread_woken by (intro threads_inv) (auto simp: at_def)
qed (rule main_thread_inv)

lemma user_main_start_inv: "user_inv user_main_start"
  using rw_init_inv [OF user_start_init] by (simp add: user_inv_def user_main_start_def)

interpretation user_main: invariant_system "\<lambda>u. u = user_main_start \<and> exclusive_policy pol"
  "user_main_step pol" "\<lambda>u. user_inv u \<and> exclusive_policy pol" for pol
  by unfold_locales (auto intro: user_main_step_inv user_main_start_inv)

section \<open>The result\<close>

lemma real_policy: "pol = Policy_rstarve \<or> pol = Policy_wstarve \<Longrightarrow> exclusive_policy pol"
  using rstarve.exclusive_policy_axioms wstarve.exclusive_policy_axioms by blast

text \<open>With a real policy \<open>main\<close> is never stuck and no assertion fails; when it is done the sum it
  divides by is the number of times the lock was held, modulo the width of \<open>uintptr_t\<close>.\<close>

theorem user_main_result:
  assumes "pol = Policy_rstarve \<or> pol = Policy_wstarve"
    and "(user_main_step pol)\<^sup>*\<^sup>* user_main_start u"
  shows "upc u \<noteq> UFailed
    \<and> (if upc u = UDone
       then usum u = of_int (\<Sum>t < THREADS. counts (threads u) t) \<and> rw (threads u) = rwlock_new
       else (\<exists>u'. main_thread u u') \<or> (\<exists>s. thread_step pol THREADS user_role (threads u) s))"
proof -
  have inv: "user_inv u"
    using user_main.reach_inv [of user_main_start pol u] assms real_policy by blast
  then have rw: "rw_inv THREADS user_role (threads u)" by (simp add: user_inv_def)
  show ?thesis
  proof (cases "upc u")
    case (UJoin i)
    then have "\<exists>u'. main_thread u u'" if "\<forall>t < THREADS. pcs (threads u) t = Exited"
      using that by (cases "i < THREADS") (blast intro: main_thread.joins main_thread.destroys)+
    with UJoin inv_progress [OF rw, of pol] show ?thesis by auto
  qed (use inv inv_finished [OF rw] in \<open>auto simp: user_inv_def intro: main_thread.wakes_up\<close>)
qed

end
