(* ===== verification/Practica_Threads.thy ===== *)
theory Practica_Threads
  imports Http_Prelude
begin

text \<open>
  The four thread exercises in which two threads increment a shared counter: without protection
  (\<open>practica/pthreads/locks/no_locks.c\<close>), under a mutex (\<open>locks.c\<close>), under a semaphore
  (\<open>sema/sema.c\<close>) and in the order of their ids through a condition variable
  (\<open>condvars/condvars.c\<close>). The increment is a load and a store, so that the threads can interleave
  inside it. The trial is modelled here: both threads created, run and joined. \<^verbatim>\<open>Practica_Main\<close> has the
  \<open>main\<close> functions around it.
\<close>

section \<open>The programs\<close>

datatype program = No_locks | Locks | Sema | Condvars

datatype cpc =
    CStart | CTest | CSleep | CWoken | CLoad | CStore | CRelease | CSignal | CDone

text \<open>\<open>tok\<close> is 1 while the mutex is free, and the value of the semaphore.\<close>

record ctr_sys =
  ctr :: int
  tok :: nat
  cpcs :: "nat \<Rightarrow> cpc"
  reg :: "nat \<Rightarrow> int"
  incs :: "nat list"

definition goto :: "nat \<Rightarrow> cpc \<Rightarrow> ctr_sys \<Rightarrow> ctr_sys" where
  "goto t c s = s\<lparr>cpcs := (cpcs s)(t := c)\<rparr>"

text \<open>\<open>i++\<close> of thread \<open>t\<close>, which goes on at \<open>next\<close>.\<close>

definition increment :: "nat \<Rightarrow> cpc \<Rightarrow> ctr_sys \<Rightarrow> ctr_sys \<Rightarrow> bool" where
  "increment t next s s' \<longleftrightarrow>
     cpcs s t = CLoad \<and> s' = goto t CStore (s\<lparr>reg := (reg s)(t := ctr s)\<rparr>)
   \<or> cpcs s t = CStore \<and> s' = goto t next (s\<lparr>ctr := reg s t + 1, incs := incs s @ [t]\<rparr>)"

text \<open>Taking and giving back the token: \<open>pthread_mutex_lock\<close> and \<open>unlock\<close>, \<open>sem_wait\<close> and \<open>sem_post\<close>.\<close>

definition take_token :: "nat \<Rightarrow> cpc \<Rightarrow> ctr_sys \<Rightarrow> ctr_sys \<Rightarrow> bool" where
  "take_token t next s s' \<longleftrightarrow> 0 < tok s \<and> s' = goto t next (s\<lparr>tok := tok s - 1\<rparr>)"

definition give_token :: "nat \<Rightarrow> cpc \<Rightarrow> ctr_sys \<Rightarrow> ctr_sys \<Rightarrow> bool" where
  "give_token t next s s' \<longleftrightarrow> s' = goto t next (s\<lparr>tok := tok s + 1\<rparr>)"

text \<open>\<open>thread\<close> of the four programs; thread \<open>t\<close> of \<open>condvars.c\<close> has the id \<open>t\<close>.\<close>

inductive no_locks_step :: "ctr_sys \<Rightarrow> ctr_sys \<Rightarrow> bool" where
  start: "t < 2 \<Longrightarrow> cpcs s t = CStart \<Longrightarrow> no_locks_step s (goto t CLoad s)"
| incr: "t < 2 \<Longrightarrow> increment t CDone s s' \<Longrightarrow> no_locks_step s s'"

inductive locks_step :: "ctr_sys \<Rightarrow> ctr_sys \<Rightarrow> bool" where
  lock: "t < 2 \<Longrightarrow> cpcs s t = CStart \<Longrightarrow> take_token t CLoad s s' \<Longrightarrow> locks_step s s'"
| incr: "t < 2 \<Longrightarrow> increment t CRelease s s' \<Longrightarrow> locks_step s s'"
| unlock: "t < 2 \<Longrightarrow> cpcs s t = CRelease \<Longrightarrow> give_token t CDone s s' \<Longrightarrow> locks_step s s'"

inductive sema_step :: "ctr_sys \<Rightarrow> ctr_sys \<Rightarrow> bool" where
  sem_wait: "t < 2 \<Longrightarrow> cpcs s t = CStart \<Longrightarrow> take_token t CLoad s s' \<Longrightarrow> sema_step s s'"
| incr: "t < 2 \<Longrightarrow> increment t CRelease s s' \<Longrightarrow> sema_step s s'"
| sem_post: "t < 2 \<Longrightarrow> cpcs s t = CRelease \<Longrightarrow> give_token t CDone s s' \<Longrightarrow> sema_step s s'"

inductive condvars_step :: "ctr_sys \<Rightarrow> ctr_sys \<Rightarrow> bool" where
  lock: "t < 2 \<Longrightarrow> cpcs s t = CStart \<Longrightarrow> take_token t CTest s s' \<Longrightarrow> condvars_step s s'"
| cond_wait: "t < 2 \<Longrightarrow> cpcs s t = CTest \<Longrightarrow> ctr s < int t \<Longrightarrow> give_token t CSleep s s' \<Longrightarrow>
    condvars_step s s'"
| wakes: "t < 2 \<Longrightarrow> cpcs s t = CWoken \<Longrightarrow> take_token t CTest s s' \<Longrightarrow> condvars_step s s'"
| turn: "t < 2 \<Longrightarrow> cpcs s t = CTest \<Longrightarrow> \<not> ctr s < int t \<Longrightarrow> condvars_step s (goto t CLoad s)"
| incr: "t < 2 \<Longrightarrow> increment t CRelease s s' \<Longrightarrow> condvars_step s s'"
| unlock: "t < 2 \<Longrightarrow> cpcs s t = CRelease \<Longrightarrow> give_token t CSignal s s' \<Longrightarrow> condvars_step s s'"
| signal_one: "t < 2 \<Longrightarrow> cpcs s t = CSignal \<Longrightarrow> u < 2 \<Longrightarrow> cpcs s u = CSleep \<Longrightarrow>
    condvars_step s (goto t CDone (goto u CWoken s))"
| signal_none: "t < 2 \<Longrightarrow> cpcs s t = CSignal \<Longrightarrow> \<forall>u < 2. cpcs s u \<noteq> CSleep \<Longrightarrow>
    condvars_step s (goto t CDone s)"

fun ctr_step :: "program \<Rightarrow> ctr_sys \<Rightarrow> ctr_sys \<Rightarrow> bool" where
  "ctr_step No_locks = no_locks_step"
| "ctr_step Locks = locks_step"
| "ctr_step Sema = sema_step"
| "ctr_step Condvars = condvars_step"

lemmas token_defs = increment_def take_token_def give_token_def

definition spurious_wakeup :: "ctr_sys \<Rightarrow> ctr_sys \<Rightarrow> bool" where
  "spurious_wakeup s s' \<longleftrightarrow> (\<exists>t < 2. cpcs s t = CSleep \<and> s' = goto t CWoken s)"

definition trial_step :: "program \<Rightarrow> ctr_sys \<Rightarrow> ctr_sys \<Rightarrow> bool" where
  "trial_step g s s' \<longleftrightarrow> ctr_step g s s' \<or> spurious_wakeup s s'"

definition trial_start :: ctr_sys where
  "trial_start = \<lparr>ctr = 0, tok = 1, cpcs = (\<lambda>_. CStart), reg = (\<lambda>_. 0), incs = []\<rparr>"

definition both_done :: "ctr_sys \<Rightarrow> bool" where
  "both_done s \<longleftrightarrow> cpcs s 0 = CDone \<and> cpcs s 1 = CDone"

section \<open>What protection gives\<close>

fun holding :: "cpc \<Rightarrow> nat" where
  "holding CTest = 1" | "holding CLoad = 1" | "holding CStore = 1" | "holding CRelease = 1"
| "holding _ = 0"

fun counted :: "cpc \<Rightarrow> nat" where
  "counted CRelease = 1" | "counted CSignal = 1" | "counted CDone = 1"
| "counted _ = 0"

text \<open>One token; the counter is the number of increments done; a thread about to store has read the
  current value; and with the condition variable, thread 1 gets through only after thread 0, and
  sleeps only while the increment or the signal of thread 0 is still to come.\<close>

definition ctr_inv :: "program \<Rightarrow> ctr_sys \<Rightarrow> bool" where
  "ctr_inv g s \<longleftrightarrow> tok s + holding (cpcs s 0) + holding (cpcs s 1) = 1
     \<and> ctr s = int (counted (cpcs s 0) + counted (cpcs s 1))
     \<and> (\<forall>t < 2. cpcs s t = CStore \<longrightarrow> reg s t = ctr s)"

definition turn_inv :: "ctr_sys \<Rightarrow> bool" where
  "turn_inv s \<longleftrightarrow> cpcs s 0 \<noteq> CSleep \<and> cpcs s 0 \<noteq> CWoken
     \<and> (cpcs s 1 = CLoad \<or> cpcs s 1 = CStore \<or> counted (cpcs s 1) = 1 \<longrightarrow> counted (cpcs s 0) = 1)
     \<and> (cpcs s 1 = CSleep \<longrightarrow> cpcs s 0 \<noteq> CDone)
     \<and> incs s = (if counted (cpcs s 0) = 1 then [0] else [])
         @ (if counted (cpcs s 1) = 1 then [1] else [])"

lemma two_threads: "t < 2 \<Longrightarrow> t = 0 \<or> t = (1 :: nat)"
  by auto

lemma all_two: "(\<forall>t < 2. P t) \<longleftrightarrow> P 0 \<and> P (1 :: nat)"
  by (auto simp: less_2_cases_iff)

lemmas two_thread_simps = goto_def all_two

lemma locks_inv: "locks_step s s' \<Longrightarrow> ctr_inv g s \<Longrightarrow> ctr_inv g s'"
  by (induction rule: locks_step.induct)
    (simp_all add: ctr_inv_def two_thread_simps token_defs del: One_nat_def,
      (auto simp del: One_nat_def dest!: two_threads split: if_splits)+)

lemma sema_locks: "sema_step = locks_step"
  by (intro ext) (auto simp: sema_step.simps locks_step.simps)

lemma condvars_inv: "condvars_step s s' \<Longrightarrow> ctr_inv g s \<Longrightarrow> ctr_inv g s'"
  by (induction rule: condvars_step.induct)
    (simp_all add: ctr_inv_def two_thread_simps token_defs del: One_nat_def,
      (auto simp del: One_nat_def dest!: two_threads split: if_splits)+)

lemma ctr_step_inv: "ctr_step g s s' \<Longrightarrow> g \<noteq> No_locks \<Longrightarrow> ctr_inv g s \<Longrightarrow> ctr_inv g s'"
  by (cases g) (auto simp: sema_locks intro: locks_inv condvars_inv)

lemma spurious_inv: "spurious_wakeup s s' \<Longrightarrow> ctr_inv g s \<Longrightarrow> ctr_inv g s'"
  unfolding spurious_wakeup_def
  by (auto simp: ctr_inv_def two_thread_simps simp del: One_nat_def dest!: two_threads)

lemma counted_pos [simp]: "0 < counted c \<longleftrightarrow> counted c = 1"
  by (cases c) simp_all

lemma increment_turn:
  "increment t CRelease s s' \<Longrightarrow> t < 2 \<Longrightarrow> ctr_inv g s \<Longrightarrow> turn_inv s \<Longrightarrow> turn_inv s'"
  by (drule two_threads; unfold increment_def; elim disjE conjE; simp only:)
    (simp add: ctr_inv_def turn_inv_def two_thread_simps del: One_nat_def, force?)+

lemma condvars_turn: "condvars_step s s' \<Longrightarrow> ctr_inv g s \<Longrightarrow> turn_inv s \<Longrightarrow> turn_inv s'"
proof (induction rule: condvars_step.induct)
  case (incr t s s')
  then show ?case by (blast intro: increment_turn)
qed (simp_all add: ctr_inv_def turn_inv_def two_thread_simps take_token_def give_token_def
      del: One_nat_def,
    (auto simp del: One_nat_def dest!: two_threads split: if_splits)+)

lemma spurious_turn: "spurious_wakeup s s' \<Longrightarrow> turn_inv s \<Longrightarrow> turn_inv s'"
  unfolding spurious_wakeup_def
  by (auto simp: turn_inv_def goto_def simp del: One_nat_def dest!: two_threads)

text \<open>Only the last program tests and sleeps.\<close>

definition plain_inv :: "ctr_sys \<Rightarrow> bool" where
  "plain_inv s \<longleftrightarrow> (\<forall>t < 2. cpcs s t \<in> {CStart, CLoad, CStore, CRelease, CDone})"

lemma ctr_step_plain:
  "ctr_step g s s' \<Longrightarrow> g \<noteq> No_locks \<Longrightarrow> g \<noteq> Condvars \<Longrightarrow> plain_inv s \<Longrightarrow> plain_inv s'"
  by (cases g; simp add: sema_locks; elim locks_step.cases; drule two_threads;
      auto simp: plain_inv_def two_thread_simps token_defs simp del: One_nat_def)

lemma spurious_plain: "spurious_wakeup s s' \<Longrightarrow> plain_inv s \<Longrightarrow> plain_inv s'"
  by (fastforce simp: spurious_wakeup_def plain_inv_def)

definition trial_inv :: "program \<Rightarrow> ctr_sys \<Rightarrow> bool" where
  "trial_inv g s \<longleftrightarrow> g = No_locks \<or> ctr_inv g s \<and> (if g = Condvars then turn_inv s else plain_inv s)"

lemma trial_step_inv: "trial_step g s s' \<Longrightarrow> trial_inv g s \<Longrightarrow> trial_inv g s'"
  unfolding trial_step_def trial_inv_def
  by (auto intro: ctr_step_inv spurious_inv condvars_turn spurious_turn ctr_step_plain spurious_plain)

lemma trial_start_inv: "trial_inv g trial_start"
  by (simp add: trial_inv_def ctr_inv_def turn_inv_def plain_inv_def trial_start_def)

interpretation trial: invariant_system "\<lambda>s. s = trial_start" "trial_step g" "trial_inv g" for g
  by unfold_locales (simp_all add: trial_start_inv trial_step_inv)

section \<open>Who can move\<close>

text \<open>The protected programs; a thread that tests or sleeps belongs to the last of them.\<close>

definition waits :: "cpc \<Rightarrow> bool" where
  "waits c \<longleftrightarrow> c \<in> {CTest, CSleep, CWoken, CSignal}"

lemma holder_moves:
  assumes "t < 2" and "holding (cpcs s t) = 1" and "g \<noteq> No_locks" and "waits (cpcs s t) \<longrightarrow> g = Condvars"
  shows "\<exists>s'. ctr_step g s s'"
  using assms
  by (cases "cpcs s t"; cases g; cases "ctr s < int t")
    (auto simp: waits_def locks_step.simps sema_step.simps condvars_step.simps token_defs)

lemma signaller_moves: "t < 2 \<Longrightarrow> cpcs s t = CSignal \<Longrightarrow> \<exists>s'. ctr_step Condvars s s'"
  by (cases "\<exists>u < 2. cpcs s u = CSleep")
    (auto intro: condvars_step.signal_one condvars_step.signal_none)

lemma free_moves:
  assumes "t < 2" and "0 < tok s" and "cpcs s t \<noteq> CDone" and "cpcs s t \<noteq> CSleep"
    and "g \<noteq> No_locks" and "waits (cpcs s t) \<longrightarrow> g = Condvars"
  shows "\<exists>s'. ctr_step g s s'"
proof (cases "cpcs s t = CSignal \<or> holding (cpcs s t) = 1")
  case True
  with assms(1,5,6) show ?thesis
    using holder_moves signaller_moves by (auto simp: waits_def)
next
  case False
  with assms show ?thesis
    by (cases "cpcs s t"; cases g)
      (auto simp: waits_def locks_step.simps sema_step.simps condvars_step.simps token_defs)
qed

lemma token_or_holder: "ctr_inv g s \<Longrightarrow> 0 < tok s \<or> (\<exists>t < 2. holding (cpcs s t) = 1)"
proof -
  assume "ctr_inv g s"
  then have "tok s + holding (cpcs s 0) + holding (cpcs s 1) = 1" by (simp add: ctr_inv_def)
  then have "0 < tok s \<or> holding (cpcs s 0) = 1 \<or> holding (cpcs s 1) = 1" by linarith
  then show ?thesis by (metis one_less_numeral_iff semiring_norm(76) zero_less_numeral)
qed

lemma trial_waits: "trial_inv g s \<Longrightarrow> g \<noteq> No_locks \<Longrightarrow> t < 2 \<Longrightarrow> waits (cpcs s t) \<longrightarrow> g = Condvars"
  by (auto simp: trial_inv_def plain_inv_def waits_def split: if_splits)

lemma trial_moves:
  assumes "trial_inv g s" and "g \<noteq> No_locks" and "t < 2" and "cpcs s t \<noteq> CDone"
  shows "\<exists>s'. ctr_step g s s'"
proof (cases "0 < tok s")
  case False
  with token_or_holder assms(1,2) obtain u where "u < 2" "holding (cpcs s u) = 1"
    by (force simp: trial_inv_def)
  with holder_moves trial_waits [OF assms(1,2)] assms(2) show ?thesis by blast
next
  case True
  show ?thesis
  proof (cases "cpcs s t = CSleep")
    case True
    then have "g = Condvars" using trial_waits [OF assms(1-3)] by (simp add: waits_def)
    with assms True have "cpcs s 0 \<noteq> CDone" "cpcs s 0 \<noteq> CSleep"
      by (auto simp: trial_inv_def turn_inv_def dest: two_threads)
    with free_moves [of 0 s g] \<open>0 < tok s\<close> \<open>g = Condvars\<close> show ?thesis by simp
  qed (use free_moves assms trial_waits [OF assms(1-3)] True in blast)
qed

end
