(* ===== verification/Practica_Main.thy ===== *)
theory Practica_Main
  imports Practica_Threads
begin

text \<open>
  The \<open>main\<close> functions of the counter exercises. \<open>locks.c\<close>, \<open>sema.c\<close> and \<open>no_locks.c\<close> repeat the trial
  a million times, count the trials that do not end with 2 and report; the mutex or semaphore is
  initialised before the loop, stays across the trials and is destroyed at the end. \<open>condvars.c\<close>
  runs the trial once.
\<close>

section \<open>The loop of trials\<close>

definition TRIALS :: int where
  "TRIALS = 1000000"

definition oh_no :: "int \<Rightarrow> bytes" where
  "oh_no i = ''oh no! result was '' @ dec_of_int i @ [CHR 0x0A]"

definition report :: "int \<Rightarrow> int \<Rightarrow> bytes" where
  "report avios count = ''found '' @ dec_of_int avios @ '' violations in '' @ dec_of_int count
     @ '' trials'' @ [CHR 0x0A]"

datatype main_pc = MLoop | MJoin | MDestroy | MExit | MAbort

record main_sys =
  tr :: ctr_sys
  count :: int
  avios :: int
  mpc :: main_pc
  printed :: bytes

text \<open>\<open>i = 0\<close> and the two \<open>pthread_create\<close>s. A thread that is created later is one that takes its
  first step later.\<close>

definition begin_trial :: "ctr_sys \<Rightarrow> ctr_sys" where
  "begin_trial s = s\<lparr>ctr := 0, cpcs := (\<lambda>_. CStart), incs := []\<rparr>"

text \<open>\<open>pthread_mutex_destroy\<close> refuses a locked mutex; \<open>sem_destroy\<close> succeeds, and \<open>no_locks.c\<close> has
  nothing to destroy.\<close>

definition destroy_ok :: "program \<Rightarrow> ctr_sys \<Rightarrow> bool" where
  "destroy_ok g s \<longleftrightarrow> (g = Locks \<longrightarrow> tok s = 1)"

inductive loop_step :: "program \<Rightarrow> main_sys \<Rightarrow> main_sys \<Rightarrow> bool" for g :: program where
  trial: "mpc m = MLoop \<Longrightarrow> count m < TRIALS \<Longrightarrow>
    loop_step g m (m\<lparr>tr := begin_trial (tr m), mpc := MJoin\<rparr>)"
| threads: "mpc m = MJoin \<Longrightarrow> trial_step g (tr m) s \<Longrightarrow> loop_step g m (m\<lparr>tr := s\<rparr>)"
| violation: "mpc m = MJoin \<Longrightarrow> both_done (tr m) \<Longrightarrow> ctr (tr m) \<noteq> 2 \<Longrightarrow>
    loop_step g m (m\<lparr>printed := printed m @ oh_no (ctr (tr m)), avios := avios m + 1,
      count := count m + 1, mpc := MLoop\<rparr>)"
| fine: "mpc m = MJoin \<Longrightarrow> both_done (tr m) \<Longrightarrow> \<not> ctr (tr m) \<noteq> 2 \<Longrightarrow>
    loop_step g m (m\<lparr>count := count m + 1, mpc := MLoop\<rparr>)"
| reports: "mpc m = MLoop \<Longrightarrow> \<not> count m < TRIALS \<Longrightarrow>
    loop_step g m (m\<lparr>printed := printed m @ report (avios m) (count m), mpc := MDestroy\<rparr>)"
| exits: "mpc m = MDestroy \<Longrightarrow> destroy_ok g (tr m) \<Longrightarrow> loop_step g m (m\<lparr>mpc := MExit\<rparr>)"
| aborts: "mpc m = MDestroy \<Longrightarrow> \<not> destroy_ok g (tr m) \<Longrightarrow> loop_step g m (m\<lparr>mpc := MAbort\<rparr>)"

definition main_start :: main_sys where
  "main_start = \<lparr>tr = trial_start, count = 0, avios = 0, mpc = MLoop, printed = []\<rparr>"

section \<open>The programs with a token\<close>

definition token_program :: "program \<Rightarrow> bool" where
  "token_program g \<longleftrightarrow> g = Locks \<or> g = Sema"

text \<open>Between trials the token is back; during a trial its invariant holds; there is no violation.\<close>

definition loop_inv :: "program \<Rightarrow> main_sys \<Rightarrow> bool" where
  "loop_inv g m \<longleftrightarrow> avios m = 0 \<and> count m \<le> TRIALS
     \<and> (case mpc m of
          MLoop \<Rightarrow> tok (tr m) = 1 \<and> printed m = []
        | MJoin \<Rightarrow> trial_inv g (tr m) \<and> count m < TRIALS \<and> printed m = []
        | MDestroy \<Rightarrow> tok (tr m) = 1 \<and> printed m = report 0 TRIALS
        | MExit \<Rightarrow> printed m = report 0 TRIALS
        | MAbort \<Rightarrow> False)"

lemma begin_trial_inv: "tok s = 1 \<Longrightarrow> trial_inv g (begin_trial s)"
  by (simp add: trial_inv_def ctr_inv_def turn_inv_def plain_inv_def begin_trial_def)

lemma trial_result: "trial_inv g s \<Longrightarrow> g \<noteq> No_locks \<Longrightarrow> both_done s \<Longrightarrow> ctr s = 2 \<and> tok s = 1"
  by (auto simp: trial_inv_def ctr_inv_def both_done_def)

lemma loop_step_inv:
  assumes "loop_step g m m'" and "loop_inv g m" and "token_program g"
  shows "loop_inv g m'"
  using assms
proof (induction rule: loop_step.induct)
  case (threads m s)
  then show ?case by (auto simp: loop_inv_def intro: trial_step_inv)
next
  case (violation m)
  then show ?case using trial_result [of g "tr m"] by (auto simp: loop_inv_def token_program_def)
next
  case (fine m)
  then show ?case using trial_result [of g "tr m"] by (auto simp: loop_inv_def token_program_def)
qed (auto simp: loop_inv_def destroy_ok_def begin_trial_inv)

lemma main_start_inv: "loop_inv g main_start"
  by (simp add: main_start_def loop_inv_def trial_start_def TRIALS_def)

interpretation looping: invariant_system "\<lambda>m. m = main_start \<and> token_program g" "loop_step g"
    "\<lambda>m. token_program g \<and> loop_inv g m" for g
  by unfold_locales (auto simp: main_start_inv intro: loop_step_inv)

text \<open>How far the loop is from its end: what the current trial has to go, and twenty for each trial
  to come.\<close>

fun thread_left :: "cpc \<Rightarrow> nat" where
  "thread_left CStart = 4" | "thread_left CLoad = 3" | "thread_left CStore = 2"
| "thread_left CRelease = 1" | "thread_left _ = 0"

definition trial_left :: "ctr_sys \<Rightarrow> nat" where
  "trial_left s = thread_left (cpcs s 0) + thread_left (cpcs s 1)"

definition loop_left :: "main_sys \<Rightarrow> nat" where
  "loop_left m = (let k = 20 * nat (TRIALS - count m) in
     case mpc m of MLoop \<Rightarrow> k + 2 | MJoin \<Rightarrow> k - 10 + trial_left (tr m) | MDestroy \<Rightarrow> 1 | _ \<Rightarrow> 0)"

lemma locks_left: "locks_step s s' \<Longrightarrow> trial_left s' < trial_left s"
  by (elim locks_step.cases; drule two_threads)
    (auto simp: trial_left_def token_defs goto_def simp del: One_nat_def)

lemma trial_step_left:
  assumes "trial_step g s s'" and "token_program g" and "trial_inv g s"
  shows "trial_left s' < trial_left s"
proof -
  have "plain_inv s" using assms(2,3) by (auto simp: token_program_def trial_inv_def)
  then have "\<not> spurious_wakeup s s'" by (auto simp: plain_inv_def spurious_wakeup_def)
  with assms(1,2) have "locks_step s s'" by (auto simp: trial_step_def token_program_def sema_locks)
  then show ?thesis by (rule locks_left)
qed

lemma loop_step_left:
  assumes "loop_step g m m'" and "token_program g" and "loop_inv g m"
  shows "loop_left m' < loop_left m"
  using assms
proof (induction rule: loop_step.induct)
  case (threads m s)
  with trial_step_left [of g "tr m" s] show ?case by (simp add: loop_left_def loop_inv_def)
qed (auto simp: loop_left_def loop_inv_def Let_def trial_left_def begin_trial_def)

lemma loop_stuck:
  assumes "loop_inv g m" and "token_program g" and "\<nexists>m'. loop_step g m m'"
  shows "mpc m = MExit"
proof (cases "mpc m")
  case MLoop
  with assms(3) show ?thesis by (meson loop_step.trial loop_step.reports)
next
  case MJoin
  then have inv: "trial_inv g (tr m)" using assms(1) by (simp add: loop_inv_def)
  have "\<nexists>s. ctr_step g (tr m) s"
    using MJoin assms(3) by (meson loop_step.threads trial_step_def)
  then have "both_done (tr m)"
    using trial_moves [OF inv, of 0] trial_moves [OF inv, of 1] assms(2)
    by (auto simp: both_done_def token_program_def)
  with MJoin assms(3) show ?thesis by (meson loop_step.violation loop_step.fine)
next
  case MDestroy
  with assms(3) show ?thesis by (meson loop_step.exits loop_step.aborts)
qed (use assms(1) in \<open>simp_all add: loop_inv_def\<close>)

section \<open>Without protection\<close>

lemma lost_update:
  "\<exists>s'. (trial_step No_locks)\<^sup>*\<^sup>* (begin_trial s) s' \<and> both_done s' \<and> ctr s' = 1"
proof -
  define s1 where "s1 = goto 0 CLoad (begin_trial s)"
  define s2 where "s2 = goto 1 CLoad s1"
  define s3 where "s3 = goto 0 CStore (s2\<lparr>reg := (reg s2)(0 := ctr s2)\<rparr>)"
  define s4 where "s4 = goto 1 CStore (s3\<lparr>reg := (reg s3)(1 := ctr s3)\<rparr>)"
  define s5 where "s5 = goto 0 CDone (s4\<lparr>ctr := reg s4 0 + 1, incs := incs s4 @ [0]\<rparr>)"
  define s6 where "s6 = goto 1 CDone (s5\<lparr>ctr := reg s5 1 + 1, incs := incs s5 @ [1]\<rparr>)"
  note defs = s1_def s2_def s3_def s4_def s5_def s6_def begin_trial_def goto_def increment_def
  have "no_locks_step (begin_trial s) s1" unfolding s1_def
    by (rule no_locks_step.start) (simp_all add: defs)
  moreover have "no_locks_step s1 s2" unfolding s2_def
    by (rule no_locks_step.start) (simp_all add: defs)
  moreover have "no_locks_step s2 s3" by (rule no_locks_step.incr [of 0]) (simp_all add: defs)
  moreover have "no_locks_step s3 s4" by (rule no_locks_step.incr [of 1]) (simp_all add: defs)
  moreover have "no_locks_step s4 s5" by (rule no_locks_step.incr [of 0]) (simp_all add: defs)
  moreover have "no_locks_step s5 s6" by (rule no_locks_step.incr [of 1]) (simp_all add: defs)
  ultimately have "no_locks_step\<^sup>*\<^sup>* (begin_trial s) s6"
    by (meson converse_rtranclp_into_rtranclp rtranclp.rtrancl_refl)
  then have "(trial_step No_locks)\<^sup>*\<^sup>* (begin_trial s) s6"
    by (rule rtranclp_mono [THEN predicate2D, rotated]) (auto simp: trial_step_def)
  moreover have "both_done s6" "ctr s6 = 1" by (simp_all add: both_done_def defs)
  ultimately show ?thesis by blast
qed

lemma loop_threads:
  "(trial_step g)\<^sup>*\<^sup>* s s' \<Longrightarrow> mpc m = MJoin \<Longrightarrow> tr m = s \<Longrightarrow> (loop_step g)\<^sup>*\<^sup>* m (m\<lparr>tr := s'\<rparr>)"
proof (induction rule: rtranclp_induct)
  case base
  then have "m\<lparr>tr := s\<rparr> = m" by (cases m) simp
  then show ?case by simp
next
  case (step s' s'')
  have "loop_step g (m\<lparr>tr := s'\<rparr>) ((m\<lparr>tr := s'\<rparr>)\<lparr>tr := s''\<rparr>)"
    by (rule loop_step.threads) (use step in simp_all)
  with step show ?case by auto
qed

text \<open>Every trial of \<open>no_locks.c\<close> can go wrong.\<close>

lemma violations_add_up:
  "int k \<le> TRIALS \<Longrightarrow>
    \<exists>m. (loop_step No_locks)\<^sup>*\<^sup>* main_start m \<and> mpc m = MLoop \<and> count m = int k \<and> avios m = int k"
proof (induction k)
  case 0
  show ?case by (rule exI [of _ main_start]) (simp add: main_start_def)
next
  case (Suc k)
  then obtain m where m: "(loop_step No_locks)\<^sup>*\<^sup>* main_start m" "mpc m = MLoop" "count m = int k"
    "avios m = int k" by auto
  let ?m = "m\<lparr>tr := begin_trial (tr m), mpc := MJoin\<rparr>"
  from lost_update [of "tr m"] obtain s where s: "(trial_step No_locks)\<^sup>*\<^sup>* (begin_trial (tr m)) s"
    "both_done s" "ctr s = 1" by blast
  have "loop_step No_locks m ?m" by (rule loop_step.trial) (use m Suc.prems in simp_all)
  moreover have "(loop_step No_locks)\<^sup>*\<^sup>* ?m (?m\<lparr>tr := s\<rparr>)" by (rule loop_threads [OF s(1)]) simp_all
  moreover have "loop_step No_locks (?m\<lparr>tr := s\<rparr>) ((?m\<lparr>tr := s\<rparr>)\<lparr>printed := printed m @ oh_no 1,
      avios := int k + 1, count := int k + 1, mpc := MLoop\<rparr>)"
    using loop_step.violation [of "?m\<lparr>tr := s\<rparr>" No_locks] s m by simp
  ultimately have "(loop_step No_locks)\<^sup>*\<^sup>* main_start ((?m\<lparr>tr := s\<rparr>)\<lparr>printed := printed m @ oh_no 1,
      avios := int k + 1, count := int k + 1, mpc := MLoop\<rparr>)"
    using m(1) by (meson rtranclp.rtrancl_into_rtrancl rtranclp_trans)
  then show ?case by (intro exI conjI) (assumption, simp_all)
qed

section \<open>Property\<close>

text \<open>
  C39: what the counter programs report. \<open>locks.c\<close> and \<open>sema.c\<close> always end, whatever the schedule:
  every step of \<open>main\<close> or of a thread brings the end closer, the only stop is the normal exit, and
  what has been printed then is "found 0 violations in 1000000 trials". The two threads of
  \<open>condvars.c\<close> never block each other for good, end with the counter at 2 and increment in the order
  of their ids. \<open>no_locks.c\<close> can exit after a report of a violation in every trial.
\<close>

theorem counter_programs:
  "(\<forall>g m. token_program g \<and> (loop_step g)\<^sup>*\<^sup>* main_start m \<longrightarrow>
      (\<forall>m'. loop_step g m m' \<longrightarrow> loop_left m' < loop_left m)
      \<and> ((\<nexists>m'. loop_step g m m') \<longrightarrow> mpc m = MExit \<and> printed m = report 0 TRIALS))
   \<and> (\<forall>s. (trial_step Condvars)\<^sup>*\<^sup>* trial_start s \<longrightarrow>
      (if both_done s then ctr s = 2 else \<exists>s'. ctr_step Condvars s s') \<and> prefix (incs s) [0, 1])
   \<and> (\<exists>m. (loop_step No_locks)\<^sup>*\<^sup>* main_start m \<and> mpc m = MExit
        \<and> suffix (report TRIALS TRIALS) (printed m))"
proof (intro conjI allI impI)
  fix g m assume g: "token_program g \<and> (loop_step g)\<^sup>*\<^sup>* main_start m"
  then have inv: "loop_inv g m" using looping.reach_inv [of main_start g m] by simp
  show "loop_left m' < loop_left m" if "loop_step g m m'" for m'
    using loop_step_left [OF that] g inv by simp
  show "mpc m = MExit" "printed m = report 0 TRIALS" if "\<nexists>m'. loop_step g m m'"
    using loop_stuck [OF inv _ that] g inv by (auto simp: loop_inv_def)
next
  fix s assume "(trial_step Condvars)\<^sup>*\<^sup>* trial_start s"
  then have inv: "trial_inv Condvars s" using trial.reach_inv [of trial_start Condvars s] by simp
  show "if both_done s then ctr s = 2 else \<exists>s'. ctr_step Condvars s s'"
    using trial_result [OF inv] trial_moves [OF inv, of 0] trial_moves [OF inv, of 1]
    by (auto simp: both_done_def)
  show "prefix (incs s) [0, 1]" using inv by (auto simp: trial_inv_def turn_inv_def)
next
  obtain m where m: "(loop_step No_locks)\<^sup>*\<^sup>* main_start m" "mpc m = MLoop" "count m = TRIALS"
    "avios m = TRIALS" using violations_add_up [of "nat TRIALS"] by (auto simp: TRIALS_def)
  let ?m = "m\<lparr>printed := printed m @ report TRIALS TRIALS, mpc := MDestroy\<rparr>"
  have "loop_step No_locks m ?m" using loop_step.reports [of m No_locks] m by simp
  moreover have "loop_step No_locks ?m (?m\<lparr>mpc := MExit\<rparr>)"
    by (rule loop_step.exits) (simp_all add: destroy_ok_def)
  ultimately have "(loop_step No_locks)\<^sup>*\<^sup>* main_start (?m\<lparr>mpc := MExit\<rparr>)"
    using m(1) by (meson rtranclp.rtrancl_into_rtrancl)
  then show "\<exists>m. (loop_step No_locks)\<^sup>*\<^sup>* main_start m \<and> mpc m = MExit
      \<and> suffix (report TRIALS TRIALS) (printed m)"
    by (intro exI conjI) (assumption, simp_all add: suffix_def)
qed

theorem counter_programs_witness:
  "(\<exists>s'. ctr_step Condvars trial_start s') \<and> \<not> (\<nexists>m'. loop_step Sema main_start m')"
  using counter_programs [THEN conjunct1, rule_format, of Sema main_start]
    counter_programs [THEN conjunct2, THEN conjunct1, rule_format, of trial_start]
  by (auto simp: both_done_def trial_start_def token_program_def main_start_def)

end
