(* ===== verification/Practica_Basics.thy ===== *)
theory Practica_Basics
  imports Http_Prelude "HOL-Library.Word" "HOL-Library.Multiset"
begin

text \<open>
  The two introductory exercises: the template \<open>practica/file_io/dump_file.c\<close> and
  \<open>practica/pthreads/using_threads/using_thread.c\<close>, where \<open>main\<close> creates two threads that print and
  return their argument.
\<close>

section \<open>The file template\<close>

definition dump_usage :: "bytes \<Rightarrow> bytes" where
  "dump_usage exec = ''usage: '' @ exec @ '' filename'' @ [CHR 0x0A, CHR 0x0A]
     @ ''Writes the contents of filename to stdout.'' @ [CHR 0x0A]
     @ ''If there is no file named filename, prints '' @ [CHR 0x27] @ ''Invalid'' @ [CHR 0x0A]
     @ ''filename'' @ [CHR 0x5C] @ ''n'' @ [CHR 0x27] @ '' to stderr and exits.'' @ [CHR 0x0A, CHR 0x0A]
     @ ''Note: this differs from your memory in a few key ways:'' @ [CHR 0x0A]
     @ ''(1) dump_file takes the filename through a command line'' @ [CHR 0x0A]
     @ ''    argument whereas memory takes all input through stdin'' @ [CHR 0x0A]
     @ ''(2) dump_file only supports '' @ [CHR 0x27] @ ''gets'' @ [CHR 0x27]
     @ '' of a file whereas memory'' @ [CHR 0x0A]
     @ ''    supports both getting and setting a file'' @ [CHR 0x27] @ ''s contents'' @ [CHR 0x0A]"

text \<open>\<open>main\<close>: what is written to standard output, and the status. Nothing is done with the name yet.\<close>

definition dump_main :: "bytes list \<Rightarrow> bytes \<times> int" where
  "dump_main argv = (if length argv < 2 then (dump_usage (argv ! 0), 1) else ([], 0))"

section \<open>Two threads\<close>

text \<open>A thread that exists has its argument, and prints it before it returns it.\<close>

datatype tpc = Absent | Running "64 word" | Returned "64 word"

text \<open>\<open>main\<close>, by the statement that comes next.\<close>

datatype main_at = Create1 | Create2 | Say_main | Join1 | Join2 "64 word" | Report "64 word" "64 word" | Over

record two_sys =
  tpcs :: "nat \<Rightarrow> tpc"
  main_at :: main_at
  err_lines :: "bytes list"
  out :: bytes

definition dec_of_word :: "64 word \<Rightarrow> bytes" where
  "dec_of_word w = dec_of_nat (unat w)"

definition thread_line :: "64 word \<Rightarrow> bytes" where
  "thread_line a = ''I am thread '' @ dec_of_word a @ ''!'' @ [CHR 0x0A]"

definition main_line :: bytes where
  "main_line = ''I am main'' @ [CHR 0x0A]"

definition final_line :: "64 word \<Rightarrow> 64 word \<Rightarrow> bytes" where
  "final_line r1 r2 = ''thread1 returned '' @ dec_of_word r1 @ ''; thread 2 returned ''
     @ dec_of_word r2 @ [CHR 0x0A]"

inductive two_step :: "two_sys \<Rightarrow> two_sys \<Rightarrow> bool" where
  create1: "main_at s = Create1 \<Longrightarrow>
    two_step s (s\<lparr>main_at := Create2, tpcs := (tpcs s)(1 := Running 1)\<rparr>)"
| create2: "main_at s = Create2 \<Longrightarrow>
    two_step s (s\<lparr>main_at := Say_main, tpcs := (tpcs s)(2 := Running 2)\<rparr>)"
| says: "main_at s = Say_main \<Longrightarrow>
    two_step s (s\<lparr>main_at := Join1, err_lines := err_lines s @ [main_line]\<rparr>)"
| join1: "main_at s = Join1 \<Longrightarrow> tpcs s 1 = Returned r \<Longrightarrow> two_step s (s\<lparr>main_at := Join2 r\<rparr>)"
| join2: "main_at s = Join2 r1 \<Longrightarrow> tpcs s 2 = Returned r \<Longrightarrow> two_step s (s\<lparr>main_at := Report r1 r\<rparr>)"
| prints: "main_at s = Report r1 r2 \<Longrightarrow>
    two_step s (s\<lparr>main_at := Over, out := out s @ final_line r1 r2\<rparr>)"
| thread: "tpcs s t = Running a \<Longrightarrow>
    two_step s (s\<lparr>tpcs := (tpcs s)(t := Returned a), err_lines := err_lines s @ [thread_line a]\<rparr>)"

definition two_start :: two_sys where
  "two_start = \<lparr>tpcs = (\<lambda>_. Absent), main_at = Create1, err_lines = [], out = []\<rparr>"

fun main_to_go :: "main_at \<Rightarrow> nat" where
  "main_to_go Create1 = 10" | "main_to_go Create2 = 8" | "main_to_go Say_main = 6"
| "main_to_go Join1 = 4" | "main_to_go (Join2 _) = 3" | "main_to_go (Report _ _) = 2"
| "main_to_go Over = 0"

fun thread_to_go :: "tpc \<Rightarrow> nat" where
  "thread_to_go (Running _) = 1"
| "thread_to_go _ = 0"

definition two_left :: "two_sys \<Rightarrow> nat" where
  "two_left s = main_to_go (main_at s) + thread_to_go (tpcs s 1) + thread_to_go (tpcs s 2)"

text \<open>The lines a thread has written.\<close>

fun thread_out :: "tpc \<Rightarrow> bytes multiset" where
  "thread_out (Returned a) = {#thread_line a#}"
| "thread_out _ = {#}"

definition two_inv :: "two_sys \<Rightarrow> bool" where
  "two_inv s \<longleftrightarrow> (\<forall>t. t \<noteq> 1 \<and> t \<noteq> 2 \<longrightarrow> tpcs s t = Absent)
     \<and> (tpcs s 1 = Absent \<longleftrightarrow> main_at s = Create1) \<and> (tpcs s 1 \<in> {Absent, Running 1, Returned 1})
     \<and> (tpcs s 2 = Absent \<longleftrightarrow> main_at s = Create1 \<or> main_at s = Create2)
     \<and> (tpcs s 2 \<in> {Absent, Running 2, Returned 2})
     \<and> mset (err_lines s) = thread_out (tpcs s 1) + thread_out (tpcs s 2)
         + (if main_at s \<in> {Create1, Create2, Say_main} then {#} else {#main_line#})
     \<and> (case main_at s of Join2 r \<Rightarrow> tpcs s 1 = Returned r
        | Report r1 r2 \<Rightarrow> tpcs s 1 = Returned r1 \<and> tpcs s 2 = Returned r2
        | Over \<Rightarrow> tpcs s 1 = Returned 1 \<and> tpcs s 2 = Returned 2 | _ \<Rightarrow> True)
     \<and> out s = (if main_at s = Over then final_line 1 2 else [])"

lemma thread_inv:
  assumes "two_inv s" and "tpcs s t = Running a"
  shows "two_inv (s\<lparr>tpcs := (tpcs s)(t := Returned a), err_lines := err_lines s @ [thread_line a]\<rparr>)"
proof -
  have t: "t = 1 \<or> t = 2" using assms by (auto simp: two_inv_def)
  show ?thesis
    using t assms by (elim disjE; cases "main_at s") (simp_all add: two_inv_def)
qed

lemma two_step_inv: "two_step s s' \<Longrightarrow> two_inv s \<Longrightarrow> two_inv s'"
proof (induction rule: two_step.induct)
  case (thread s t a)
  then show ?case by (blast intro: thread_inv)
qed (simp_all add: two_inv_def, auto)

lemma two_start_inv: "two_inv two_start"
  by (simp add: two_inv_def two_start_def)

interpretation two: invariant_system "\<lambda>s. s = two_start" two_step two_inv
  by unfold_locales (auto simp: two_start_inv intro: two_step_inv)

lemma two_step_left: "two_step s s' \<Longrightarrow> two_inv s \<Longrightarrow> two_left s' < two_left s"
proof (induction rule: two_step.induct)
  case (thread s t a)
  then have "t = 1 \<or> t = 2" by (auto simp: two_inv_def)
  with thread show ?case by (auto simp: two_left_def)
qed (simp_all add: two_left_def two_inv_def)

lemma two_stuck:
  assumes "two_inv s" and "\<nexists>s'. two_step s s'"
  shows "main_at s = Over"
proof -
  have quiet: "tpcs s t \<noteq> Running a" for t a using assms(2) by (auto intro: two_step.thread)
  show ?thesis
    using assms quiet [of 1 1] quiet [of 2 2]
    by (cases "main_at s")
      (auto simp: two_inv_def intro: two_step.intros dest: two_step.join1 [simplified])
qed

text \<open>Every run of the two threads and \<open>main\<close> ends, with the two arguments returned and reported and
  the three lines on standard error in some order.\<close>

theorem two_threads_result:
  assumes "two_step\<^sup>*\<^sup>* two_start s"
  shows "(\<forall>s'. two_step s s' \<longrightarrow> two_left s' < two_left s)
    \<and> ((\<nexists>s'. two_step s s') \<longrightarrow> out s = final_line 1 2
        \<and> mset (err_lines s) = {#thread_line 1, thread_line 2, main_line#})"
proof -
  have inv: "two_inv s" using two.reach_inv assms by blast
  have "out s = final_line 1 2 \<and> mset (err_lines s) = {#thread_line 1, thread_line 2, main_line#}"
    if "main_at s = Over" using inv that by (simp add: two_inv_def)
  with inv two_step_left two_stuck show ?thesis by blast
qed

end
