(* ===== verification/Memory_Parsing.thy ===== *)
theory Memory_Parsing
  imports Connection
begin

text \<open>
  The command parser of \<open>practica/regex/memory_parsing.c\<close>: a read loop that fills a buffer from a
  descriptor, and a regular expression that finds the command and the location in it. Pointers into
  the buffer are offsets; a write outside the buffer is a result of its own.
\<close>

section \<open>The program\<close>

text \<open>\<open>PATH_MAX\<close> on Linux.\<close>

definition BUFFER_SIZE :: nat where
  "BUFFER_SIZE = 4096"

text \<open>The bracket expressions \<open>[A-zA-Z]\<close> and \<open>[a-zA-Z0-9._]\<close>. A subject has at most \<open>BUFFER_SIZE\<close>
  bytes, so a starred item repeats at most that often.\<close>

definition is_cmd_char :: "byte \<Rightarrow> bool" where
  "is_cmd_char c \<longleftrightarrow> in_range (CHR ''A'') (CHR ''z'') c \<or> in_range (CHR ''A'') (CHR ''Z'') c"

definition is_loc_char :: "byte \<Rightarrow> bool" where
  "is_loc_char c \<longleftrightarrow> is_alpha c \<or> is_digit c \<or> c \<in> set ''._''"

definition PARSE_REGEX :: ere where
  "PARSE_REGEX = Item True is_cmd_char 0 BUFFER_SIZE # lit '' /'' @
     Item True is_loc_char 0 BUFFER_SIZE # lit [LF]"

record Command =
  buf :: bytes
  bufsize :: "16 word"
  command :: "nat option"
  location :: "nat option"

text \<open>\<open>read_bytes\<close> from offset \<open>tot\<close> on: the value returned, what was stored and the stream. A read
  that fails, be it by an interruption, ends it with -1.\<close>

function read_bytes :: "istream \<Rightarrow> nat \<Rightarrow> nat \<Rightarrow> int \<times> bytes \<times> istream" where
  "read_bytes s nbytes tot =
     (case sys_read s (nbytes - tot) of
        (Inl e, s') \<Rightarrow> (- 1, [], s')
      | (Inr bs, s') \<Rightarrow>
          if 0 < length bs \<and> tot + length bs < nbytes
          then (case read_bytes s' nbytes (tot + length bs) of
                  (r, rest, s'') \<Rightarrow> (r, bs @ rest, s''))
          else (int (tot + length bs), bs, s'))"
  by pat_completeness auto
termination
  by (relation "measure (\<lambda>(_, n, tot). n - tot)") (auto intro: advance_less)

declare read_bytes.simps [simp del]

datatype 'a checked = Fine 'a | OutOfBounds nat | AssertFailed

definition cmd_parse :: "bool \<Rightarrow> Command \<Rightarrow> istream \<Rightarrow> Command checked" where
  "cmd_parse regcomp_ok c s =
     (case read_bytes s BUFFER_SIZE 0 of
        (r, bs, _) \<Rightarrow>
          let c1 = c\<lparr>buf := bs @ drop (length bs) (buf c), bufsize := of_int r\<rparr>;
              n = unat (bufsize c1)
          in if 0 < n then
               (if \<not> n < BUFFER_SIZE + 1 then OutOfBounds n
                else
                  let c2 = c1\<lparr>buf := (buf c1)[n := NUL]\<rparr>
                  in if \<not> regcomp_ok then AssertFailed
                     else (case regexec True PARSE_REGEX (cstr (buf c2) 0) of
                             Some matches \<Rightarrow>
                               Fine (c2\<lparr>command := Some 0, location := Some (fst (matches ! 2))\<rparr>)
                           | None \<Rightarrow> Fine (c2\<lparr>command := None, location := None\<rparr>)))
             else Fine c1)"

definition cmd_dump :: "Command \<Rightarrow> bytes" where
  "cmd_dump c =
     (case (command c, location c) of
        (Some i, Some j) \<Rightarrow>
          ''Command: '' @ cstr (buf c) i @ [LF] @ ''Location: '' @ cstr (buf c) j @ [LF]
      | _ \<Rightarrow> ''Command not parsed!'' @ [LF])"

definition TAB :: byte where
  "TAB = CHR 0x09"

definition print_usage :: "bytes \<Rightarrow> bytes" where
  "print_usage exec = ''usage: '' @ exec @ [LF, LF]
     @ ''Parses a get/set command header that were passed to stdin'' @ [LF]
     @ ''The format for valid a command is:'' @ [LF]
     @ TAB # ''[method] [location]'' @ [CHR 0x5C] @ ''n'' @ [LF]
     @ ''where:'' @ [LF]
     @ TAB # ''[method] has between 1 and 8 characters in the range [a-zA-Z]'' @ [LF]
     @ TAB # ''[location] starts with '' @ [CHR 0x27] @ ''/'' @ [CHR 0x27]
     @ '' and includes up to 64 characters in the set [a-zA-Z0-9._]'' @ [LF]"

text \<open>\<open>main\<close> prints the usage and returns; the calls of the parser come after that. The result is the
  output and the status.\<close>

definition memory_main :: "bytes list \<Rightarrow> bytes \<times> int" where
  "memory_main argv = (print_usage (argv ! 0), 0)"

section \<open>Reading\<close>

lemma sys_read_sched: "sys_read s n = (x, s') \<Longrightarrow> set (isched s') \<subseteq> set (isched s)"
  by (auto simp: io_defs Let_def split: list.splits io_ev.splits)

lemma read_bytes_result:
  assumes "tot < nbytes" and "read_bytes s nbytes tot = (r, bs, s')"
  shows "idata s = bs @ idata s' \<and> tot + length bs \<le> nbytes
    \<and> (if r < 0 then r = - 1 \<and> (\<exists>e. Fail e \<in> set (isched s))
       else r = int (tot + length bs) \<and> (tot + length bs = nbytes \<or> idata s' = []))"
  using assms
proof (induction s nbytes tot arbitrary: r bs s' rule: read_bytes.induct)
  case (1 s nbytes tot)
  obtain x s1 where rd: "sys_read s (nbytes - tot) = (x, s1)" by fastforce
  show ?case
  proof (cases x)
    case (Inl e)
    with 1(3) rd have "r = - 1" "bs = []" "s' = s1" by (simp_all add: read_bytes.simps [of s])
    moreover have "Fail e \<in> set (isched s)" "idata s1 = idata s"
      using rd Inl by (auto simp: io_defs Let_def split: list.splits io_ev.splits)
    ultimately show ?thesis using 1(2) by auto
  next
    case (Inr b)
    have b: "idata s = b @ idata s1" "length b \<le> nbytes - tot" "b = [] \<longrightarrow> idata s1 = []"
      using rd Inr sys_read_Inr [of s "nbytes - tot" b s1] 1(2) by simp_all
    have sub: "set (isched s1) \<subseteq> set (isched s)" using rd by (rule sys_read_sched)
    show ?thesis
    proof (cases "0 < length b \<and> tot + length b < nbytes")
      case True
      obtain r1 rest s2 where rec: "read_bytes s1 nbytes (tot + length b) = (r1, rest, s2)"
        by (metis prod_cases3)
      with 1(3) rd Inr True have "r = r1" "bs = b @ rest" "s' = s2"
        by (simp_all add: read_bytes.simps [of s])
      with 1(1) [OF rd [symmetric] Inr True _ rec] True b sub show ?thesis
        by (auto simp: add.assoc split: if_splits)
    next
      case False
      with 1(3) rd Inr have "r = int (tot + length b)" "bs = b" "s' = s1"
        by (auto simp: read_bytes.simps [of s] split: if_splits)
      with False b 1(2) show ?thesis by auto
    qed
  qed
qed

section \<open>Matching\<close>

definition command_line :: "bytes \<Rightarrow> bytes \<Rightarrow> bytes \<Rightarrow> bytes \<Rightarrow> bool" where
  "command_line s w l rest \<longleftrightarrow> s = w @ '' /'' @ l @ LF # rest
     \<and> list_all is_cmd_char w \<and> list_all is_loc_char l"

lemma delimiters: "\<not> is_cmd_char (CHR '' '')" "\<not> is_loc_char LF"
  by (simp_all add: is_cmd_char_def is_loc_char_def is_alpha_def in_range_def is_digit_def)

lemma matches_line:
  assumes "command_line s w l rest" and "length s \<le> BUFFER_SIZE"
  shows "matches_as PARSE_REGEX s ks \<longleftrightarrow> ks = [length w, 1, 1, length l, 1]"
proof -
  have len: "length w \<le> BUFFER_SIZE" "length l \<le> BUFFER_SIZE"
    using assms by (auto simp: command_line_def)
  have nil: "matches_as [] rest v \<longleftrightarrow> v = []" for v by simp
  show ?thesis
    using assms(1) len
    by (auto simp: command_line_def PARSE_REGEX_def delimiters
        matches_as_delim [where cls = is_cmd_char and c = "CHR '' ''"]
        matches_as_delim [where cls = is_loc_char and c = LF] matches_as_one simp del: matches_as.simps(2))
qed

lemma matches_only_lines:
  assumes "matches_as PARSE_REGEX s ks"
  shows "\<exists>w l rest. command_line s w l rest"
proof -
  from assms obtain k ks1 where k: "list_all is_cmd_char (take k s)"
    "matches_as (lit '' /'' @ Item True is_loc_char 0 BUFFER_SIZE # lit [LF]) (drop k s) ks1"
    unfolding PARSE_REGEX_def by (elim matches_as_ItemE) auto
  from k(2) obtain ks2 where s1: "drop k s = '' /'' @ drop 2 (drop k s)"
    "matches_as (Item True is_loc_char 0 BUFFER_SIZE # lit [LF] @ []) (drop 2 (drop k s)) ks2"
    by (elim matches_as_litE) auto
  let ?t = "drop 2 (drop k s)"
  from s1(2) obtain j ks3 where j: "list_all is_loc_char (take j ?t)"
    "matches_as (lit [LF] @ []) (drop j ?t) ks3"
    by (elim matches_as_ItemE) auto
  from j(2) obtain rest where "drop j ?t = LF # rest" by (elim matches_as_litE) auto
  then have "?t = take j ?t @ LF # rest" by (metis append_take_drop_id)
  with s1(1) have "s = take k s @ '' /'' @ take j ?t @ LF # rest" by (metis append_take_drop_id)
  with k(1) j(1) show ?thesis unfolding command_line_def by blast
qed

lemma regexec_line:
  assumes "length s \<le> BUFFER_SIZE"
  shows "case regexec True PARSE_REGEX s of
      None \<Rightarrow> \<nexists>w l rest. command_line s w l rest
    | Some ms \<Rightarrow> \<exists>w l rest. command_line s w l rest \<and> fst (ms ! 2) = length w + 2"
proof (cases "\<exists>w l rest. command_line s w l rest")
  case True
  then obtain w l rest where line: "command_line s w l rest" by blast
  have "best PARSE_REGEX s = Some [length w, 1, 1, length l, 1]"
    by (rule best_unique) (rule matches_line [OF line assms])
  from regexec_at_start [OF this, of True] line show ?thesis
    by (auto simp: PARSE_REGEX_def)
next
  case False
  then have "best PARSE_REGEX s = None" using matches_only_lines [of s] unfolding best_None_iff by blast
  with False show ?thesis by (simp add: regexec_def regexec_from.simps)
qed

lemma cstr_terminated:
  assumes "length b < length (bs :: bytes)"
  shows "cstr ((b @ drop (length b) bs)[length b := NUL]) 0 = cstr b 0"
proof -
  obtain x xs where "drop (length b) bs = x # xs" using assms by (cases "drop (length b) bs") auto
  then have "(b @ drop (length b) bs)[length b := NUL] = b @ NUL # xs" by simp
  then show ?thesis by (auto simp: cstr_def takeWhile_append takeWhile_eq_all_conv [THEN iffD2])
qed

lemma command_line_unique:
  assumes "command_line s w l rest"
  shows "w = takeWhile is_cmd_char s"
proof -
  have "takeWhile is_cmd_char (w @ '' /'' @ l @ LF # rest) = w"
    using assms delimiters(1) by (simp add: command_line_def takeWhile_append list_all_iff)
  with assms show ?thesis by (simp add: command_line_def)
qed

lemma location_inside: "command_line s w l rest \<Longrightarrow> length w + 2 \<le> length s"
  by (auto simp: command_line_def)

text \<open>What the fields are after a parse of the bytes \<open>bs\<close>, and what \<open>cmd_dump\<close> prints of them: neither
  string is cut off where it ends, so both run on to the end of the input.\<close>

definition parsed :: "Command \<Rightarrow> bytes \<Rightarrow> Command \<Rightarrow> bool" where
  "parsed c bs c' \<longleftrightarrow> unat (bufsize c') = length bs \<and> length (buf c') = BUFFER_SIZE + 1
     \<and> (if bs = [] then command c' = command c \<and> location c' = location c
        else cstr (buf c') 0 = cstr bs 0 \<and>
          (if \<exists>w l rest. command_line (cstr bs 0) w l rest
           then command c' = Some 0
             \<and> location c' = Some (length (takeWhile is_cmd_char (cstr bs 0)) + 2)
             \<and> cmd_dump c' = ''Command: '' @ cstr bs 0 @ [LF]
                 @ ''Location: '' @ drop (length (takeWhile is_cmd_char (cstr bs 0)) + 2) (cstr bs 0) @ [LF]
           else command c' = None \<and> location c' = None \<and> cmd_dump c' = ''Command not parsed!'' @ [LF]))"

lemma cmd_parse_fine:
  assumes "length (buf c) = BUFFER_SIZE + 1" and "length bs \<le> BUFFER_SIZE"
    and "read_bytes s BUFFER_SIZE 0 = (int (length bs), bs, s')"
  shows "\<exists>c'. cmd_parse True c s = Fine c' \<and> parsed c bs c'"
proof -
  have n: "unat (of_int (int (length bs)) :: 16 word) = length bs"
    using assms(2) by (simp add: unat_of_nat BUFFER_SIZE_def)
  have lt: "length bs < length (buf c)" using assms(1,2) by simp
  have "length (cstr bs 0) \<le> BUFFER_SIZE" using length_cstr_le [of bs 0] assms(2) by simp
  note rx = regexec_line [OF this]
  let ?b = "(bs @ drop (length bs) (buf c))[length bs := NUL]"
  have loc: "cstr ?b (length w + 2) = drop (length (takeWhile is_cmd_char (cstr bs 0)) + 2) (cstr bs 0)"
    if "command_line (cstr bs 0) w l rest" for w l rest
    using cstr_drop [of "length w + 2" ?b 0] location_inside [OF that] command_line_unique [OF that]
      cstr_terminated [OF lt] by simp
  show ?thesis
    using assms n lt rx loc cstr_terminated [OF lt]
    by (cases "bs = []"; cases "regexec True PARSE_REGEX (cstr bs 0)")
      (auto simp: cmd_parse_def parsed_def Let_def cmd_dump_def
        dest: command_line_unique)
qed

text \<open>
  C40: \<open>cmd_parse\<close> keeps to its buffer unless reading fails. \<open>read_bytes\<close> delivers the input up to
  the size of the buffer; the length fits the 16-bit field, the terminating NUL stays inside the
  array, and the fields are set exactly when the text starts with a command, a blank, a slash, a
  location and a newline, the location being where the location starts; \<open>cmd_dump\<close> then prints the
  whole input as the command and all of it from the location on as the location. An empty input
  leaves both pointers as they were. A failed read returns -1, which the field turns into 65535, and the NUL is
  written outside the array.
\<close>

theorem cmd_parse_result:
  assumes "length (buf c) = BUFFER_SIZE + 1"
  shows "case read_bytes s BUFFER_SIZE 0 of (r, bs, s') \<Rightarrow>
    idata s = bs @ idata s' \<and> length bs \<le> BUFFER_SIZE
    \<and> (if r < 0 then (\<exists>e. Fail e \<in> set (isched s)) \<and> cmd_parse True c s = OutOfBounds 65535
       else (length bs = BUFFER_SIZE \<or> idata s' = [])
         \<and> (\<exists>c'. cmd_parse True c s = Fine c' \<and> parsed c bs c'))"
proof -
  obtain r bs s' where rd: "read_bytes s BUFFER_SIZE 0 = (r, bs, s')" by (metis prod_cases3)
  have res: "idata s = bs @ idata s'" "length bs \<le> BUFFER_SIZE"
    "if r < 0 then r = - 1 \<and> (\<exists>e. Fail e \<in> set (isched s))
     else r = int (length bs) \<and> (length bs = BUFFER_SIZE \<or> idata s' = [])"
    using read_bytes_result [OF _ rd] by (simp_all add: BUFFER_SIZE_def split: if_splits)
  show ?thesis
  proof (cases "r < 0")
    case True
    with res(3) have "r = - 1" by simp
    moreover have "unat (- 1 :: 16 word) = 65535" by (simp add: unsigned_minus_1_eq_mask mask_eq_exp_minus_1)
    ultimately have "cmd_parse True c s = OutOfBounds 65535"
      using rd by (simp add: cmd_parse_def Let_def BUFFER_SIZE_def)
    with True res rd show ?thesis by simp
  next
    case False
    with res(3) rd have "read_bytes s BUFFER_SIZE 0 = (int (length bs), bs, s')" by simp
    from cmd_parse_fine [OF assms res(2) this] False res rd show ?thesis by simp
  qed
qed

definition sample_command :: Command where
  "sample_command = \<lparr>buf = replicate 4097 (CHR ''x''), bufsize = 0, command = None, location = None\<rparr>"

definition failing_input :: istream where
  "failing_input = \<lparr>idata = ''GET /a'', isched = [Xfer 2, Fail EIO]\<rparr>"

theorem cmd_parse_result_witness:
  "cmd_parse True sample_command failing_input = OutOfBounds 65535"
proof -
  have "read_bytes failing_input BUFFER_SIZE 0 = (- 1, ''GET'', \<lparr>idata = '' /a'', isched = []\<rparr>)"
    by (simp add: failing_input_def BUFFER_SIZE_def read_bytes.simps sys_read_def)
  with cmd_parse_result [of sample_command failing_input] show ?thesis
    by (simp add: sample_command_def BUFFER_SIZE_def)
qed

end
