(* ===== verification/Spec2Isabelle.thy ===== *)
theory Spec2Isabelle
  imports Whole_Progress Log_Readback Queue_Concurrent Pool_Creation Starter
    Rwlock_User Practica_Main Practica_Basics Memory_Parsing
begin

text \<open>
  Verification of HTTP-C, a multithreaded HTTP/1.1 file server in C, and of the exercises beside it.

  \<^bold>\<open>The program.\<close> \<open>main\<close> (\<open>src/httpserver.c\<close>) reads the options (\<open>src/opt.c\<close>), opens the audit log
  (\<open>src/log.c\<close>), vouches for the lock directory, catches the signals, creates the workers
  (\<open>src/threadpool.c\<close>) and listens (\<open>src/listener.c\<close>). Then it accepts connections and pushes them
  into a bounded queue (\<open>src/queue.c\<close>); each worker pops one, parses the request
  (\<open>src/connection.c\<close> over \<open>src/util.c\<close>, \<open>src/request.c\<close>, \<open>src/response.c\<close>), takes an advisory
  lock on a lockfile chosen by the URI, serves the GET or PUT, writes one audit line and unlocks.

  \<^bold>\<open>Theories and sources.\<close>
  \<^item> \<open>Http_Prelude\<close>: bytes, C strings, decimal numerals, counting over thread tables, fact
    collections, the locale \<open>invariant_system\<close> of transition systems with an invariant, which
    every concurrent component below interprets, and its extension \<open>settling_system\<close>, whose
    states make progress along a well-founded order until they are at rest.
  \<^item> \<open>Sysio\<close>: \<open>read\<close> and \<open>write\<close> on streams with a schedule of short transfers, interruptions and
    errors. \<open>Util_IO\<close>: \<open>write_all\<close>, \<open>pass_bytes\<close>, \<open>read_until\<close> of \<open>src/util.c\<close>; each does exactly
    its transfer or leaves a prefix and an error, and \<open>read_until\<close> stops at the first read that
    completes the needle.
  \<^item> \<open>Req_Resp\<close>: the tables of \<open>src/request.c\<close> and \<open>src/response.c\<close>.
  \<^item> \<open>Posix_Regex\<close>: \<open>regexec\<close> for the patterns in use, leftmost longest, with a declarative
    reading of what a match is.
  \<^item> \<open>Connection\<close>, \<open>Connection_Parse\<close>, \<open>Connection_Transfer\<close>: \<open>struct Conn\<close> and every function of
    \<open>src/connection.c\<close>; a printed request is parsed back, all fields fit their arrays, bodies are
    stored and files and responses sent byte for byte; two kinds of request on which the code goes
    wrong, bodies that look like headers and declared lengths from \<open>2 ^ 63\<close> on.
  \<^item> \<open>Audit_Log\<close>: \<open>src/log.c\<close>, as operations and as threads that contend for the mutex; lines are
    never torn and stand in the order in which the mutex was taken.
  \<^item> \<open>Http_Server\<close>, \<open>Server_Locks\<close>, \<open>Server_Handlers\<close>: lock directory, lockfile names, handlers and
    \<open>handle_connection\<close> of \<open>src/httpserver.c\<close> with every early return, on a world of files, log,
    descriptors and a trace of the calls, failing ones included; lockfile names are injective and
    lie in the lock directory except for the URIs \<open>.\<close> and \<open>..\<close>; the lock directory is vouched for in
    a name space with symbolic links; every path is accounted for and, when the lock is granted,
    makes its calls, its answer and its audit line inside one critical section.
  \<^item> \<open>Server_Refinement\<close>: \<open>handle_connection\<close> implements an abstract server that maps a file state
    and a request to an answer, a file state and an audit line.
  \<^item> \<open>Log_Readback\<close>: the lines that handled connections add to the audit log are typed and read
    back to the method, URI and request id of the client and the status it was answered.
  \<^item> \<open>Server_Linearization\<close>: the handlers of many connections interleaved statement by statement
    under \<open>flock\<close>, with every call that can fail and with refused requests; the audit log is a
    linearization of them when URIs do not alias, with the failed requests at the place of their
    line. When URIs alias, no order explains two answers that can be given.
  \<^item> \<open>Bounded_Queue\<close>, \<open>Queue_Concurrent\<close>: \<open>src/queue.c\<close> as an object, against the locale
    \<open>bounded_fifo\<close>, and as interleaved semaphore operations that refine the same FIFO.
  \<^item> \<open>Thread_Pool\<close>, \<open>Pool_Creation\<close>: \<open>src/threadpool.c\<close>: workers, submission and shutdown, and the
    construction with its rollback beside the workers that already run; each ends in every run.
  \<^item> \<open>Opt_Parse\<close>: \<open>src/opt.c\<close> over \<open>strtol\<close> and \<open>getopt\<close>. \<open>Listener\<close>: \<open>src/listener.c\<close>.
  \<^item> \<open>Server_Main\<close>, \<open>Server_Dispatch\<close>: start-up, signals and dispatcher loop of \<open>main\<close>, composed
    with the options, the log, the lock directory, the pool and the listener.
  \<^item> \<open>Whole_Server\<close>: dispatcher, queue, workers, signals and the statements of the handlers in one
    system, each request being what \<open>conn_parse\<close> makes of the bytes of its client; every request,
    served or refused, is audited once and the audit log explains every answer and, at any moment,
    every file that no PUT is at work on.
  \<^item> \<open>Whole_Progress\<close>: the same system comes to rest: no deadlock between queue, lockfiles and
    workers, no endless work; at rest every accepted connection has been handled and closed and
    every request audited.
  \<^item> \<open>Starter\<close>: \<open>practica/asgn4-starter/httpserver.c\<close>, the template of the server, over the library it
    is linked with as a parameter; with \<open>src/connection.c\<close> as that library it is compared with the
    server.
  \<^item> \<open>Rwlock\<close>, \<open>Rwlock_User\<close>: \<open>practica/pthreads/rwlock\<close>, the lock, its three policies (locale
    \<open>exclusive_policy\<close>), the threads that use it and the \<open>main\<close> that joins them.
    \<open>Practica_Threads\<close>, \<open>Practica_Main\<close>: the counters of \<open>practica/pthreads/locks\<close>, \<open>sema\<close> and
    \<open>condvars\<close>, a trial and the loops of trials. \<open>Practica_Basics\<close>: \<open>practica/file_io\<close> and
    \<open>practica/pthreads/using_threads\<close>. \<open>Memory_Parsing\<close>: \<open>practica/regex\<close>.

  \<^bold>\<open>Modelling.\<close> A function of the program is a HOL function whose further arguments say what the
  operating system answers (which call fails, how a transfer is cut up), so that every error path
  is a branch; errors are values of sums, options and enumerations. Threads are step relations in
  which the shared accesses are single steps. Machine integers are words, or integers with the
  wrap-around and the conversions written out; where C leaves a signed overflow undefined, the result
  is unspecified. Loops are total functions: a transfer loop moves a
  byte or uses up an entry of a finite schedule in each turn, so a call is interrupted finitely
  often but in any pattern; no fuel is used. The bound of a starred item in the command pattern is
  the size of the buffer it is matched against.

  \<^bold>\<open>Assumptions about the environment.\<close> A successful transfer moves at least one byte, an
  allocated block has the size asked for, a new descriptor is not one that is open, \<open>flock\<close>
  excludes as documented, \<open>access\<close> finds a file exactly when it is there, and mutexes, semaphores and condition variables follow POSIX with
  spurious wake-ups. The theorems on interleaved requests (\<open>Server_Linearization\<close>, \<open>Whole_Server\<close>,
  \<open>Whole_Progress\<close>) assume that different URIs of GETs and PUTs name different files; without it they
  fail, which is proved too. Those on the whole server also assume that no client declares a length
  whose arithmetic is undefined in C. Whether a lockfile can be opened is left to the environment,
  also for the URIs \<open>.\<close> and \<open>..\<close>, whose lockfile would be a directory.

  \<^bold>\<open>Not modelled.\<close> Diagnostics on standard error, the contents of memory after \<open>free\<close>, real time
  (a timeout is an error of the schedule), memory-order effects below the synchronisation
  operations, other processes that change the served files. The statements after the endless loop of
  the dispatcher are never reached; what is left of the headers is prototypes and comments. The
  library the assignment starter is linked with is not in the repository. The Zig, Python, shell and Julia tools around the
  server (benchmarks, test harness, workloads), the build files and the documents.
\<close>

end
